(* ===== verification/Prelude.thy ===== *)
theory Prelude
  imports Main "HOL-Library.Word" "HOL-Library.AList"
begin

text \<open>
  Shared vocabulary of the development: bytes and Go strings, the outcome of code that may
  fail or panic, the wrap-around of signed 64-bit integers, little-endian and decimal
  encodings, ASCII case mapping and the substring search of package \<^verbatim>\<open>strings\<close>, with
  the lemmas the components share.
\<close>

section \<open>Collections\<close>

named_theorems codec_simps \<open>rewrite rules of byte encodings\<close>
named_theorems step_simps \<open>unfoldings of the step functions\<close>

section \<open>Association lists\<close>

lemma map_of_update [simp]: "map_of (AList.update k v d) = (map_of d)(k \<mapsto> v)"
  by (rule update_conv')

lemma map_of_delete: "map_of (AList.delete k d) = (map_of d)(k := None)"
  by (rule delete_conv')

section \<open>Bytes, strings and outcomes\<close>

text \<open>
  A Go \<^verbatim>\<open>string\<close> and a \<^verbatim>\<open>[]byte\<close> are both byte sequences; a byte is an Isabelle
  \<^typ>\<open>char\<close> (a number below 256), so that the conversions \<^verbatim>\<open>string(b)\<close> and
  \<^verbatim>\<open>[]byte(s)\<close> of the source are the identity.
\<close>

type_synonym byte = char
type_synonym bytes = "char list"

abbreviation byte_val :: "byte \<Rightarrow> nat" where
  "byte_val c \<equiv> of_char c"

text \<open>A Go call that returns a value, returns an error or panics.\<close>

datatype ('e, 'a) outcome = Ok 'a | Error 'e | Panic

abbreviation crlf :: bytes where
  "crlf \<equiv> [CHR 0x0D, CHR 0x0A]"

abbreviation nl :: byte where
  "nl \<equiv> CHR 0x0A"

lemma drop_at: "n = length xs \<Longrightarrow> drop n (xs @ ys) = ys"
  by simp

lemma take_at: "n = length xs \<Longrightarrow> take n (xs @ ys) = xs"
  by simp

section \<open>Signed 64-bit integers\<close>

definition max_int64 :: int where
  "max_int64 = 2 ^ 63 - 1"

definition wrap64 :: "int \<Rightarrow> int" where
  "wrap64 x = (x + 2 ^ 63) mod 2 ^ 64 - 2 ^ 63"

lemma wrap64_id: "- (2 ^ 63) \<le> x \<Longrightarrow> x \<le> max_int64 \<Longrightarrow> wrap64 x = x"
  by (simp add: wrap64_def max_int64_def)

lemma wrap64_range: "- (2 ^ 63) \<le> wrap64 x \<and> wrap64 x \<le> max_int64"
proof -
  have "0 \<le> (x + 2 ^ 63) mod 2 ^ 64" "(x + 2 ^ 63) mod 2 ^ 64 < (2 ^ 64 :: int)"
    by simp_all
  then show ?thesis
    by (simp add: wrap64_def max_int64_def)
qed

section \<open>Little-endian encodings\<close>

fun le_enc :: "nat \<Rightarrow> nat \<Rightarrow> bytes" where
  "le_enc 0 v = []"
| "le_enc (Suc k) v = char_of (v mod 256) # le_enc k (v div 256)"

fun le_dec :: "bytes \<Rightarrow> nat" where
  "le_dec [] = 0"
| "le_dec (c # cs) = byte_val c + 256 * le_dec cs"

lemma length_le_enc [simp]: "length (le_enc k v) = k"
  by (induction k arbitrary: v) auto

lemma byte_val_less [simp]: "byte_val c < 256"
  using of_char_mod_256 [of c, where 'a = nat] by (metis mod_less_divisor zero_less_numeral)

lemma byte_val_le: "byte_val c \<le> 255"
proof -
  have "x \<le> 255" if "x < 256" for x :: nat using that by simp
  then show ?thesis by (simp only: byte_val_less)
qed

lemma le_dec_less: "le_dec bs < 256 ^ length bs"
proof (induction bs)
  case Nil
  then show ?case by simp
next
  case (Cons c cs)
  have "byte_val c + 256 * le_dec cs < Suc (le_dec cs) * 256"
    by simp
  also have "\<dots> \<le> 256 ^ length cs * 256"
    using Cons by (intro mult_le_mono) auto
  finally show ?case by (simp add: mult.commute)
qed

lemma le_dec_enc [codec_simps]: "le_dec (le_enc k v) = v mod 256 ^ k"
proof (induction k arbitrary: v)
  case 0
  then show ?case by simp
next
  case (Suc k)
  have "v mod (256 * 256 ^ k) = 256 * (v div 256 mod 256 ^ k) + v mod 256"
    by (rule mod_mult2_eq)
  with Suc show ?case by simp
qed

lemma le_enc_dec [codec_simps]: "le_enc (length bs) (le_dec bs) = bs"
  by (induction bs) (simp_all add: mod_mult_self1 [of "byte_val _" 256])

lemma le_enc_dec_take: "length bs = k \<Longrightarrow> le_enc k (le_dec bs) = bs"
  using le_enc_dec [of bs] by simp

text \<open>\<^verbatim>\<open>binary.LittleEndian.Uint16/32/64\<close> and \<^verbatim>\<open>AppendUint16/32/64\<close>.\<close>

definition get_u16 :: "bytes \<Rightarrow> 16 word" where
  "get_u16 b = of_nat (le_dec (take 2 b))"

definition get_u32 :: "bytes \<Rightarrow> 32 word" where
  "get_u32 b = of_nat (le_dec (take 4 b))"

definition get_u64 :: "bytes \<Rightarrow> 64 word" where
  "get_u64 b = of_nat (le_dec (take 8 b))"

definition put_u16 :: "16 word \<Rightarrow> bytes" where
  "put_u16 w = le_enc 2 (unat w)"

definition put_u32 :: "32 word \<Rightarrow> bytes" where
  "put_u32 w = le_enc 4 (unat w)"

definition put_u64 :: "64 word \<Rightarrow> bytes" where
  "put_u64 w = le_enc 8 (unat w)"

lemma length_put [simp]:
  "length (put_u16 a) = 2" "length (put_u32 b) = 4" "length (put_u64 c) = 8"
  by (simp_all add: put_u16_def put_u32_def put_u64_def)

lemma get_put_u16 [codec_simps]: "get_u16 (put_u16 w @ r) = w"
  using unsigned_less [of w, where 'a = nat]
  by (simp add: get_u16_def put_u16_def codec_simps)

lemma get_put_u32 [codec_simps]: "get_u32 (put_u32 w @ r) = w"
  using unsigned_less [of w, where 'a = nat]
  by (simp add: get_u32_def put_u32_def codec_simps)

lemma get_put_u64 [codec_simps]: "get_u64 (put_u64 w @ r) = w"
  using unsigned_less [of w, where 'a = nat]
  by (simp add: get_u64_def put_u64_def codec_simps)

lemma put_get_u16: "2 \<le> length b \<Longrightarrow> put_u16 (get_u16 b) = take 2 b"
  using le_dec_less [of "take 2 b"] le_enc_dec_take [of "take 2 b" 2]
  by (simp add: get_u16_def put_u16_def unat_of_nat)

lemma put_get_u32: "4 \<le> length b \<Longrightarrow> put_u32 (get_u32 b) = take 4 b"
  using le_dec_less [of "take 4 b"] le_enc_dec_take [of "take 4 b" 4]
  by (simp add: get_u32_def put_u32_def unat_of_nat)

lemma put_get_u64: "8 \<le> length b \<Longrightarrow> put_u64 (get_u64 b) = take 8 b"
  using le_dec_less [of "take 8 b"] le_enc_dec_take [of "take 8 b" 8]
  by (simp add: get_u64_def put_u64_def unat_of_nat)

lemmas put_get = put_get_u16 put_get_u32 put_get_u64

text \<open>Taking a header field off the front, then the next: the sum of the two.\<close>

lemma take_drop_join: "take m (drop k b) @ drop (k + m) b = drop k b"
  by (metis add.commute append_take_drop_id drop_drop)

end
