(* ===== verification/GoStd.thy ===== *)
theory GoStd
  imports Prelude "HOL-Library.List_Lexorder" "HOL-Library.Char_ord"
begin

text \<open>
  The functions of Go's packages \<^verbatim>\<open>strconv\<close> and \<^verbatim>\<open>strings\<close> that the sources call:
  decimal formatting and parsing, case mapping as far as a comparison with ASCII literals
  can see it, prefix tests, substring search, joining and splitting. Strings are ordered by
  bytes, which is the lexicographic order of \<^verbatim>\<open>List_Lexorder\<close> over \<^verbatim>\<open>Char_ord\<close>.
\<close>

section \<open>Decimal numerals\<close>

definition is_digit :: "byte \<Rightarrow> bool" where
  "is_digit c \<longleftrightarrow> 48 \<le> byte_val c \<and> byte_val c \<le> 57"

definition digit_val :: "byte \<Rightarrow> nat" where
  "digit_val c = byte_val c - 48"

definition digit_char :: "nat \<Rightarrow> byte" where
  "digit_char d = char_of (48 + d)"

text \<open>\<^verbatim>\<open>strconv.FormatUint(n, 10)\<close> and \<^verbatim>\<open>strconv.FormatInt(i, 10)\<close>.\<close>

fun format_uint :: "nat \<Rightarrow> bytes" where
  "format_uint n = (if n < 10 then [digit_char n]
     else format_uint (n div 10) @ [digit_char (n mod 10)])"

declare format_uint.simps [simp del]

definition format_int :: "int \<Rightarrow> bytes" where
  "format_int i = (if i < 0 then CHR ''-'' # format_uint (nat (- i)) else format_uint (nat i))"

definition dec_val :: "bytes \<Rightarrow> nat" where
  "dec_val ds = foldl (\<lambda>v c. v * 10 + digit_val c) 0 ds"

lemma digit_char_props [simp]:
  assumes "d < 10"
  shows "is_digit (digit_char d)" "digit_val (digit_char d) = d" "byte_val (digit_char d) = 48 + d"
  using assms by (simp_all add: is_digit_def digit_char_def digit_val_def)

lemma dec_val_snoc [simp]: "dec_val (ds @ [c]) = dec_val ds * 10 + digit_val c"
  by (simp add: dec_val_def)

lemma dec_val_Nil [simp]: "dec_val [] = 0"
  by (simp add: dec_val_def)

lemma format_uint_nonempty [simp]: "format_uint n \<noteq> []"
  by (subst format_uint.simps) simp

lemma format_uint_digits: "list_all is_digit (format_uint n)"
proof (induction n rule: format_uint.induct)
  case (1 n)
  then show ?case
    by (cases "n < 10") (simp_all add: format_uint.simps [of n])
qed

lemma dec_val_format_uint [simp]: "dec_val (format_uint n) = n"
proof (induction n rule: format_uint.induct)
  case (1 n)
  show ?case
  proof (cases "n < 10")
    case True
    then show ?thesis
      using dec_val_snoc [of "[]"] by (simp add: format_uint.simps [of n])
  next
    case False
    with 1 show ?thesis by (simp add: format_uint.simps [of n])
  qed
qed

lemma format_uint_inj [simp]: "format_uint m = format_uint n \<longleftrightarrow> m = n"
  by (metis dec_val_format_uint)

lemma format_uint_length: "n < 10 ^ Suc k \<Longrightarrow> length (format_uint n) \<le> Suc k"
proof (induction k arbitrary: n)
  case 0
  then show ?case by (simp add: format_uint.simps [of n])
next
  case (Suc k)
  then have "n div 10 < 10 ^ Suc k" by (simp add: less_mult_imp_div_less)
  with Suc.IH show ?case by (simp add: format_uint.simps [of n])
qed

lemma format_int_length64:
  assumes "- (2 ^ 63) \<le> i" "i \<le> 2 ^ 63"
  shows "length (format_int i) \<le> 20"
proof -
  have "nat \<bar>i\<bar> < 10 ^ Suc 18" using assms by simp
  then have "length (format_uint (nat \<bar>i\<bar>)) \<le> 19"
    using format_uint_length [of "nat \<bar>i\<bar>" 18] by simp
  then show ?thesis by (cases "i < 0") (simp_all add: format_int_def)
qed

text \<open>A digit run followed by a non-digit is determined by the whole text.\<close>

lemma digit_run_unique:
  assumes "list_all is_digit xs" "list_all is_digit ys"
    and "xs @ c # r = ys @ d # t" "\<not> is_digit c" "\<not> is_digit d"
  shows "xs = ys \<and> r = t"
  using assms
proof (induction xs arbitrary: ys)
  case Nil
  then show ?case by (cases ys) auto
next
  case (Cons x xs)
  then show ?case by (cases ys) auto
qed

lemma format_uint_sep:
  assumes "format_uint m @ c # r = format_uint n @ c # t" "\<not> is_digit c"
  shows "m = n \<and> r = t"
  using digit_run_unique [OF format_uint_digits format_uint_digits assms(1)] assms(2) by simp

text \<open>\<^verbatim>\<open>strconv.ParseUint(s, 10, bits)\<close> and \<^verbatim>\<open>strconv.ParseInt(s, 10, 64)\<close>.\<close>

datatype num_error = ErrSyntax | ErrRange

fun parse_uint_loop :: "nat \<Rightarrow> nat \<Rightarrow> bytes \<Rightarrow> num_error + nat" where
  "parse_uint_loop mx n [] = Inr n"
| "parse_uint_loop mx n (c # cs) =
     (if \<not> is_digit c then Inl ErrSyntax
      else if n * 10 + digit_val c > mx then Inl ErrRange
      else parse_uint_loop mx (n * 10 + digit_val c) cs)"

definition parse_uint :: "nat \<Rightarrow> bytes \<Rightarrow> num_error + nat" where
  "parse_uint bits s = (if s = [] then Inl ErrSyntax else parse_uint_loop (2 ^ bits - 1) 0 s)"

definition parse_int64 :: "bytes \<Rightarrow> num_error + int" where
  "parse_int64 s =
     (if s = [] then Inl ErrSyntax
      else let neg = (hd s = CHR ''-'');
               t = (if hd s = CHR ''+'' \<or> hd s = CHR ''-'' then tl s else s)
           in case parse_uint 64 t of
                Inl e \<Rightarrow> Inl e
              | Inr un \<Rightarrow>
                  if \<not> neg \<and> un \<ge> 2 ^ 63 then Inl ErrRange
                  else if neg \<and> un > 2 ^ 63 then Inl ErrRange
                  else Inr (if neg then - int un else int un))"

lemma parse_uint_loop_digits:
  "list_all is_digit ds \<Longrightarrow> foldl (\<lambda>v c. v * 10 + digit_val c) n ds \<le> mx \<Longrightarrow>
   parse_uint_loop mx n ds = Inr (foldl (\<lambda>v c. v * 10 + digit_val c) n ds)"
proof (induction ds arbitrary: n)
  case Nil
  then show ?case by simp
next
  case (Cons c cs)
  have mono: "v \<le> foldl (\<lambda>v c. v * 10 + digit_val c) v xs" for v :: nat and xs
  proof (induction xs arbitrary: v)
    case (Cons a xs)
    have "v \<le> v * 10 + digit_val a" by simp
    also note Cons [of "v * 10 + digit_val a"]
    finally show ?case by simp
  qed simp
  from mono [of "n * 10 + digit_val c" cs] Cons.prems(2)
  have "n * 10 + digit_val c \<le> mx" by simp
  with Cons show ?case by simp
qed

lemma parse_uint_format:
  assumes "n < 2 ^ bits"
  shows "parse_uint bits (format_uint n) = Inr n"
  using assms parse_uint_loop_digits [OF format_uint_digits, of 0 n "2 ^ bits - 1"]
  by (simp add: parse_uint_def flip: dec_val_def)

lemma parse_uint_bound:
  assumes "parse_uint bits s = Inr n"
  shows "n < 2 ^ bits"
proof -
  have "parse_uint_loop mx k s = Inr n \<Longrightarrow> k \<le> mx \<Longrightarrow> n \<le> mx" for mx k
    by (induction mx k s rule: parse_uint_loop.induct) (auto split: if_splits)
  from this [of "2 ^ bits - 1" 0] assms have "n \<le> 2 ^ bits - 1"
    by (simp add: parse_uint_def split: if_splits)
  moreover have "(0::nat) < 2 ^ bits" by simp
  ultimately show ?thesis by linarith
qed

lemma format_uint_hd: "hd (format_uint n) \<noteq> CHR ''+''" "hd (format_uint n) \<noteq> CHR ''-''"
proof -
  have "is_digit (hd (format_uint n))"
    using format_uint_digits [of n] format_uint_nonempty [of n]
    by (cases "format_uint n") auto
  then show "hd (format_uint n) \<noteq> CHR ''+''" "hd (format_uint n) \<noteq> CHR ''-''"
    by (auto simp: is_digit_def)
qed

lemma parse_int64_format:
  assumes "- (2 ^ 63) \<le> i" "i \<le> max_int64"
  shows "parse_int64 (format_int i) = Inr i"
proof (cases "i < 0")
  case True
  with assms have "nat (- i) < 2 ^ 64" "nat (- i) \<le> 2 ^ 63" by simp_all
  with True show ?thesis
    by (simp add: format_int_def parse_int64_def parse_uint_format)
next
  case False
  with assms have "nat i < 2 ^ 64" "nat i < 2 ^ 63" by (simp_all add: max_int64_def)
  with False show ?thesis
    by (simp add: format_int_def parse_int64_def parse_uint_format format_uint_hd)
qed

section \<open>Case mapping\<close>

text \<open>
  \<^verbatim>\<open>strings.ToUpper\<close> and \<^verbatim>\<open>strings.ToLower\<close> map runes; the sources compare the result
  with ASCII literals only. Outside ASCII four runes map into it: dotless i (U+0131) and
  long s (U+017F) upwards, dotted I (U+0130) and the Kelvin sign (U+212A) downwards. Every
  other byte at or above 0x80 stays outside ASCII, so it is left as it is.
\<close>

definition upper_byte :: "byte \<Rightarrow> byte" where
  "upper_byte c = (if 97 \<le> byte_val c \<and> byte_val c \<le> 122 then char_of (byte_val c - 32) else c)"

definition lower_byte :: "byte \<Rightarrow> byte" where
  "lower_byte c = (if 65 \<le> byte_val c \<and> byte_val c \<le> 90 then char_of (byte_val c + 32) else c)"

fun to_upper :: "bytes \<Rightarrow> bytes" where
  "to_upper [] = []"
| "to_upper (a # b # r) =
     (if a = CHR 0xC4 \<and> b = CHR 0xB1 then CHR ''I'' # to_upper r
      else if a = CHR 0xC5 \<and> b = CHR 0xBF then CHR ''S'' # to_upper r
      else upper_byte a # to_upper (b # r))"
| "to_upper [a] = [upper_byte a]"

fun to_lower :: "bytes \<Rightarrow> bytes" where
  "to_lower [] = []"
| "to_lower (a # r) =
     (if a = CHR 0xC4 \<and> take 1 r = [CHR 0xB0] then CHR ''i'' # to_lower (drop 1 r)
      else if a = CHR 0xE2 \<and> take 2 r = [CHR 0x84, CHR 0xAA] then CHR ''k'' # to_lower (drop 2 r)
      else lower_byte a # to_lower r)"

section \<open>Prefixes, search, join\<close>

definition has_prefix :: "bytes \<Rightarrow> bytes \<Rightarrow> bool" where
  "has_prefix s p \<longleftrightarrow> take (length p) s = p"

lemma has_prefix_append [simp]: "has_prefix (p @ s) p"
  by (simp add: has_prefix_def)

lemma has_prefixD: "has_prefix s p \<Longrightarrow> s = p @ drop (length p) s"
  by (metis append_take_drop_id has_prefix_def)

text \<open>\<^verbatim>\<open>strings.Index(s, sub)\<close>, \<^verbatim>\<open>None\<close> for -1.\<close>

fun str_index :: "bytes \<Rightarrow> bytes \<Rightarrow> nat option" where
  "str_index [] sub = (if sub = [] then Some 0 else None)"
| "str_index (c # cs) sub =
     (if has_prefix (c # cs) sub then Some 0 else map_option Suc (str_index cs sub))"

lemma str_index_Some:
  "str_index s sub = Some i \<Longrightarrow> i \<le> length s \<and> has_prefix (drop i s) sub"
proof (induction s arbitrary: i)
  case Nil
  then show ?case by (simp add: has_prefix_def split: if_splits)
next
  case (Cons c cs)
  then show ?case
    by (cases "has_prefix (c # cs) sub") (auto split: option.splits)
qed

lemma str_index_first:
  "str_index s sub = Some i \<Longrightarrow> j < i \<Longrightarrow> \<not> has_prefix (drop j s) sub"
proof (induction s arbitrary: i j)
  case Nil
  then show ?case by (simp split: if_splits)
next
  case (Cons c cs)
  then obtain i' where i': "str_index cs sub = Some i'" "i = Suc i'" "\<not> has_prefix (c # cs) sub"
    by (auto split: if_splits)
  with Cons show ?case by (cases j) auto
qed

lemma str_index_exists:
  "has_prefix (drop i s) sub \<Longrightarrow> i \<le> length s \<Longrightarrow> \<exists>j \<le> i. str_index s sub = Some j"
proof (induction s arbitrary: i)
  case Nil
  then show ?case by (simp add: has_prefix_def)
next
  case (Cons c cs)
  show ?case
  proof (cases "has_prefix (c # cs) sub")
    case False
    with Cons.prems obtain i' where "i = Suc i'" by (cases i) auto
    with Cons False obtain j where "j \<le> i'" "str_index cs sub = Some j" by force
    with False \<open>i = Suc i'\<close> show ?thesis by auto
  qed auto
qed

fun join :: "bytes \<Rightarrow> bytes list \<Rightarrow> bytes" where
  "join sep [] = []"
| "join sep [x] = x"
| "join sep (x # y # xs) = x @ sep @ join sep (y # xs)"

text \<open>\<^verbatim>\<open>sort.Strings\<close>.\<close>

abbreviation sort_strings :: "bytes list \<Rightarrow> bytes list" where
  "sort_strings \<equiv> sort"

section \<open>Lines and spaces\<close>

text \<open>\<^verbatim>\<open>strings.Split(s, "\n")\<close> and \<^verbatim>\<open>strings.TrimSpace\<close>, with every Unicode space in its UTF-8 encoding.\<close>

fun split_lines :: "bytes \<Rightarrow> bytes list" where
  "split_lines [] = [[]]"
| "split_lines (c # s) =
     (if c = CHR 0x0A then [] # split_lines s
      else case split_lines s of [] \<Rightarrow> [[c]] | l # ls \<Rightarrow> (c # l) # ls)"

definition space_runes :: "bytes list" where
  "space_runes =
     [[CHR 0x09], [CHR 0x0A], [CHR 0x0B], [CHR 0x0C], [CHR 0x0D], [CHR 0x20], [CHR 0xC2, CHR 0x85], [CHR 0xC2, CHR 0xA0],
      [CHR 0xE1, CHR 0x9A, CHR 0x80]] @
     map (\<lambda>i. [CHR 0xE2, CHR 0x80, char_of (128 + i)]) [0..<11] @
     [[CHR 0xE2, CHR 0x80, CHR 0xA8], [CHR 0xE2, CHR 0x80, CHR 0xA9], [CHR 0xE2, CHR 0x80, CHR 0xAF],
      [CHR 0xE2, CHR 0x81, CHR 0x9F], [CHR 0xE3, CHR 0x80, CHR 0x80]]"

fun strip_front :: "nat \<Rightarrow> bytes list \<Rightarrow> bytes \<Rightarrow> bytes" where
  "strip_front 0 runes s = s"
| "strip_front (Suc k) runes s =
     (case find (\<lambda>r. has_prefix s r) runes of None \<Rightarrow> s | Some r \<Rightarrow> strip_front k runes (drop (length r) s))"

definition trim_space :: "bytes \<Rightarrow> bytes" where
  "trim_space s = (let t = strip_front (length s) space_runes s in rev (strip_front (length t) (map rev space_runes) (rev t)))"

lemma split_lines_cons: "CHR 0x0A \<notin> set l \<Longrightarrow> split_lines (l @ CHR 0x0A # rest) = l # split_lines rest"
  by (induction l) auto

lemma split_lines_concat:
  "list_all (\<lambda>l. nl \<notin> set l) ls \<Longrightarrow> split_lines (concat (map (\<lambda>l. l @ [nl]) ls) @ rest) = ls @ split_lines rest"
  by (induction ls) (simp_all add: split_lines_cons)

lemma split_lines_nonempty: "split_lines s \<noteq> []"
  by (induction s) (auto split: list.splits)

lemma strip_front_none: "find (\<lambda>r. has_prefix s r) runes = None \<Longrightarrow> strip_front k runes s = s"
  by (cases k) simp_all

lemma no_space_prefix:
  assumes "s \<noteq> []" "is_digit (hd s)"
  shows "find (\<lambda>r. has_prefix s r) space_runes = None" "find (\<lambda>r. has_prefix s r) (map rev space_runes) = None"
proof -
  have "\<not> is_digit (hd r) \<and> \<not> is_digit (last r) \<and> r \<noteq> []" if "r \<in> set space_runes" for r
    using that by (auto simp: space_runes_def is_digit_def)
  moreover have "hd r = hd s" if "has_prefix s r" "r \<noteq> []" for r using that assms(1) by (cases s; cases r) (auto simp: has_prefix_def)
  ultimately show "find (\<lambda>r. has_prefix s r) space_runes = None" "find (\<lambda>r. has_prefix s r) (map rev space_runes) = None"
    using assms(2) by (fastforce simp: find_None_iff hd_rev)+
qed

lemma trim_digits: "trim_space (format_uint n) = format_uint n"
proof -
  let ?d = "format_uint n"
  have d: "?d \<noteq> []" "is_digit (hd ?d)" "is_digit (hd (rev ?d))"
    using format_uint_digits [of n] by (auto simp: list_all_iff hd_rev)
  have "strip_front k space_runes ?d = ?d" "strip_front k (map rev space_runes) (rev ?d) = rev ?d" for k
    using no_space_prefix [of ?d] no_space_prefix [of "rev ?d"] d by (simp_all add: strip_front_none)
  then show ?thesis by (simp add: trim_space_def)
qed

lemma digits_one_line: "CHR 0x0A \<notin> set (format_uint n)"
  using format_uint_digits [of n] by (auto simp: list_all_iff is_digit_def)

end
