(* ===== verification/Resp.thy ===== *)
theory Resp
  imports GoStd
begin

text \<open>
  The RESP array codec (\<^verbatim>\<open>internal/resp/resp.go\<close>, \<^verbatim>\<open>internal/resp/serialize.go\<close>): the parser
  of binlog contents and dump records, and the serializer of client commands. Indices into the
  input are naturals; the parsed lengths are \<^verbatim>\<open>int64\<close> values, and the one sum the code forms
  from them wraps as in Go. A slice expression or allocation outside its range is \<^term>\<open>Panic\<close>.
\<close>

datatype resp_error =
  MissingArrayPrefix | NegativeArrayLength | MissingBulkPrefix | NegativeBulkLength
| BulkTruncated | BulkMissingCRLF | TrailingBytes
| MissingInteger | InvalidInteger | IntegerOverflow | MissingCRLF

section \<open>The integer line\<close>

text \<open>The digit loop of \<^verbatim>\<open>parseIntLine\<close>: the value and index where it stops.\<close>

function parse_digits :: "bytes \<Rightarrow> nat \<Rightarrow> int \<Rightarrow> resp_error + int \<times> nat" where
  "parse_digits content i v =
     (if i < length content \<and> is_digit (content ! i)
      then let d = int (digit_val (content ! i))
           in if v > (max_int64 - d) div 10 then Inl IntegerOverflow
              else parse_digits content (Suc i) (v * 10 + d)
      else Inr (v, i))"
  by pat_completeness auto
termination
  by (relation "measure (\<lambda>(content, i, v). length content - i)") auto

declare parse_digits.simps [simp del]

definition parseIntLine :: "bytes \<Rightarrow> nat \<Rightarrow> resp_error + int \<times> nat" where
  "parseIntLine content start =
     (if start \<ge> length content then Inl MissingInteger
      else let neg = (content ! start = CHR ''-'');
               i = (if neg then Suc start else start)
           in if i \<ge> length content then Inl InvalidInteger
              else if \<not> is_digit (content ! i) then Inl InvalidInteger
              else case parse_digits content i 0 of
                     Inl e \<Rightarrow> Inl e
                   | Inr (v, j) \<Rightarrow>
                       if j + 1 \<ge> length content \<or> content ! j \<noteq> CHR 0x0D \<or> content ! (j + 1) \<noteq> CHR 0x0A
                       then Inl MissingCRLF
                       else Inr (if neg then - v else v, j + 2))"

section \<open>The array\<close>

text \<open>
  The loop over the bulk strings. The guard \<^verbatim>\<open>int64(len(content)-pos) < blen+2\<close> adds in
  \<^verbatim>\<open>int64\<close>; when it lets a length through that exceeds the input, the slice expression
  \<^verbatim>\<open>content[pos : pos+int(blen)]\<close> panics.
\<close>

function parse_bulks :: "bytes \<Rightarrow> int \<Rightarrow> int \<Rightarrow> nat \<Rightarrow> bytes list \<Rightarrow> (resp_error, bytes list \<times> nat) outcome" where
  "parse_bulks content i n pos argv =
     (if i < n then
        if pos \<ge> length content \<or> content ! pos \<noteq> CHR ''$'' then Error MissingBulkPrefix
        else case parseIntLine content (pos + 1) of
               Inl e \<Rightarrow> Error e
             | Inr (blen, p) \<Rightarrow>
                 if blen < 0 then Error NegativeBulkLength
                 else if int (length content) - int p < wrap64 (blen + 2) then Error BulkTruncated
                 else if int p + blen > int (length content) then Panic
                 else let q = p + nat blen
                      in if q + 1 \<ge> length content then Panic
                         else if content ! q \<noteq> CHR 0x0D \<or> content ! (q + 1) \<noteq> CHR 0x0A
                         then Error BulkMissingCRLF
                         else parse_bulks content (i + 1) n (q + 2) (argv @ [take (nat blen) (drop p content)])
      else Ok (argv, pos))"
  by pat_completeness auto
termination
  by (relation "measure (\<lambda>(content, i, n, pos, argv). nat (n - i))") auto

declare parse_bulks.simps [simp del]

text \<open>
  \<^verbatim>\<open>make([][]byte, 0, n)\<close> panics when \<^verbatim>\<open>n\<close> slice headers of 24 bytes exceed the 48-bit
  address space of the runtime's allocator.
\<close>

definition make_slices_ok :: "int \<Rightarrow> bool" where
  "make_slices_ok n \<longleftrightarrow> n * 24 \<le> 2 ^ 48"

definition ParseArray :: "bytes \<Rightarrow> (resp_error, bytes list) outcome" where
  "ParseArray content =
     (if content = [] \<or> content ! 0 \<noteq> CHR ''*'' then Error MissingArrayPrefix
      else case parseIntLine content 1 of
             Inl e \<Rightarrow> Error e
           | Inr (n, next) \<Rightarrow>
               if n < 0 then Error NegativeArrayLength
               else if \<not> make_slices_ok n then Panic
               else case parse_bulks content 0 n next [] of
                      Error e \<Rightarrow> Error e
                    | Panic \<Rightarrow> Panic
                    | Ok (argv, pos) \<Rightarrow>
                        if pos \<noteq> length content then Error TrailingBytes else Ok argv)"

section \<open>The serializer\<close>

fun serialize_bulks :: "bytes list \<Rightarrow> bytes" where
  "serialize_bulks [] = []"
| "serialize_bulks (arg # argv) =
     ''$'' @ format_int (int (length arg)) @ crlf @ arg @ crlf @ serialize_bulks argv"

definition SerializeArray :: "bytes list \<Rightarrow> bytes" where
  "SerializeArray argv = ''*'' @ format_int (int (length argv)) @ crlf @ serialize_bulks argv"

section \<open>Lemmas\<close>

lemma nth_at: "(pre @ c # rest) ! length pre = c"
  by simp

text \<open>The digit loop reads a digit run that ends in a non-digit.\<close>

lemma parse_digits_run:
  assumes "list_all is_digit ds" "\<not> is_digit c"
    and "foldl (\<lambda>v c. v * 10 + digit_val c) v ds \<le> nat max_int64"
  shows "parse_digits (pre @ ds @ c # rest) (length pre) (int v) =
     Inr (int (foldl (\<lambda>v c. v * 10 + digit_val c) v ds), length pre + length ds)"
  using assms
proof (induction ds arbitrary: pre v)
  case Nil
  then show ?case by (subst parse_digits.simps) simp
next
  case (Cons d ds)
  have mono: "x \<le> foldl (\<lambda>v c. v * 10 + digit_val c) x ys" for x :: nat and ys
  proof (induction ys arbitrary: x)
    case (Cons a ys)
    have "x \<le> x * 10 + digit_val a" by simp
    also note Cons [of "x * 10 + digit_val a"]
    finally show ?case by simp
  qed simp
  have "v * 10 + digit_val d \<le> nat max_int64"
    using mono [of "v * 10 + digit_val d" ds] Cons.prems(3) by simp
  then have "\<not> int v > (max_int64 - int (digit_val d)) div 10"
    by (simp add: max_int64_def)
  moreover have "parse_digits ((pre @ [d]) @ ds @ c # rest) (length (pre @ [d])) (int (v * 10 + digit_val d)) =
     Inr (int (foldl (\<lambda>v c. v * 10 + digit_val c) (v * 10 + digit_val d) ds), length (pre @ [d]) + length ds)"
    using Cons by (intro Cons.IH) auto
  ultimately show ?case
    using Cons.prems(1) by (subst parse_digits.simps) (simp add: Let_def add.commute)
qed

lemma parseIntLine_format:
  assumes "int n \<le> max_int64"
  shows "parseIntLine (pre @ format_uint n @ crlf @ rest) (length pre) =
     Inr (int n, length pre + length (format_uint n) + 2)"
proof -
  obtain d ds where d: "format_uint n = d # ds" "is_digit d"
    using format_uint_digits [of n] format_uint_nonempty [of n] by (cases "format_uint n") auto
  have nd: "\<not> is_digit (CHR 0x0D)" by (simp add: is_digit_def)
  have "foldl (\<lambda>v c. v * 10 + digit_val c) 0 (format_uint n) \<le> nat max_int64"
    using assms dec_val_format_uint [of n] by (simp add: dec_val_def)
  from parse_digits_run [OF format_uint_digits nd this, of pre "CHR 0x0A # rest"]
  have pd: "parse_digits (pre @ format_uint n @ crlf @ rest) (length pre) 0 =
      Inr (int n, length pre + length (format_uint n))"
    using dec_val_format_uint [of n] by (simp add: dec_val_def)
  have "d \<noteq> CHR ''-''" using d(2) by (auto simp: is_digit_def)
  with d pd show ?thesis
    by (simp add: parseIntLine_def Let_def nth_append)
qed

lemma format_int_length [simp]: "format_int (int n) = format_uint n"
  by (simp add: format_int_def)


lemma nth_append_Suc: "(pre @ c # d # rest) ! Suc (length pre) = d"
  by (simp add: nth_append)

text \<open>One round of the bulk loop over a serialized argument.\<close>

lemma parse_bulks_step:
  assumes "i < n" and "int (length arg) + 2 \<le> max_int64"
    and c: "content = pre @ ''$'' @ format_uint (length arg) @ crlf @ arg @ crlf @ rest"
  shows "parse_bulks content i n (length pre) argv =
     parse_bulks content (i + 1) n
       (length (pre @ ''$'' @ format_uint (length arg) @ crlf @ arg @ crlf)) (argv @ [arg])"
proof -
  let ?f = "format_uint (length arg)"
  let ?p = "length pre + 1 + length ?f + 2"
  have hd: "content ! length pre = CHR ''$''" and len: "length pre < length content"
    by (simp_all add: c)
  have "parseIntLine ((pre @ ''$'') @ ?f @ crlf @ arg @ crlf @ rest) (length (pre @ ''$'')) =
      Inr (int (length arg), length (pre @ ''$'') + length ?f + 2)"
    using assms(2) by (intro parseIntLine_format) simp
  then have il: "parseIntLine content (length pre + 1) = Inr (int (length arg), ?p)"
    by (simp add: c)
  have split: "content = (pre @ ''$'' @ ?f @ crlf) @ arg @ crlf @ rest"
    by (simp add: c)
  have plen: "?p = length (pre @ ''$'' @ ?f @ crlf)" by simp
  have dr: "drop ?p content = arg @ crlf @ rest"
    by (subst split) (rule drop_at, rule plen)
  have at: "content ! (?p + length arg) = CHR 0x0D" "content ! (?p + length arg + 1) = CHR 0x0A"
    using dr nth_drop [of ?p content "length arg"] nth_drop [of ?p content "length arg + 1"]
    by (simp_all add: c nth_append)
  have room: "?p + length arg + 2 \<le> length content" by (simp add: c)
  have wr: "wrap64 (int (length arg) + 2) = int (length arg) + 2"
    using assms(2) by (intro wrap64_id) simp_all
  show ?thesis
    using assms(1) hd len il wr room at dr
    by (subst parse_bulks.simps) (simp add: Let_def add.assoc)
qed

lemma parse_bulks_serialize:
  assumes "list_all (\<lambda>a. int (length a) + 2 \<le> max_int64) args"
    and "i + int (length args) = n"
  shows "parse_bulks (pre @ serialize_bulks args) i n (length pre) argv =
     Ok (argv @ args, length pre + length (serialize_bulks args))"
  using assms
proof (induction args arbitrary: pre i argv)
  case Nil
  then show ?case by (subst parse_bulks.simps) simp
next
  case (Cons a args)
  let ?hd = "''$'' @ format_uint (length a) @ crlf @ a @ crlf"
  have "parse_bulks (pre @ serialize_bulks (a # args)) i n (length pre) argv =
      parse_bulks (pre @ serialize_bulks (a # args)) (i + 1) n (length (pre @ ?hd)) (argv @ [a])"
    using Cons.prems
    by (intro parse_bulks_step [where rest = "serialize_bulks args"]) simp_all
  also have "\<dots> = parse_bulks ((pre @ ?hd) @ serialize_bulks args) (i + 1) n (length (pre @ ?hd)) (argv @ [a])"
    by simp
  also have "\<dots> = Ok ((argv @ [a]) @ args, length (pre @ ?hd) + length (serialize_bulks args))"
    using Cons.prems by (intro Cons.IH) auto
  finally show ?case by simp
qed

lemma parse_serialize:
  assumes "int (length argv) * 24 \<le> 2 ^ 48"
    and "list_all (\<lambda>a. int (length a) + 2 \<le> max_int64) argv"
  shows "ParseArray (SerializeArray argv) = Ok argv"
proof -
  let ?h = "''*'' @ format_uint (length argv) @ crlf"
  have "parseIntLine (''*'' @ format_uint (length argv) @ crlf @ serialize_bulks argv) (length ''*'') =
      Inr (int (length argv), length ''*'' + length (format_uint (length argv)) + 2)"
    using assms(1) by (intro parseIntLine_format) (simp add: max_int64_def)
  then have il: "parseIntLine (SerializeArray argv) 1 = Inr (int (length argv), length ?h)"
    by (simp add: SerializeArray_def)
  have "parse_bulks (?h @ serialize_bulks argv) 0 (int (length argv)) (length ?h) [] =
      Ok ([] @ argv, length ?h + length (serialize_bulks argv))"
    using assms(2) by (intro parse_bulks_serialize) auto
  then have "parse_bulks (SerializeArray argv) 0 (int (length argv)) (length ?h) [] =
      Ok (argv, length (SerializeArray argv))"
    by (simp add: SerializeArray_def)
  with il assms(1) show ?thesis
    by (simp add: ParseArray_def make_slices_ok_def) (simp add: SerializeArray_def)
qed

text \<open>
  C25 (round trip). Parsing the serialization of any argument vector that fits in memory gives
  the argument vector back: no argument byte is reinterpreted, whatever it is.
\<close>

theorem ParseArray_SerializeArray:
  assumes "int (length argv) * 24 \<le> 2 ^ 48"
    and "list_all (\<lambda>a. int (length a) + 2 \<le> max_int64) argv"
  shows "ParseArray (SerializeArray argv) = Ok argv"
  using assms by (rule parse_serialize)

theorem ParseArray_SerializeArray_witness:
  "ParseArray (SerializeArray [''SET'', ''k'', [CHR 0x0D, CHR 0x0A, CHR 0x00]]) =
     Ok [''SET'', ''k'', [CHR 0x0D, CHR 0x0A, CHR 0x00]]"
  by (rule ParseArray_SerializeArray) (simp_all add: max_int64_def)


section \<open>What the parser accepts\<close>

text \<open>
  A well-formed array text: a length line, then as many bulk strings as it announces, each a
  length line that announces exactly the bytes that follow. The lines need not be canonical
  (leading zeros are accepted), so the header texts are part of the description.
\<close>

definition int_line :: "bytes \<Rightarrow> nat \<Rightarrow> bool" where
  "int_line h n \<longleftrightarrow> (\<exists>sg ds. h = sg @ ds @ crlf \<and> (sg = [] \<or> sg = ''-'' \<and> n = 0) \<and>
     ds \<noteq> [] \<and> list_all is_digit ds \<and> dec_val ds = n)"

fun bulks_text :: "(bytes \<times> bytes) list \<Rightarrow> bytes" where
  "bulks_text [] = []"
| "bulks_text ((h, a) # r) = ''$'' @ h @ a @ crlf @ bulks_text r"

lemma bulks_text_append [simp]: "bulks_text (xs @ ys) = bulks_text xs @ bulks_text ys"
  by (induction xs rule: bulks_text.induct) auto

lemma parse_digits_Inr:
  "parse_digits content i v = Inr (w, j) \<Longrightarrow>
   i \<le> j \<and> (i \<le> length content \<longrightarrow> j \<le> length content) \<and>
   (\<forall>k. i \<le> k \<and> k < j \<longrightarrow> is_digit (content ! k)) \<and>
   w = int (foldl (\<lambda>v c. v * 10 + digit_val c) (nat v) (take (j - i) (drop i content)))"
  if "0 \<le> v"
  using that
proof (induction content i v rule: parse_digits.induct)
  case (1 content i v)
  show ?case
  proof (cases "i < length content \<and> is_digit (content ! i)")
    case False
    with 1 show ?thesis by (auto simp: parse_digits.simps [of content i v])
  next
    case True
    let ?d = "int (digit_val (content ! i))"
    from True "1.prems" have ng: "\<not> v > (max_int64 - ?d) div 10"
      and rec: "parse_digits content (Suc i) (v * 10 + ?d) = Inr (w, j)"
      by (auto simp: parse_digits.simps [of content i v] Let_def split: if_splits)
    from "1.IH" [OF True refl ng rec] "1.prems"(2)
    have ih: "Suc i \<le> j" "j \<le> length content" "\<forall>k. Suc i \<le> k \<and> k < j \<longrightarrow> is_digit (content ! k)"
      "w = int (foldl (\<lambda>v c. v * 10 + digit_val c) (nat (v * 10 + ?d)) (take (j - Suc i) (drop (Suc i) content)))"
      using True by auto
    have tk: "take (j - i) (drop i content) = content ! i # take (j - Suc i) (drop (Suc i) content)"
      using True ih(1) by (metis Cons_nth_drop_Suc Suc_diff_Suc Suc_le_eq take_Suc_Cons)
    have "nat (v * 10 + ?d) = nat v * 10 + digit_val (content ! i)"
      using "1.prems"(2) by (simp add: nat_add_distrib nat_mult_distrib)
    with ih tk True show ?thesis
      by (auto simp: le_Suc_eq Suc_le_eq) (metis le_neq_implies_less)
  qed
qed

lemma slice_split:
  assumes "i \<le> j" "j \<le> k"
  shows "take (k - i) (drop i xs) = take (j - i) (drop i xs) @ take (k - j) (drop j xs)"
proof -
  have "k - i = (j - i) + (k - j)" using assms by simp
  then have "take (k - i) (drop i xs) = take (j - i) (drop i xs) @ take (k - j) (drop (j - i) (drop i xs))"
    by (simp only: take_add)
  with assms(1) show ?thesis by (simp add: drop_drop)
qed

lemma slice_two: "Suc j < length xs \<Longrightarrow> take 2 (drop j xs) = [xs ! j, xs ! Suc j]"
  by (metis Cons_nth_drop_Suc Suc_lessD numeral_2_eq_2 take0 take_Suc_Cons)

lemma parseIntLine_sound:
  assumes "parseIntLine content start = Inr (v, p)" "0 \<le> v"
  shows "start < p \<and> p \<le> length content \<and> int_line (take (p - start) (drop start content)) (nat v)"
proof -
  define neg where "neg \<longleftrightarrow> content ! start = CHR ''-''"
  define i where "i = (if neg then Suc start else start)"
  from assms(1) obtain w j where
    i: "start < length content" "i < length content" "is_digit (content ! i)" and
    pd: "parse_digits content i 0 = Inr (w, j)" and
    cr: "Suc j < length content" "content ! j = CHR 0x0D" "content ! Suc j = CHR 0x0A" and
    p: "p = j + 2" and v: "v = (if neg then - w else w)"
    by (auto simp: parseIntLine_def Let_def neg_def i_def split: if_splits sum.splits)
  from parse_digits_Inr [OF _ pd] i(2) have
    j: "i \<le> j" "\<forall>k. i \<le> k \<and> k < j \<longrightarrow> is_digit (content ! k)" and
    w: "w = int (dec_val (take (j - i) (drop i content)))"
    by (auto simp: dec_val_def)
  define ds where "ds = take (j - i) (drop i content)"
  have "i \<noteq> j" using i(3) cr(2) by (auto simp: is_digit_def)
  with j(1) have "i < j" by simp
  have digs: "list_all is_digit ds"
    using j(2) cr(1) by (auto simp: ds_def list_all_length)
  have ne: "ds \<noteq> []" using \<open>i < j\<close> i(2) by (simp add: ds_def)
  have "take (p - start) (drop start content) =
      take (i - start) (drop start content) @ ds @ take 2 (drop j content)"
    using slice_split [of start i p content] slice_split [of i j p content] \<open>i < j\<close>
    by (auto simp: ds_def p i_def split: if_splits)
  moreover have "take 2 (drop j content) = crlf"
    using cr by (simp add: slice_two)
  moreover have "take (i - start) (drop start content) = (if neg then ''-'' else [])"
    using i(1) by (auto simp: i_def neg_def take_Suc_conv_app_nth hd_drop_conv_nth)
  moreover have "neg \<Longrightarrow> nat v = 0" using assms(2) v w by simp
  moreover have "dec_val ds = nat v"
    using assms(2) v w by (cases neg) (auto simp: ds_def)
  ultimately have "int_line (take (p - start) (drop start content)) (nat v)"
    unfolding int_line_def using digs ne
    by (intro exI [of _ "if neg then ''-'' else []"] exI [of _ ds]) auto
  with cr(1) \<open>i < j\<close> show ?thesis
    by (auto simp: p i_def split: if_splits)
qed

lemma parse_bulks_sound:
  "parse_bulks content i n pos argv = Ok (args, q) \<Longrightarrow> pos \<le> length content \<Longrightarrow>
   \<exists>xs. length xs = nat (n - i) \<and> args = argv @ map snd xs \<and> pos \<le> q \<and> q \<le> length content \<and>
     take (q - pos) (drop pos content) = bulks_text xs \<and>
     list_all (\<lambda>(h, a). int_line h (length a)) xs"
proof (induction content i n pos argv rule: parse_bulks.induct)
  case (1 content i n pos argv)
  show ?case
  proof (cases "i < n")
    case False
    with 1 show ?thesis
      by (intro exI [of _ "[]"]) (auto simp: parse_bulks.simps [of content i n pos argv])
  next
    case True
    from True "1.prems" obtain blen p where
      hd: "pos < length content" "content ! pos = CHR ''$''" and
      il: "parseIntLine content (pos + 1) = Inr (blen, p)" and
      b0: "\<not> blen < 0" and g1: "\<not> int (length content) - int p < wrap64 (blen + 2)" and
      g2: "\<not> int p + blen > int (length content)" and
      g3: "\<not> p + nat blen + 1 \<ge> length content" and
      cr: "\<not> (content ! (p + nat blen) \<noteq> CHR 0x0D \<or> content ! (p + nat blen + 1) \<noteq> CHR 0x0A)" and
      rec: "parse_bulks content (i + 1) n (p + nat blen + 2) (argv @ [take (nat blen) (drop p content)])
         = Ok (args, q)"
      by (auto simp: parse_bulks.simps [of content i n pos argv] Let_def not_le
          split: if_splits sum.splits)
    let ?a = "take (nat blen) (drop p content)" and ?e = "p + nat blen"
    have hd': "\<not> (length content \<le> pos \<or> content ! pos \<noteq> CHR ''$'')" using hd by simp
    from "1.IH" [OF True hd' il refl b0 g1 g2 refl g3 cr rec] g3
    obtain xs where xs: "length xs = nat (n - (i + 1))" "args = (argv @ [?a]) @ map snd xs"
      "?e + 2 \<le> q" "q \<le> length content" "take (q - (?e + 2)) (drop (?e + 2) content) = bulks_text xs"
      "list_all (\<lambda>(h, a). int_line h (length a)) xs"
      by auto
    from parseIntLine_sound [OF il] b0
    have p: "pos + 1 < p" "p \<le> length content"
      and h: "int_line (take (p - (pos + 1)) (drop (pos + 1) content)) (nat blen)"
      by auto
    let ?h = "take (p - (pos + 1)) (drop (pos + 1) content)"
    have la: "length ?a = nat blen" using g3 by simp
    have "take (q - pos) (drop pos content) = [CHR ''$''] @ ?h @ ?a @ crlf @ bulks_text xs"
    proof -
      have "take 1 (drop pos content) = [CHR ''$'']"
        using hd by (simp add: take_Suc_conv_app_nth hd_drop_conv_nth)
      moreover have "take 2 (drop ?e content) = crlf"
        using slice_two [of ?e content] g3 cr by simp
      ultimately show ?thesis
        using slice_split [of pos "pos + 1" q content] slice_split [of "pos + 1" p q content]
          slice_split [of p ?e q content] slice_split [of ?e "?e + 2" q content] xs(3,5) p
        by simp
    qed
    with xs p h la True show ?thesis
      by (intro exI [of _ "(?h, ?a) # xs"]) auto
  qed
qed

lemma ParseArray_shape:
  assumes "ParseArray content = Ok argv"
  shows "\<exists>h xs. content = ''*'' @ h @ bulks_text xs \<and> map snd xs = argv \<and>
     int_line h (length argv) \<and> list_all (\<lambda>(h, a). int_line h (length a)) xs"
proof -
  from assms obtain n nx where c: "content \<noteq> []" "content ! 0 = CHR ''*''"
    and il: "parseIntLine content 1 = Inr (n, nx)" and n: "0 \<le> n"
    and pb: "parse_bulks content 0 n nx [] = Ok (argv, length content)"
    by (auto simp: ParseArray_def split: if_splits sum.splits outcome.splits)
  from parseIntLine_sound [OF il n] have nx: "1 < nx" "nx \<le> length content"
    and h: "int_line (take (nx - 1) (drop 1 content)) (nat n)" by auto
  from parse_bulks_sound [OF pb nx(2)] obtain xs where xs: "length xs = nat n" "argv = map snd xs"
    "take (length content - nx) (drop nx content) = bulks_text xs"
    "list_all (\<lambda>(h, a). int_line h (length a)) xs" by auto
  have "content = ''*'' @ take (nx - 1) (drop 1 content) @ drop nx content"
    using c nx(1) by (cases content; cases nx) simp_all
  with xs h show ?thesis
    by (intro exI [of _ "take (nx - 1) (drop 1 content)"] exI [of _ xs]) simp
qed

text \<open>
  C26 (lossless parsing). Whatever the parser accepts is an array text of exactly the arguments
  it returns: the length line announces their number, every bulk line the number of bytes that
  follow it, and no byte of the input is left over or used twice.
\<close>

theorem ParseArray_sound:
  assumes "ParseArray content = Ok argv"
  shows "\<exists>h xs. content = ''*'' @ h @ bulks_text xs \<and> map snd xs = argv \<and>
     int_line h (length argv) \<and> list_all (\<lambda>(h, a). int_line h (length a)) xs"
  using ParseArray_shape [OF assms] .

theorem ParseArray_sound_witness:
  "\<exists>h xs. ''*01'' @ crlf @ ''$1'' @ crlf @ ''k'' @ crlf = ''*'' @ h @ bulks_text xs \<and>
     map snd xs = [''k''] \<and> int_line h (length [''k'']) \<and>
     list_all (\<lambda>(h, a). int_line h (length a)) xs"
proof -
  have "ParseArray (''*01'' @ crlf @ ''$1'' @ crlf @ ''k'' @ crlf) = Ok [''k'']"
    by code_simp
  then show ?thesis by (rule ParseArray_sound)
qed

section \<open>Panics\<close>

lemma parse_bulks_Panic:
  "parse_bulks content i n pos argv = Panic \<Longrightarrow>
   \<exists>k blen p. parseIntLine content k = Inr (blen, p) \<and> blen > max_int64 - 2"
proof (induction content i n pos argv rule: parse_bulks.induct)
  case (1 content i n pos argv)
  then have lt: "i < n" and hd: "\<not> (length content \<le> pos \<or> content ! pos \<noteq> CHR ''$'')"
    by (auto simp: parse_bulks.simps [of content i n pos argv] split: if_splits)
  with "1.prems" obtain blen p where il: "parseIntLine content (pos + 1) = Inr (blen, p)"
    by (auto simp: parse_bulks.simps [of content i n pos argv] split: if_splits sum.splits)
  show ?case
  proof (cases "blen > max_int64 - 2")
    case True
    with il show ?thesis by blast
  next
    case False
    then have wr: "0 \<le> blen \<Longrightarrow> wrap64 (blen + 2) = blen + 2" by (intro wrap64_id) simp_all
    from "1.prems" lt hd il
    have b0: "\<not> blen < 0" and g1: "\<not> int (length content) - int p < wrap64 (blen + 2)"
      by (auto simp: parse_bulks.simps [of content i n pos argv] split: if_splits)
    from b0 g1 wr have g2: "\<not> int p + blen > int (length content)"
      and g3: "\<not> p + nat blen + 1 \<ge> length content" by auto
    from "1.prems" lt hd il b0 g1 g2 g3
    have cr: "\<not> (content ! (p + nat blen) \<noteq> CHR 0x0D \<or> content ! (p + nat blen + 1) \<noteq> CHR 0x0A)"
      and rec: "parse_bulks content (i + 1) n (p + nat blen + 2) (argv @ [take (nat blen) (drop p content)]) = Panic"
      by (auto simp: parse_bulks.simps [of content i n pos argv] Let_def split: if_splits)
    from "1.IH" [OF lt hd il refl b0 g1 g2 refl g3 cr rec] show ?thesis .
  qed
qed

text \<open>
  Panics are confined. The parser panics on no input except one that announces an array
  too large to allocate, or a bulk length within two of the largest \<^verbatim>\<open>int64\<close>; every other
  malformed input is an error value.
\<close>

theorem ParseArray_Panic_only:
  assumes "ParseArray content = Panic"
  shows "(\<exists>n nx. parseIntLine content 1 = Inr (n, nx) \<and> n * 24 > 2 ^ 48) \<or>
     (\<exists>k blen p. parseIntLine content k = Inr (blen, p) \<and> blen > max_int64 - 2)"
  using assms parse_bulks_Panic
  by (fastforce simp: ParseArray_def make_slices_ok_def split: if_splits sum.splits outcome.splits)

theorem ParseArray_Panic_only_witness:
  "(\<exists>n nx. parseIntLine (''*9223372036854775807'' @ crlf) 1 = Inr (n, nx) \<and> n * 24 > 2 ^ 48) \<or>
   (\<exists>k blen p. parseIntLine (''*9223372036854775807'' @ crlf) k = Inr (blen, p) \<and> blen > max_int64 - 2)"
proof -
  have "ParseArray (''*9223372036854775807'' @ crlf) = Panic" by code_simp
  then show ?thesis by (rule ParseArray_Panic_only)
qed

text \<open>
  The length guard can be bypassed. A bulk header that announces the largest
  \<^verbatim>\<open>int64\<close> makes the sum in the truncation guard wrap to a negative number, so the guard accepts a
  payload that is not there and the slice expression panics instead of reporting
  \<^term>\<open>BulkTruncated\<close>; three less and the same text is reported as truncated.
\<close>

theorem ParseArray_length_guard_bypass:
  "ParseArray (''*1'' @ crlf @ ''$9223372036854775807'' @ crlf) = Panic \<and>
   ParseArray (''*1'' @ crlf @ ''$9223372036854775804'' @ crlf) = Error BulkTruncated"
  by (rule conjI; code_simp)

end
