(* ===== verification/Binlog.thy ===== *)
theory Binlog
  imports Resp
begin

text \<open>
  Binlog entries (\<^verbatim>\<open>internal/binlog/item.go\<close>, \<^verbatim>\<open>internal/binlog/pksetexat.go\<close>) and the data
  type of a command (\<^verbatim>\<open>internal/event/command_type.go\<close>): the 34-byte header of an entry, the
  rewriting of \<^verbatim>\<open>pksetexat\<close> into \<^verbatim>\<open>setex\<close>, and the classification of commands by name.
\<close>

section \<open>Entries\<close>

definition TypeFirst :: "16 word" where
  "TypeFirst = 1"

record Item =
  ItemType :: "16 word"
  ExecTime :: "32 word"
  TermID :: "32 word"
  LogicID :: "64 word"
  ItemFilenum :: "32 word"
  ItemOffset :: "64 word"
  Content :: bytes

datatype binlog_error = TooShort | UnexpectedType "16 word" | ContentLengthMismatch "32 word" nat

definition headerSize :: nat where
  "headerSize = 34"

definition DecodeTypeFirst :: "bytes \<Rightarrow> binlog_error + Item" where
  "DecodeTypeFirst binlog =
     (if length binlog < headerSize then Inl TooShort
      else let t = get_u16 binlog
           in if t \<noteq> TypeFirst then Inl (UnexpectedType t)
              else let execTime = get_u32 (drop 2 binlog);
                       termID = get_u32 (drop 6 binlog);
                       logicID = get_u64 (drop 10 binlog);
                       filenum = get_u32 (drop 18 binlog);
                       offset = get_u64 (drop 22 binlog);
                       contentLen = get_u32 (drop 30 binlog)
                   in if length binlog - headerSize \<noteq> unat contentLen
                      then Inl (ContentLengthMismatch contentLen (length binlog - headerSize))
                      else Inr \<lparr>ItemType = t, ExecTime = execTime, TermID = termID, LogicID = logicID,
                                ItemFilenum = filenum, ItemOffset = offset,
                                Content = drop headerSize binlog\<rparr>)"

text \<open>The master's layout of an entry, the specification the decoder is checked against.\<close>

definition item_bytes :: "Item \<Rightarrow> bytes" where
  "item_bytes it =
     put_u16 (ItemType it) @ put_u32 (ExecTime it) @ put_u32 (TermID it) @ put_u64 (LogicID it) @
     put_u32 (ItemFilenum it) @ put_u64 (ItemOffset it) @ put_u32 (of_nat (length (Content it))) @
     Content it"

lemma DecodeTypeFirst_item_bytes:
  assumes "ItemType it = TypeFirst" "length (Content it) < 2 ^ 32"
  shows "DecodeTypeFirst (item_bytes it) = Inr it"
  using assms
  by (simp add: DecodeTypeFirst_def item_bytes_def headerSize_def Let_def codec_simps unat_of_nat)

lemma header_fields:
  assumes "34 \<le> length b"
  shows "b = put_u16 (get_u16 b) @ put_u32 (get_u32 (drop 2 b)) @ put_u32 (get_u32 (drop 6 b)) @
     put_u64 (get_u64 (drop 10 b)) @ put_u32 (get_u32 (drop 18 b)) @ put_u64 (get_u64 (drop 22 b)) @
     put_u32 (get_u32 (drop 30 b)) @ drop 34 b"
  using assms take_drop_join [of 4 30 b] take_drop_join [of 8 22 b] take_drop_join [of 4 18 b]
    take_drop_join [of 8 10 b] take_drop_join [of 4 6 b] take_drop_join [of 4 2 b]
  by (simp add: put_get)

text \<open>
  C27 (entry codec). The decoder accepts a byte string exactly when it is the 34-byte header
  layout of an entry of the first type with its content length, and returns that entry: every
  field is recovered, and nothing else is accepted.
\<close>

theorem DecodeTypeFirst_iff:
  "DecodeTypeFirst b = Inr it \<longleftrightarrow>
     b = item_bytes it \<and> ItemType it = TypeFirst \<and> length (Content it) < 2 ^ 32"
proof
  assume d: "DecodeTypeFirst b = Inr it"
  then have len: "34 \<le> length b" and t: "get_u16 b = TypeFirst"
    and cl: "length b - 34 = unat (get_u32 (drop 30 b))"
    and it: "it = \<lparr>ItemType = get_u16 b, ExecTime = get_u32 (drop 2 b), TermID = get_u32 (drop 6 b),
      LogicID = get_u64 (drop 10 b), ItemFilenum = get_u32 (drop 18 b),
      ItemOffset = get_u64 (drop 22 b), Content = drop 34 b\<rparr>"
    by (auto simp: DecodeTypeFirst_def headerSize_def Let_def split: if_splits)
  from cl have "length (drop 34 b) < 2 ^ 32"
    using unsigned_less [of "get_u32 (drop 30 b)", where 'a = nat] by simp
  moreover from cl have "of_nat (length (drop 34 b)) = get_u32 (drop 30 b)" by simp
  ultimately show "b = item_bytes it \<and> ItemType it = TypeFirst \<and> length (Content it) < 2 ^ 32"
    using header_fields [OF len] t by (simp add: it item_bytes_def)
next
  assume "b = item_bytes it \<and> ItemType it = TypeFirst \<and> length (Content it) < 2 ^ 32"
  then show "DecodeTypeFirst b = Inr it" by (simp add: DecodeTypeFirst_item_bytes)
qed

section \<open>Command data types\<close>

definition CommandDataType :: "bytes \<Rightarrow> bytes" where
  "CommandDataType cmd =
     (let op = to_lower cmd
      in if op \<in> set [''set'', ''setex'', ''psetex'', ''setnx'', ''append'', ''incr'', ''decr'', ''mset'',
                       ''msetnx'', ''incrby'', ''decrby'', ''getset''] then ''string''
         else if op \<in> set [''hset'', ''hmset'', ''hdel'', ''hincrby'', ''hincrbyfloat''] then ''hash''
         else if op \<in> set [''lpush'', ''rpush'', ''lpop'', ''rpop'', ''ltrim'', ''lset'', ''linsert'',
                            ''rpoplpush''] then ''list''
         else if op \<in> set [''sadd'', ''srem'', ''spop'', ''sinterstore'', ''sunionstore'', ''sdiffstore'']
           then ''set''
         else if op \<in> set [''zadd'', ''zrem'', ''zincrby'', ''zremrangebyrank'', ''zremrangebyscore'']
           then ''zset''
         else ''unknown'')"

section \<open>Rewriting pksetexat\<close>

definition MaybeTransformPksetexatRawRESP :: "bytes list \<Rightarrow> 64 word \<Rightarrow> bytes \<Rightarrow> bytes" where
  "MaybeTransformPksetexatRawRESP argv nowUnixSec rawRESP =
     (if length argv < 4 then rawRESP
      else if argv ! 0 \<noteq> ''pksetexat'' then rawRESP
      else case parse_int64 (argv ! 2) of
             Inl _ \<Rightarrow> rawRESP
           | Inr expireAt \<Rightarrow>
               let ttl = wrap64 (expireAt - sint nowUnixSec)
               in SerializeArray [''setex'', argv ! 1, format_int ttl, argv ! 3])"

text \<open>
  Pksetexat. An entry \<^verbatim>\<open>pksetexat key t value ...\<close> with a decimal timestamp becomes the
  array \<^verbatim>\<open>setex key ttl value\<close>: parsing it back gives the same key and value bytes and a
  decimal that reads as the 64-bit difference of the timestamp and the clock.
\<close>

theorem pksetexat_becomes_setex:
  assumes "length argv \<ge> 4" "argv ! 0 = ''pksetexat''" "parse_int64 (argv ! 2) = Inr t"
    and "int (length (argv ! 1)) + 2 \<le> max_int64" "int (length (argv ! 3)) + 2 \<le> max_int64"
  shows "\<exists>d. ParseArray (MaybeTransformPksetexatRawRESP argv now raw) = Ok [''setex'', argv ! 1, d, argv ! 3] \<and>
     parse_int64 d = Inr (wrap64 (t - sint now))"
proof -
  let ?ttl = "wrap64 (t - sint now)"
  have r: "- (2 ^ 63) \<le> ?ttl" "?ttl \<le> max_int64" using wrap64_range by auto
  have "length (format_int ?ttl) \<le> 20"
    using r by (intro format_int_length64) (simp_all add: max_int64_def)
  then have "list_all (\<lambda>a. int (length a) + 2 \<le> max_int64) [''setex'', argv ! 1, format_int ?ttl, argv ! 3]"
    using assms(4,5) by (simp add: max_int64_def)
  from parse_serialize [OF _ this] parse_int64_format [OF r] assms(1-3)
  show ?thesis
    by (intro exI [of _ "format_int ?ttl"]) (simp add: MaybeTransformPksetexatRawRESP_def)
qed

theorem pksetexat_becomes_setex_witness:
  "\<exists>d. ParseArray (MaybeTransformPksetexatRawRESP [''pksetexat'', ''k'', ''1700000060'', ''v''] 1700000000 [])
       = Ok [''setex'', [''pksetexat'', ''k'', ''1700000060'', ''v''] ! 1, d,
             [''pksetexat'', ''k'', ''1700000060'', ''v''] ! 3] \<and>
     parse_int64 d = Inr (wrap64 (1700000060 - sint (1700000000 :: 64 word)))"
proof (rule pksetexat_becomes_setex)
  show "parse_int64 ([''pksetexat'', ''k'', ''1700000060'', ''v''] ! 2) = Inr 1700000060"
    by (simp add: parse_int64_def parse_uint_def is_digit_def digit_val_def)
qed (simp_all add: max_int64_def)

end
