(* ===== verification/Position.thy ===== *)
theory Position
  imports Prelude
begin

text \<open>
  Binlog positions (\<^verbatim>\<open>internal/envelope/position.go\<close>) and the second comparison of them in
  \<^verbatim>\<open>internal/replica/handshake.go\<close>. Positions are ordered by file number, then by byte offset,
  as unsigned machine integers; the type gets the library's linear order, so that "sorted" and
  "maximum" of positions are the library's notions.
\<close>

record position =
  Filenum :: "32 word"
  Offset :: "64 word"

definition After :: "position \<Rightarrow> position \<Rightarrow> bool" where
  "After a b \<longleftrightarrow> Filenum a > Filenum b \<or> (Filenum a = Filenum b \<and> Offset a > Offset b)"

definition IsZero :: "position \<Rightarrow> bool" where
  "IsZero a \<longleftrightarrow> Filenum a = 0 \<and> Offset a = 0"

definition offsetAfter :: "position \<Rightarrow> position \<Rightarrow> bool" where
  "offsetAfter a b \<longleftrightarrow> Filenum a > Filenum b \<or> (Filenum a = Filenum b \<and> Offset a > Offset b)"

definition zero_pos :: position where
  "zero_pos = \<lparr>Filenum = 0, Offset = 0\<rparr>"

section \<open>The order of positions\<close>

instantiation position_ext :: (linorder) linorder
begin

definition less_eq_position_ext :: "'a position_scheme \<Rightarrow> 'a position_scheme \<Rightarrow> bool" where
  "less_eq_position_ext a b \<longleftrightarrow>
     Filenum a < Filenum b \<or> (Filenum a = Filenum b \<and>
       (Offset a < Offset b \<or> (Offset a = Offset b \<and> position.more a \<le> position.more b)))"

definition less_position_ext :: "'a position_scheme \<Rightarrow> 'a position_scheme \<Rightarrow> bool" where
  "less_position_ext a b \<longleftrightarrow>
     Filenum a < Filenum b \<or> (Filenum a = Filenum b \<and>
       (Offset a < Offset b \<or> (Offset a = Offset b \<and> position.more a < position.more b)))"

instance
  by standard (auto simp: less_eq_position_ext_def less_position_ext_def intro: position.equality)

end

lemma IsZero_iff [simp]: "IsZero a \<longleftrightarrow> a = zero_pos"
  by (auto simp: IsZero_def zero_pos_def intro: position.equality)

lemma zero_pos_least [simp]: "zero_pos \<le> a"
  by (auto simp: zero_pos_def less_eq_position_ext_def word_less_nat_alt unat_gt_0)

text \<open>
  What a comparison of positions promises its clients: it is the strict order, so it is
  irreflexive, transitive and decides any two distinct positions.
\<close>

locale position_test =
  fixes after :: "position \<Rightarrow> position \<Rightarrow> bool"
  assumes after_iff: "after a b \<longleftrightarrow> b < a"
begin

lemma after_irrefl: "\<not> after a a"
  by (simp add: after_iff)

lemma after_trans: "after a b \<Longrightarrow> after b c \<Longrightarrow> after a c"
  by (simp add: after_iff)

lemma after_total: "a \<noteq> b \<Longrightarrow> after a b \<or> after b a"
  by (auto simp: after_iff)

lemma after_zero: "after a zero_pos \<longleftrightarrow> a \<noteq> zero_pos"
  by (simp add: after_iff order.strict_iff_order) metis

end

interpretation pos_after: position_test After
  by unfold_locales (auto simp: After_def less_position_ext_def)

interpretation pos_offset: position_test offsetAfter
  by unfold_locales (auto simp: offsetAfter_def less_position_ext_def)

lemma offsetAfter_eq_After: "offsetAfter = After"
  by (intro ext) (simp add: pos_after.after_iff pos_offset.after_iff)

end
