(* ===== verification/GoEnc.thy ===== *)
theory GoEnc
  imports GoStd
begin

text \<open>
  The two encodings of Go's standard library that the envelope uses: UTF-8 validity
  (\<^verbatim>\<open>utf8.Valid\<close>) and the padded standard alphabet of \<^verbatim>\<open>encoding/base64\<close>.
\<close>

section \<open>UTF-8 validity\<close>

text \<open>Continuation count and range of the second byte, by leading byte.\<close>

definition utf8_head :: "nat \<Rightarrow> (nat \<times> nat \<times> nat) option" where
  "utf8_head x =
     (if 0xC2 \<le> x \<and> x \<le> 0xDF then Some (1, 0x80, 0xBF)
      else if x = 0xE0 then Some (2, 0xA0, 0xBF)
      else if x = 0xED then Some (2, 0x80, 0x9F)
      else if 0xE1 \<le> x \<and> x \<le> 0xEF then Some (2, 0x80, 0xBF)
      else if x = 0xF0 then Some (3, 0x90, 0xBF)
      else if 0xF1 \<le> x \<and> x \<le> 0xF3 then Some (3, 0x80, 0xBF)
      else if x = 0xF4 then Some (3, 0x80, 0x8F)
      else None)"

definition utf8_cont :: "byte \<Rightarrow> bool" where
  "utf8_cont c \<longleftrightarrow> 0x80 \<le> byte_val c \<and> byte_val c \<le> 0xBF"

function utf8_valid :: "bytes \<Rightarrow> bool" where
  "utf8_valid [] = True"
| "utf8_valid (a # r) =
     (if byte_val a < 0x80 then utf8_valid r
      else case utf8_head (byte_val a) of
             None \<Rightarrow> False
           | Some (n, lo, hi) \<Rightarrow>
               n \<le> length r \<and> lo \<le> byte_val (r ! 0) \<and> byte_val (r ! 0) \<le> hi \<and>
               list_all utf8_cont (take (n - 1) (drop 1 r)) \<and> utf8_valid (drop n r))"
  by pat_completeness auto
termination
  by (relation "measure length") auto

lemma utf8_valid_ascii: "list_all (\<lambda>c. byte_val c < 128) s \<Longrightarrow> utf8_valid s"
  by (induction s) auto

section \<open>Base64\<close>

text \<open>The alphabet \<^verbatim>\<open>A-Z a-z 0-9 + /\<close>.\<close>

definition b64_char :: "nat \<Rightarrow> byte" where
  "b64_char n =
     (if n < 26 then char_of (65 + n)
      else if n < 52 then char_of (71 + n)
      else if n < 62 then char_of (n - 4)
      else if n = 62 then CHR ''+'' else CHR ''/'')"

definition b64_val :: "byte \<Rightarrow> nat option" where
  "b64_val c =
     (let x = byte_val c
      in if 65 \<le> x \<and> x \<le> 90 then Some (x - 65)
         else if 97 \<le> x \<and> x \<le> 122 then Some (x - 71)
         else if 48 \<le> x \<and> x \<le> 57 then Some (x + 4)
         else if x = 43 then Some 62
         else if x = 47 then Some 63
         else None)"

fun b64_encode :: "bytes \<Rightarrow> bytes" where
  "b64_encode [] = []"
| "b64_encode [a] =
     (let v = byte_val a * 16
      in [b64_char (v div 64), b64_char (v mod 64), CHR ''='', CHR ''=''])"
| "b64_encode [a, b] =
     (let v = (byte_val a * 256 + byte_val b) * 4
      in [b64_char (v div 4096), b64_char (v div 64 mod 64), b64_char (v mod 64), CHR ''=''])"
| "b64_encode (a # b # c # r) =
     (let v = (byte_val a * 256 + byte_val b) * 256 + byte_val c
      in [b64_char (v div 262144), b64_char (v div 4096 mod 64), b64_char (v div 64 mod 64), b64_char (v mod 64)]
         @ b64_encode r)"

text \<open>
  The decoder over an input without line breaks (\<^verbatim>\<open>Decode\<close> skips \<^verbatim>\<open>\r\<close> and \<^verbatim>\<open>\n\<close>);
  \<^verbatim>\<open>None\<close> is a \<^verbatim>\<open>CorruptInputError\<close>. Unused low bits of the last sextet are ignored.
\<close>

fun b64_quads :: "bytes \<Rightarrow> bytes option" where
  "b64_quads [] = Some []"
| "b64_quads (a # b # c # d # r) =
     (case (b64_val a, b64_val b) of
        (Some x, Some y) \<Rightarrow>
          if c = CHR ''='' \<and> d = CHR ''='' \<and> r = [] then Some [char_of ((x * 64 + y) div 16)]
          else (case b64_val c of
                  None \<Rightarrow> None
                | Some z \<Rightarrow>
                    if d = CHR ''='' \<and> r = []
                    then let v = ((x * 64 + y) * 64 + z) div 4 in Some [char_of (v div 256), char_of (v mod 256)]
                    else (case b64_val d of
                            None \<Rightarrow> None
                          | Some w \<Rightarrow>
                              let v = ((x * 64 + y) * 64 + z) * 64 + w
                              in map_option (\<lambda>t. char_of (v div 65536) # char_of (v div 256 mod 256) # char_of (v mod 256) # t)
                                   (b64_quads r)))
      | _ \<Rightarrow> None)"
| "b64_quads _ = None"

definition b64_decode :: "bytes \<Rightarrow> bytes option" where
  "b64_decode s = b64_quads (filter (\<lambda>c. c \<noteq> CHR 0x0D \<and> c \<noteq> CHR 0x0A) s)"

lemma b64_val_char: "n < 64 \<Longrightarrow> b64_val (b64_char n) = Some n"
  by (auto simp: b64_val_def b64_char_def Let_def)

lemma b64_char_pad: "n < 64 \<Longrightarrow> b64_char n \<noteq> CHR ''='' \<and> b64_char n \<noteq> CHR 0x0D \<and> b64_char n \<noteq> CHR 0x0A"
  using b64_val_char [of n] by (auto simp: b64_val_def)

lemma byte_sums:
  "byte_val a * 16 < 4096"
  "(byte_val a * 256 + byte_val b) * 4 < 262144"
  "(byte_val a * 256 + byte_val b) * 256 + byte_val c < 16777216"
proof -
  have bs: "x * 16 < 4096" "(x * 256 + y) * 4 < 262144" "(x * 256 + y) * 256 + z < 16777216"
    if "x \<le> 255" "y \<le> 255" "z \<le> 255" for x y z :: nat
  proof -
    have "(x * 256 + y) * 4 = 1024 * x + 4 * y" "(x * 256 + y) * 256 + z = 65536 * x + 256 * y + z"
      by simp_all
    with that show "x * 16 < 4096" "(x * 256 + y) * 4 < 262144" "(x * 256 + y) * 256 + z < 16777216"
      by linarith+
  qed
  show "byte_val a * 16 < 4096" by (rule bs(1)) (rule byte_val_le)+
  show "(byte_val a * 256 + byte_val b) * 4 < 262144" by (rule bs(2)) (rule byte_val_le)+
  show "(byte_val a * 256 + byte_val b) * 256 + byte_val c < 16777216"
    by (rule bs(3)) (rule byte_val_le)+
qed

lemma sextets3:
  fixes v :: nat
  assumes "v < 16777216"
  shows "((v div 262144 * 64 + v div 4096 mod 64) * 64 + v div 64 mod 64) * 64 + v mod 64 = v"
proof -
  have "v div 262144 * 64 + v div 4096 mod 64 = v div 4096"
    using div_mult_mod_eq [of "v div 4096" 64] by (simp flip: div_mult2_eq)
  moreover have "v div 4096 * 64 + v div 64 mod 64 = v div 64"
    using div_mult_mod_eq [of "v div 64" 64] by (simp flip: div_mult2_eq)
  ultimately show ?thesis by simp
qed

lemma char_bytes3:
  "char_of (((byte_val a * 256 + byte_val b) * 256 + byte_val c) div 65536) = a"
  "char_of (((byte_val a * 256 + byte_val b) * 256 + byte_val c) div 256 mod 256) = b"
  "char_of (((byte_val a * 256 + byte_val b) * 256 + byte_val c) mod 256) = c"
proof -
  let ?v = "(byte_val a * 256 + byte_val b) * 256 + byte_val c"
  have d: "?v div 256 = byte_val a * 256 + byte_val b"
    by (simp only: div_mult_self3 [of 256, simplified] div_less byte_val_less)
  have "?v div 65536 = ?v div 256 div 256" by (simp flip: div_mult2_eq)
  with d have "?v div 65536 = byte_val a" by simp
  then show "char_of (?v div 65536) = a" by simp
  have "(byte_val a * 256 + byte_val b) mod 256 = byte_val b"
    using byte_val_less [of b] by simp
  with d show "char_of (?v div 256 mod 256) = b" by simp
  have "?v mod 256 = byte_val c"
    by (simp only: mod_mult_self3 mod_less byte_val_less)
  then show "char_of (?v mod 256) = c" by simp
qed

lemma b64_quads_encode: "b64_quads (b64_encode s) = Some s"
proof (induction s rule: b64_encode.induct)
  case 1
  then show ?case by simp
next
  case (2 a)
  let ?v = "byte_val a * 16"
  have l: "?v div 64 < 64"
    using byte_sums(1) [of a] by (intro less_mult_imp_div_less) (simp only: arith_simps)
  have m: "?v mod 64 < 64" by simp
  have "b64_quads (b64_encode [a]) = Some [char_of ((?v div 64 * 64 + ?v mod 64) div 16)]"
    using l m by (simp only: b64_encode.simps Let_def b64_quads.simps b64_val_char) simp
  then show ?case unfolding div_mult_mod_eq by simp
next
  case (3 a b)
  let ?v = "(byte_val a * 256 + byte_val b) * 4"
  have v: "?v < 262144" by (rule byte_sums)
  then have l: "?v div 4096 < 64" "?v div 64 mod 64 < 64" "?v mod 64 < 64" by simp_all
  have "?v div 4096 * 64 + ?v div 64 mod 64 = ?v div 64"
    using div_mult_mod_eq [of "?v div 64" 64] by (simp flip: div_mult2_eq)
  then have s: "(?v div 4096 * 64 + ?v div 64 mod 64) * 64 + ?v mod 64 = ?v" by simp
  have "b64_quads (b64_encode [a, b]) =
      (let v = ((?v div 4096 * 64 + ?v div 64 mod 64) * 64 + ?v mod 64) div 4
       in Some [char_of (v div 256), char_of (v mod 256)])"
    using l b64_char_pad [of "?v mod 64"] by (simp only: b64_encode.simps Let_def b64_quads.simps b64_val_char) simp
  moreover have "?v div 4 = byte_val a * 256 + byte_val b" by simp
  moreover have "(byte_val a * 256 + byte_val b) div 256 = byte_val a"
    by (simp only: div_mult_self3 [of 256, simplified] div_less byte_val_less)
  moreover have "(byte_val a * 256 + byte_val b) mod 256 = byte_val b"
    by (simp only: mod_mult_self3 mod_less byte_val_less)
  ultimately show ?case unfolding s by (simp only: Let_def char_of_char)
next
  case (4 a b c r)
  let ?v = "(byte_val a * 256 + byte_val b) * 256 + byte_val c"
  have v: "?v < 16777216" by (rule byte_sums)
  then have l: "?v div 262144 < 64" "?v div 4096 mod 64 < 64" "?v div 64 mod 64 < 64" "?v mod 64 < 64" by simp_all
  note p = b64_char_pad [OF l(3)] b64_char_pad [OF l(4)]
  have "b64_quads (b64_encode (a # b # c # r)) =
      (let v = ((?v div 262144 * 64 + ?v div 4096 mod 64) * 64 + ?v div 64 mod 64) * 64 + ?v mod 64
       in map_option (\<lambda>t. char_of (v div 65536) # char_of (v div 256 mod 256) # char_of (v mod 256) # t) (Some r))"
    using 4 l p by (simp only: b64_encode.simps Let_def append_Cons append_Nil b64_quads.simps b64_val_char) simp
  then show ?case unfolding sextets3 [OF v] by (simp only: Let_def char_bytes3 option.map)
qed

lemma b64_encode_no_newline:
  "filter (\<lambda>c. c \<noteq> CHR 0x0D \<and> c \<noteq> CHR 0x0A) (b64_encode s) = b64_encode s"
proof -
  have bc: "b64_char n \<noteq> CHR 0x0D" "b64_char n \<noteq> CHR 0x0A" for n
    by (cases "n < 64", simp add: b64_char_pad, simp add: b64_char_def)+
  show ?thesis
    by (induction s rule: b64_encode.induct) (simp_all add: Let_def bc)
qed

end
