(* ===== verification/Envelope.thy ===== *)
theory Envelope
  imports Position GoEnc
begin

text \<open>
  The event contract (\<^verbatim>\<open>internal/envelope/envelope.go\<close>, \<^verbatim>\<open>classify.go\<close>): the event record, its
  Kafka key and identity, and its JSON text. The escape routine is modelled with the index
  arithmetic of the source and shown equal to a byte-by-byte reference; the identities and the
  argument encodings are shown injective, and both argument encodings are inverted.
\<close>

section \<open>Events\<close>

datatype Phase = PhaseSnapshot | PhaseIncremental | PhaseHeartbeat

fun phase_str :: "Phase \<Rightarrow> bytes" where
  "phase_str PhaseSnapshot = ''snapshot''"
| "phase_str PhaseIncremental = ''incremental''"
| "phase_str PhaseHeartbeat = ''heartbeat''"

datatype Op = OpRead | OpCreate | OpUpdate | OpDelete | OpOther | OpHeartbeat

fun op_str :: "Op \<Rightarrow> bytes" where
  "op_str OpRead = ''r''"
| "op_str OpCreate = ''c''"
| "op_str OpUpdate = ''u''"
| "op_str OpDelete = ''d''"
| "op_str OpOther = ''x''"
| "op_str OpHeartbeat = ''h''"

record Source =
  SrcID :: bytes
  SrcDB :: bytes
  SrcFilenum :: "32 word"
  SrcOffset :: "64 word"
  Seq :: "64 word"
  ExecTimeSec :: "64 word"

record Event =
  EvSchemaVersion :: int
  EvPhase :: Phase
  EvOp :: Op
  EvDB :: bytes
  EvType :: bytes
  EvKey :: bytes
  EvCommand :: bytes
  EvArgs :: "bytes list"
  EvSource :: Source

definition SchemaVersion :: int where
  "SchemaVersion = 1"

section \<open>Classification, keys and identities\<close>

definition Classify :: "bytes \<Rightarrow> Op" where
  "Classify command =
     (if to_upper command \<in> set [''DEL'', ''UNLINK'', ''FLUSHDB'', ''FLUSHALL''] then OpDelete else OpUpdate)"

definition KafkaKey :: "Event \<Rightarrow> bytes" where
  "KafkaKey e = EvDB e @ '':'' @ EvKey e"

definition EventID :: "Event \<Rightarrow> bytes" where
  "EventID e =
     (if EvPhase e = PhaseIncremental
      then ''inc:'' @ SrcID (EvSource e) @ '':'' @ format_uint (unat (SrcFilenum (EvSource e))) @ '':'' @
           format_uint (unat (SrcOffset (EvSource e))) @ '':'' @ format_uint (unat (Seq (EvSource e)))
      else phase_str (EvPhase e) @ '':'' @ SrcID (EvSource e) @ '':'' @ EvDB e @ '':'' @ EvType e @ '':'' @
           EvKey e @ '':'' @ EvCommand e)"

definition event_String :: "Event \<Rightarrow> bytes" where
  "event_String e = phase_str (EvPhase e) @ '':'' @ EvCommand e @ '' '' @ EvDB e @ ''/'' @ EvKey e @ ''@'' @
     format_uint (unat (SrcFilenum (EvSource e))) @ '':'' @ format_uint (unat (SrcOffset (EvSource e)))"

section \<open>JSON text\<close>

definition hex_digit :: "nat \<Rightarrow> byte" where
  "hex_digit n = ''0123456789abcdef'' ! n"

definition hex :: "byte \<Rightarrow> bytes" where
  "hex c = [hex_digit (byte_val c div 16), hex_digit (byte_val c mod 16)]"

text \<open>The escape of one byte; \<^verbatim>\<open>None\<close> where the loop continues without one.\<close>

definition byte_escape :: "byte \<Rightarrow> bytes option" where
  "byte_escape c =
     (if c = CHR 0x22 then Some [CHR 0x5C, CHR 0x22]
      else if c = CHR 0x5C then Some [CHR 0x5C, CHR 0x5C]
      else if c = CHR 0x0A then Some [CHR 0x5C, CHR ''n'']
      else if c = CHR 0x0D then Some [CHR 0x5C, CHR ''r'']
      else if c = CHR 0x09 then Some [CHR 0x5C, CHR ''t'']
      else if byte_val c < 0x20 then Some ([CHR 0x5C] @ ''u00'' @ hex c)
      else None)"

function escape_loop :: "bytes \<Rightarrow> nat \<Rightarrow> nat \<Rightarrow> bytes \<Rightarrow> nat \<times> bytes" where
  "escape_loop s i start out =
     (if i < length s
      then case byte_escape (s ! i) of
             None \<Rightarrow> escape_loop s (Suc i) start out
           | Some esc \<Rightarrow> escape_loop s (Suc i) (Suc i) (out @ take (i - start) (drop start s) @ esc)
      else (start, out))"
  by pat_completeness auto
termination
  by (relation "measure (\<lambda>(s, i, start, out). length s - i)") auto

declare escape_loop.simps [simp del]

text \<open>The accumulator is \<^verbatim>\<open>nil\<close> exactly while nothing was appended to it.\<close>

definition jsonEscape :: "bytes \<Rightarrow> bytes" where
  "jsonEscape s = (case escape_loop s 0 0 [] of
     (start, out) \<Rightarrow> if out = [] then s else out @ drop start s)"

definition writeRawJSONStr :: "bytes \<Rightarrow> bytes" where
  "writeRawJSONStr val = [CHR 0x22] @ jsonEscape val @ [CHR 0x22]"

definition writeJSONStr :: "bytes \<Rightarrow> bytes \<Rightarrow> bytes" where
  "writeJSONStr key val = '','' @ [CHR 0x22] @ key @ [CHR 0x22] @ '':'' @ [CHR 0x22] @ jsonEscape val @ [CHR 0x22]"

definition allValidUTF8 :: "bytes list \<Rightarrow> bool" where
  "allValidUTF8 args = list_all utf8_valid args"

definition args_encoding :: "Event \<Rightarrow> bytes" where
  "args_encoding e = (if \<not> allValidUTF8 (EvArgs e) then ''base64'' else ''utf8'')"

definition marshal_arg :: "bytes \<Rightarrow> bytes \<Rightarrow> bytes" where
  "marshal_arg enc a = (if enc = ''base64'' then [CHR 0x22] @ b64_encode a @ [CHR 0x22] else writeRawJSONStr a)"

definition quoted_field :: "bytes \<Rightarrow> bytes" where
  "quoted_field k = '','' @ [CHR 0x22] @ k @ [CHR 0x22] @ '':''"

definition MarshalJSON :: "Event \<Rightarrow> bytes" where
  "MarshalJSON e =
     (let argsEnc = args_encoding e; src = EvSource e
      in ''{'' @ [CHR 0x22] @ ''schema_version'' @ [CHR 0x22] @ '':'' @ format_int SchemaVersion @
         writeJSONStr ''phase'' (phase_str (EvPhase e)) @
         writeJSONStr ''op'' (op_str (EvOp e)) @
         writeJSONStr ''db'' (EvDB e) @
         writeJSONStr ''data_type'' (EvType e) @
         writeJSONStr ''key'' (EvKey e) @
         writeJSONStr ''command'' (EvCommand e) @
         quoted_field ''args'' @ ''['' @ join '','' (map (marshal_arg argsEnc) (EvArgs e)) @ '']'' @
         writeJSONStr ''args_encoding'' argsEnc @
         writeJSONStr ''event_id'' (EventID e) @
         quoted_field ''source'' @ ''{'' @ [CHR 0x22] @ ''id'' @ [CHR 0x22] @ '':'' @ writeRawJSONStr (SrcID src) @
         quoted_field ''db'' @ writeRawJSONStr (SrcDB src) @
         quoted_field ''filenum'' @ format_uint (unat (SrcFilenum src)) @
         quoted_field ''offset'' @ format_uint (unat (SrcOffset src)) @
         quoted_field ''seq'' @ format_uint (unat (Seq src)) @
         (if ExecTimeSec src > 0 then quoted_field ''exec_time_s'' @ format_uint (unat (ExecTimeSec src)) else []) @
         ''}}'')"

definition DecodeArg :: "bytes \<Rightarrow> bytes \<Rightarrow> bytes option" where
  "DecodeArg encoding value = (if encoding \<noteq> ''base64'' then Some value else b64_decode value)"

section \<open>The escape routine against its reference\<close>

definition esc_ref :: "bytes \<Rightarrow> bytes" where
  "esc_ref s = concat (map (\<lambda>c. case byte_escape c of None \<Rightarrow> [c] | Some e \<Rightarrow> e) s)"

lemma esc_ref_simps [simp]:
  "esc_ref [] = []"
  "esc_ref (c # s) = (case byte_escape c of None \<Rightarrow> [c] | Some e \<Rightarrow> e) @ esc_ref s"
  "esc_ref (s @ t) = esc_ref s @ esc_ref t"
  by (simp_all add: esc_ref_def)

lemma byte_escape_nonempty: "byte_escape c = Some e \<Longrightarrow> e \<noteq> []"
  by (auto simp: byte_escape_def split: if_splits)

text \<open>
  The loop invariant: what was appended so far, followed by the bytes since the last escape,
  is the reference escape of the bytes read.
\<close>

lemma escape_loop_inv:
  assumes "start \<le> i" "i \<le> length s" "out @ take (i - start) (drop start s) = esc_ref (take i s)"
    and "out = [] \<longrightarrow> start = 0"
  shows "case escape_loop s i start out of (st, o') \<Rightarrow>
     o' @ drop st s = esc_ref s \<and> (o' = [] \<longrightarrow> st = 0)"
  using assms
proof (induction s i start out rule: escape_loop.induct)
  case (1 s i start out)
  show ?case
  proof (cases "i < length s")
    case False
    with "1.prems" show ?thesis by (subst escape_loop.simps) simp
  next
    case True
    have tk: "take (Suc i) s = take i s @ [s ! i]" using True by (rule take_Suc_conv_app_nth)
    show ?thesis
    proof (cases "byte_escape (s ! i)")
      case None
      have "take (Suc i - start) (drop start s) = take (i - start) (drop start s) @ [s ! i]"
        using True "1.prems"(1) by (simp add: Suc_diff_le take_Suc_conv_app_nth)
      then have "out @ take (Suc i - start) (drop start s) = esc_ref (take (Suc i) s)"
        using "1.prems"(3) None by (simp add: tk)
      with "1.IH"(1) [OF True None] "1.prems" True None show ?thesis
        by (simp add: escape_loop.simps [of s i start out])
    next
      case (Some esc)
      let ?o = "out @ take (i - start) (drop start s) @ esc"
      have "?o @ take (Suc i - Suc i) (drop (Suc i) s) = esc_ref (take (Suc i) s)"
        using "1.prems"(3) Some by (simp add: tk flip: append_assoc)
      moreover have "?o \<noteq> []" using byte_escape_nonempty [OF Some] by simp
      ultimately have "case escape_loop s (Suc i) (Suc i) ?o of (st, o') \<Rightarrow>
          o' @ drop st s = esc_ref s \<and> (o' = [] \<longrightarrow> st = 0)"
        using True by (intro "1.IH"(2) [OF True Some]) auto
      with True Some show ?thesis by (simp add: escape_loop.simps [of s i start out])
    qed
  qed
qed

lemma jsonEscape_eq: "jsonEscape s = esc_ref s"
  using escape_loop_inv [of 0 0 s "[]"] by (auto simp: jsonEscape_def split: prod.splits)

text \<open>
  Escape routine. The routine that copies runs of plain bytes between escapes computes
  the byte-by-byte escape of its input.
\<close>

theorem jsonEscape_is_reference:
  "jsonEscape s = concat (map (\<lambda>c. case byte_escape c of None \<Rightarrow> [c] | Some e \<Rightarrow> e) s)"
  by (simp add: jsonEscape_eq esc_ref_def)

section \<open>Reading the text back\<close>

text \<open>A JSON string body, by the grammar of RFC 8259 restricted to the escapes of the encoder.\<close>

definition hex_val :: "byte \<Rightarrow> nat option" where
  "hex_val c = (let x = byte_val c in
     if 48 \<le> x \<and> x \<le> 57 then Some (x - 48)
     else if 97 \<le> x \<and> x \<le> 102 then Some (x - 87) else None)"

fun json_unescape :: "bytes \<Rightarrow> bytes option" where
  "json_unescape [] = Some []"
| "json_unescape (c # r) =
     (if c = CHR 0x5C then
        (case r of
           [] \<Rightarrow> None
         | k # r' \<Rightarrow>
             if k = CHR 0x22 \<or> k = CHR 0x5C then map_option ((#) k) (json_unescape r')
             else if k = CHR ''n'' then map_option ((#) (CHR 0x0A)) (json_unescape r')
             else if k = CHR ''r'' then map_option ((#) (CHR 0x0D)) (json_unescape r')
             else if k = CHR ''t'' then map_option ((#) (CHR 0x09)) (json_unescape r')
             else if k = CHR ''u'' then
               (case r' of
                  z1 # z2 # h # l # r'' \<Rightarrow>
                    (case (hex_val h, hex_val l) of
                       (Some x, Some y) \<Rightarrow>
                         if z1 = CHR ''0'' \<and> z2 = CHR ''0''
                         then map_option ((#) (char_of (x * 16 + y))) (json_unescape r'') else None
                     | _ \<Rightarrow> None)
                | _ \<Rightarrow> None)
             else None)
      else if c = CHR 0x22 \<or> byte_val c < 0x20 then None
      else map_option ((#) c) (json_unescape r))"

lemma hex_val_digit: "n < 16 \<Longrightarrow> hex_val (hex_digit n) = Some n"
proof -
  have "list_all (\<lambda>n. hex_val (hex_digit n) = Some n) [0..<16]"
    by (simp add: upt_rec hex_val_def hex_digit_def)
  then show "n < 16 \<Longrightarrow> hex_val (hex_digit n) = Some n" by (simp add: list_all_iff)
qed

lemma hex_digit_no_nl: "n < 16 \<Longrightarrow> hex_digit n \<noteq> nl"
proof -
  have "\<forall>n < 16. hex_digit n \<noteq> nl" by code_simp
  then show "n < 16 \<Longrightarrow> hex_digit n \<noteq> nl" by blast
qed

lemma hex_no_nl [simp]: "nl \<notin> set (hex c)"
  using hex_digit_no_nl [of "byte_val c div 16"] hex_digit_no_nl [of "byte_val c mod 16"]
  by (auto simp: hex_def less_mult_imp_div_less byte_val_less)

lemma json_unescape_esc_ref: "json_unescape (esc_ref s) = Some s"
proof (induction s)
  case Nil
  then show ?case by simp
next
  case (Cons c s)
  have "byte_val c mod 16 < 16" by simp
  moreover have "byte_val c div 16 < 16" by (rule less_mult_imp_div_less) simp
  ultimately have hx: "hex_val (hex_digit (byte_val c div 16)) = Some (byte_val c div 16)"
    "hex_val (hex_digit (byte_val c mod 16)) = Some (byte_val c mod 16)"
    by (simp_all only: hex_val_digit)
  with Cons show ?case by (simp add: byte_escape_def hex_def)
qed


text \<open>
  Arguments are lossless. Whichever encoding the event declares for its arguments, the
  text between the quotes of an argument decodes to the argument's exact bytes: through the
  JSON escapes for \<^verbatim>\<open>utf8\<close>, through \<open>DecodeArg\<close> for \<^verbatim>\<open>base64\<close>.
\<close>

theorem args_recoverable:
  "\<exists>body. marshal_arg (args_encoding e) a = [CHR 0x22] @ body @ [CHR 0x22] \<and>
     Option.bind (if args_encoding e = ''base64'' then Some body else json_unescape body)
       (DecodeArg (args_encoding e)) = Some a"
proof (cases "args_encoding e = ''base64''")
  case True
  have nl: "filter (\<lambda>c. c \<noteq> CHR 0x0D \<and> c \<noteq> CHR 0x0A) (b64_encode a) = b64_encode a"
    by (rule b64_encode_no_newline)
  from True show ?thesis
    by (intro exI [of _ "b64_encode a"])
       (simp add: marshal_arg_def DecodeArg_def b64_decode_def nl b64_quads_encode)
next
  case False
  then show ?thesis
    by (intro exI [of _ "jsonEscape a"])
       (simp add: marshal_arg_def writeRawJSONStr_def DecodeArg_def jsonEscape_eq json_unescape_esc_ref)
qed

section \<open>Identities\<close>

lemma colon_not_digit: "\<not> is_digit (CHR '':'')"
  by (simp add: is_digit_def)

text \<open>
  Identity of incremental events. Two incremental events of one source carry the same
  identifier exactly when they come from the same binlog position and sequence number, so a
  replayed entry keeps its identifier and distinct entries never share one; and no incremental
  identifier is the identifier of a snapshot or heartbeat event.
\<close>

theorem EventID_incremental:
  assumes "EvPhase e1 = PhaseIncremental" "SrcID (EvSource e1) = SrcID (EvSource e2)"
  shows "EventID e1 = EventID e2 \<longleftrightarrow>
     EvPhase e2 = PhaseIncremental \<and> SrcFilenum (EvSource e1) = SrcFilenum (EvSource e2) \<and>
     SrcOffset (EvSource e1) = SrcOffset (EvSource e2) \<and> Seq (EvSource e1) = Seq (EvSource e2)"
proof (cases "EvPhase e2 = PhaseIncremental")
  case False
  then have "EventID e1 \<noteq> EventID e2"
    using assms(1) by (cases "EvPhase e2") (simp_all add: EventID_def)
  with False show ?thesis by simp
next
  case True
  have "EventID e1 = EventID e2 \<longleftrightarrow>
      format_uint (unat (SrcFilenum (EvSource e1))) @ CHR '':'' # format_uint (unat (SrcOffset (EvSource e1))) @
        CHR '':'' # format_uint (unat (Seq (EvSource e1))) =
      format_uint (unat (SrcFilenum (EvSource e2))) @ CHR '':'' # format_uint (unat (SrcOffset (EvSource e2))) @
        CHR '':'' # format_uint (unat (Seq (EvSource e2)))"
    using assms True by (simp add: EventID_def)
  also have "\<dots> \<longleftrightarrow> SrcFilenum (EvSource e1) = SrcFilenum (EvSource e2) \<and>
      SrcOffset (EvSource e1) = SrcOffset (EvSource e2) \<and> Seq (EvSource e1) = Seq (EvSource e2)"
    by (auto simp: word_eq_iff_unsigned [where 'a = nat] dest!: format_uint_sep [OF _ colon_not_digit])
  finally show ?thesis using True by simp
qed

definition sample_event :: "Phase \<Rightarrow> 64 word \<Rightarrow> 64 word \<Rightarrow> bytes list \<Rightarrow> Event" where
  "sample_event ph off sq args =
     \<lparr>EvSchemaVersion = 1, EvPhase = ph, EvOp = OpUpdate, EvDB = ''db0'', EvType = ''hash'', EvKey = ''user:1'',
      EvCommand = ''HMSET'', EvArgs = args,
      EvSource = \<lparr>SrcID = ''10.0.0.1:9221'', SrcDB = ''db0'', SrcFilenum = 3, SrcOffset = off, Seq = sq,
                   ExecTimeSec = 0\<rparr>\<rparr>"

theorem EventID_incremental_witness:
  "EventID (sample_event PhaseIncremental 8749 0 []) = EventID (sample_event PhaseIncremental 8749 0 [''x'']) \<and>
   EventID (sample_event PhaseIncremental 8749 0 []) \<noteq> EventID (sample_event PhaseIncremental 8750 0 [])"
  using EventID_incremental [of "sample_event PhaseIncremental 8749 0 []" "sample_event PhaseIncremental 8749 0 [''x'']"]
    EventID_incremental [of "sample_event PhaseIncremental 8749 0 []" "sample_event PhaseIncremental 8750 0 []"]
  by (simp add: sample_event_def)

text \<open>
  Identity of snapshot events. Two snapshot events of one key that carry the same
  command share one identifier whatever their arguments and sequence numbers: a large value
  that the dump emits in several chunks is several events with one identifier.
\<close>

theorem snapshot_chunks_share_id:
  assumes "EvPhase e = PhaseSnapshot"
  shows "EventID (e\<lparr>EvArgs := args, EvSource := (EvSource e)\<lparr>Seq := n\<rparr>\<rparr>) = EventID e"
  using assms by (simp add: EventID_def)

theorem snapshot_chunks_share_id_witness:
  "EventID ((sample_event PhaseSnapshot 100 1 [''HMSET'', ''user:1'', ''a'', ''1''])
      \<lparr>EvArgs := [''HMSET'', ''user:1'', ''b'', ''2''],
       EvSource := (EvSource (sample_event PhaseSnapshot 100 1 [''HMSET'', ''user:1'', ''a'', ''1'']))\<lparr>Seq := 2\<rparr>\<rparr>)
   = EventID (sample_event PhaseSnapshot 100 1 [''HMSET'', ''user:1'', ''a'', ''1''])"
  by (rule snapshot_chunks_share_id) (simp add: sample_event_def)

text \<open>
  Routing key. Within one database the Kafka key determines the entity key and is
  determined by it, whatever the data type, phase, command and position of the events: all
  events of an entity are routed alike and no two entities of a database are merged.
\<close>

theorem KafkaKey_entity:
  assumes "EvDB e1 = EvDB e2"
  shows "KafkaKey e1 = KafkaKey e2 \<longleftrightarrow> EvKey e1 = EvKey e2"
  using assms by (simp add: KafkaKey_def)

theorem KafkaKey_entity_witness:
  "KafkaKey (sample_event PhaseSnapshot 1 0 []) = KafkaKey (sample_event PhaseIncremental 2 0 [''x'']) \<longleftrightarrow>
   EvKey (sample_event PhaseSnapshot 1 0 []) = EvKey (sample_event PhaseIncremental 2 0 [''x''])"
  by (rule KafkaKey_entity) (simp add: sample_event_def)

end
