(* ===== verification/Store.thy ===== *)
theory Store
  imports Position GoStd
begin

text \<open>
  The checkpoint store (\<^verbatim>\<open>internal/store/store.go\<close>). The persisted record, the operations that
  change it, and \<open>Flush\<close>, which writes a temporary file and renames it over the checkpoint.
  The file system is a map from paths to contents; every system call of \<open>Flush\<close> may fail, and
  the process may stop between any two of them. The JSON codec of Go's library is a parameter:
  \<open>marshal\<close> for \<^verbatim>\<open>json.MarshalIndent\<close>, \<open>unmarshal\<close> for \<^verbatim>\<open>json.Unmarshal\<close> into a state.
\<close>

section \<open>State\<close>

datatype SnapshotPhase = PhaseNone | PhaseRunning | PhaseDone

record SnapshotResume =
  AnchorFilenum :: "32 word"
  AnchorOffset :: "64 word"
  TypeName :: bytes
  ResumeKey :: bytes
  DumpDone :: bool
  DumpDir :: bytes

record State =
  Version :: int
  SourceID :: bytes
  HasPos :: bool
  StFilenum :: "32 word"
  StOffset :: "64 word"
  Snapshot :: SnapshotPhase
  Resume :: "SnapshotResume option"

record Store =
  path :: bytes
  state :: State
  dirty :: bool

section \<open>Operations\<close>

definition SetDelivered :: "32 word \<Rightarrow> 64 word \<Rightarrow> Store \<Rightarrow> Store" where
  "SetDelivered filenum offset s =
     (let st = state s
      in if HasPos st \<and> (filenum < StFilenum st \<or> (filenum = StFilenum st \<and> offset \<le> StOffset st)) then s
         else s\<lparr>state := st\<lparr>StFilenum := filenum, StOffset := offset, HasPos := True\<rparr>, dirty := True\<rparr>)"

definition SetSnapshot :: "SnapshotPhase \<Rightarrow> Store \<Rightarrow> Store" where
  "SetSnapshot p s = s\<lparr>state := (state s)\<lparr>Snapshot := p\<rparr>, dirty := True\<rparr>"

definition ResetForRescan :: "Store \<Rightarrow> Store" where
  "ResetForRescan s =
     s\<lparr>state := (state s)\<lparr>StFilenum := 0, StOffset := 0, HasPos := False, Snapshot := PhaseRunning, Resume := None\<rparr>,
       dirty := True\<rparr>"

definition SetResume :: "SnapshotResume \<Rightarrow> Store \<Rightarrow> Store" where
  "SetResume r s = s\<lparr>state := (state s)\<lparr>Resume := Some r\<rparr>, dirty := True\<rparr>"

definition ClearResume :: "Store \<Rightarrow> Store" where
  "ClearResume s =
     (if Resume (state s) = None then s else s\<lparr>state := (state s)\<lparr>Resume := None\<rparr>, dirty := True\<rparr>)"

section \<open>Opening\<close>

datatype read_result = NotExist | ReadFailed | Contents bytes

datatype store_error = ErrRead | ErrParse | ErrSourceMismatch bytes bytes
  | ErrMarshal | ErrTmp | ErrWrite | ErrSync | ErrClose | ErrMkdir | ErrRename

definition empty_state :: "bytes \<Rightarrow> State" where
  "empty_state sourceID = \<lparr>Version = 1, SourceID = sourceID, HasPos = False, StFilenum = 0, StOffset = 0,
     Snapshot = PhaseNone, Resume = None\<rparr>"

definition Open :: "(State \<Rightarrow> bytes \<Rightarrow> State option) \<Rightarrow> read_result \<Rightarrow> bytes \<Rightarrow> bytes \<Rightarrow> store_error + Store" where
  "Open unmarshal rd pth sourceID =
     (let s = \<lparr>path = pth, state = empty_state sourceID, dirty = False\<rparr>
      in case rd of
           NotExist \<Rightarrow> Inr s
         | ReadFailed \<Rightarrow> Inl ErrRead
         | Contents b \<Rightarrow>
             (case unmarshal (state s) b of
                None \<Rightarrow> Inl ErrParse
              | Some st \<Rightarrow>
                  if SourceID st \<noteq> sourceID then Inl (ErrSourceMismatch (SourceID st) sourceID)
                  else Inr (s\<lparr>state := st\<rparr>)))"

section \<open>Flushing\<close>

type_synonym files = "bytes \<rightharpoonup> bytes"

text \<open>
  The system calls of \<open>Flush\<close> in order. A call fails or not; a failed write may have written
  any prefix of its bytes.
\<close>

datatype flush_call = CallOpen | CallWrite | CallSync | CallClose | CallMkdir | CallRename

definition flush_calls :: "flush_call list" where
  "flush_calls = [CallOpen, CallWrite, CallSync, CallClose, CallMkdir, CallRename]"

fun call_error :: "flush_call \<Rightarrow> store_error" where
  "call_error CallOpen = ErrTmp"
| "call_error CallWrite = ErrWrite"
| "call_error CallSync = ErrSync"
| "call_error CallClose = ErrClose"
| "call_error CallMkdir = ErrMkdir"
| "call_error CallRename = ErrRename"

definition tmp_path :: "bytes \<Rightarrow> bytes" where
  "tmp_path pth = pth @ ''.tmp''"

fun call_effect :: "bytes \<Rightarrow> bytes \<Rightarrow> flush_call \<Rightarrow> files \<Rightarrow> files" where
  "call_effect pth b CallOpen fs = fs(tmp_path pth \<mapsto> [])"
| "call_effect pth b CallWrite fs = fs(tmp_path pth \<mapsto> b @ [CHR 0x0A])"
| "call_effect pth b CallRename fs = fs(pth := fs (tmp_path pth), tmp_path pth := None)"
| "call_effect pth b c fs = fs"

fun failed_effect :: "bytes \<Rightarrow> bytes \<Rightarrow> nat \<Rightarrow> flush_call \<Rightarrow> files \<Rightarrow> files" where
  "failed_effect pth b k CallWrite fs = fs(tmp_path pth \<mapsto> take k (b @ [CHR 0x0A]))"
| "failed_effect pth b k c fs = fs"

fun run_calls :: "(flush_call \<Rightarrow> bool) \<Rightarrow> nat \<Rightarrow> bytes \<Rightarrow> bytes \<Rightarrow> flush_call list \<Rightarrow> files \<Rightarrow> store_error option \<times> files" where
  "run_calls fails k pth b [] fs = (None, fs)"
| "run_calls fails k pth b (c # cs) fs =
     (if fails c then (Some (call_error c), failed_effect pth b k c fs)
      else run_calls fails k pth b cs (call_effect pth b c fs))"

definition Flush :: "(State \<Rightarrow> bytes option) \<Rightarrow> (flush_call \<Rightarrow> bool) \<Rightarrow> nat \<Rightarrow> Store \<Rightarrow> files \<Rightarrow> store_error option \<times> Store \<times> files" where
  "Flush marshal fails k s fs =
     (if \<not> dirty s then (None, s, fs)
      else case marshal (state s) of
             None \<Rightarrow> (Some ErrMarshal, s, fs)
           | Some b \<Rightarrow>
               (case run_calls fails k (path s) b flush_calls fs of
                  (Some e, fs') \<Rightarrow> (Some e, s, fs')
                | (None, fs') \<Rightarrow> (None, s\<lparr>dirty := False\<rparr>, fs')))"

section \<open>The delivered position\<close>

definition delivered_pos :: "Store \<Rightarrow> position option" where
  "delivered_pos s =
     (if HasPos (state s) then Some \<lparr>Filenum = StFilenum (state s), Offset = StOffset (state s)\<rparr> else None)"

text \<open>
  What the runner relies on: recording a position keeps the largest one. A client that records
  a sequence of positions ends at the maximum of them and of what was there.
\<close>

locale checkpoint =
  fixes pos_of :: "'s \<Rightarrow> position option" and record_pos :: "position \<Rightarrow> 's \<Rightarrow> 's"
  assumes pos_record: "pos_of (record_pos p s) = Some (case pos_of s of None \<Rightarrow> p | Some q \<Rightarrow> max q p)"
begin

lemma record_ge: "pos_of s = Some q \<Longrightarrow> \<exists>r. pos_of (record_pos p s) = Some r \<and> q \<le> r \<and> p \<le> r"
  by (simp add: pos_record)

lemma record_all:
  "pos_of s = Some q \<Longrightarrow> pos_of (fold record_pos ps s) = Some (Max (insert q (set ps)))"
proof (induction ps arbitrary: s q)
  case Nil
  then show ?case by simp
next
  case (Cons p ps)
  then have "pos_of (record_pos p s) = Some (max q p)" by (simp add: pos_record)
  from Cons.IH [OF this] show ?case
    by (cases "ps = []") (auto simp: max.assoc Max_insert insert_commute max.commute max.left_commute)
qed

lemma record_sorted_last:
  "pos_of s = Some q \<Longrightarrow> sorted (q # ps) \<Longrightarrow> pos_of (fold record_pos ps s) = Some (last (q # ps))"
proof (induction ps arbitrary: s q)
  case Nil
  then show ?case by simp
next
  case (Cons p ps)
  then have "pos_of (record_pos p s) = Some p" by (simp add: pos_record max_absorb2)
  from Cons.IH [OF this] Cons.prems(2) show ?case by simp
qed

end

definition SetDeliveredPos :: "position \<Rightarrow> Store \<Rightarrow> Store" where
  "SetDeliveredPos p s = SetDelivered (Filenum p) (Offset p) s"

interpretation store_cp: checkpoint delivered_pos SetDeliveredPos
proof unfold_locales
  fix p :: position and s :: Store
  let ?q = "\<lparr>Filenum = StFilenum (state s), Offset = StOffset (state s)\<rparr>"
  have "(Filenum p < StFilenum (state s) \<or> (Filenum p = StFilenum (state s) \<and> Offset p \<le> StOffset (state s))) \<longleftrightarrow> p \<le> ?q"
    by (auto simp: less_eq_position_ext_def order.order_iff_strict)
  then show "delivered_pos (SetDeliveredPos p s) =
      Some (case delivered_pos s of None \<Rightarrow> p | Some q \<Rightarrow> max q p)"
    by (auto simp: delivered_pos_def SetDeliveredPos_def SetDelivered_def Let_def max_def
        intro: position.equality split: if_splits)
qed

text \<open>
  C19 (the checkpoint never moves back). After recording any sequence of positions the
  checkpoint holds the largest of them and of the position it held before, whatever their
  order, and the source identity, the snapshot phase and the resume coordinates are unchanged.
\<close>

theorem SetDelivered_keeps_maximum:
  assumes "delivered_pos s = Some q"
  shows "delivered_pos (fold SetDeliveredPos ps s) = Some (Max (insert q (set ps))) \<and>
     SourceID (state (fold SetDeliveredPos ps s)) = SourceID (state s) \<and>
     Snapshot (state (fold SetDeliveredPos ps s)) = Snapshot (state s) \<and>
     Resume (state (fold SetDeliveredPos ps s)) = Resume (state s)"
proof -
  have "SourceID (state (fold SetDeliveredPos ps t)) = SourceID (state t) \<and>
      Snapshot (state (fold SetDeliveredPos ps t)) = Snapshot (state t) \<and>
      Resume (state (fold SetDeliveredPos ps t)) = Resume (state t)" for t
    by (induction ps arbitrary: t) (simp_all add: SetDeliveredPos_def SetDelivered_def Let_def)
  with store_cp.record_all [OF assms] show ?thesis by simp
qed

definition sample_store :: Store where
  "sample_store = \<lparr>path = ''cp'', state = (empty_state ''src'')\<lparr>HasPos := True, StFilenum := 3, StOffset := 100\<rparr>,
     dirty = False\<rparr>"

theorem SetDelivered_keeps_maximum_witness:
  "delivered_pos (fold SetDeliveredPos [\<lparr>Filenum = 3, Offset = 50\<rparr>, \<lparr>Filenum = 4, Offset = 7\<rparr>] sample_store) =
     Some (Max (insert \<lparr>Filenum = 3, Offset = 100\<rparr> (set [\<lparr>Filenum = 3, Offset = 50\<rparr>, \<lparr>Filenum = 4, Offset = 7\<rparr>])))"
  using SetDelivered_keeps_maximum [of sample_store "\<lparr>Filenum = 3, Offset = 100\<rparr>"
      "[\<lparr>Filenum = 3, Offset = 50\<rparr>, \<lparr>Filenum = 4, Offset = 7\<rparr>]"]
  by (simp add: sample_store_def delivered_pos_def)

section \<open>Crash safety of the flush\<close>

lemma tmp_path_neq [simp]: "tmp_path p \<noteq> p" "p \<noteq> tmp_path p"
  by (simp_all add: tmp_path_def)

text \<open>The files as a crash after the first \<open>n\<close> calls leaves them.\<close>

definition crash_after :: "nat \<Rightarrow> bytes \<Rightarrow> bytes \<Rightarrow> files \<Rightarrow> files" where
  "crash_after n pth b fs = fold (call_effect pth b) (take n flush_calls) fs"

lemma run_calls_path:
  "run_calls fails k pth b cs fs = (e, fs') \<Longrightarrow> CallRename \<notin> set cs \<Longrightarrow> fs' pth = fs pth"
proof (induction cs arbitrary: fs)
  case Nil
  then show ?case by simp
next
  case (Cons c cs)
  then show ?case by (cases c) (auto split: if_splits)
qed

lemma run_flush_calls:
  "run_calls fails k pth b flush_calls fs = (e, fs') \<Longrightarrow>
   (if e = None then fs' pth = Some (b @ [CHR 0x0A]) else fs' pth = fs pth)"
  by (auto simp: flush_calls_def split: if_splits)




definition toy_unmarshal :: "State \<Rightarrow> bytes \<Rightarrow> State option" where
  "toy_unmarshal st0 b = (if b = ''src'' @ [CHR 0x0A] then Some (state sample_store) else None)"


end
