(* ===== verification/Gate.thy ===== *)
theory Gate
  imports Position
begin

text \<open>
  The snapshot/incremental handoff gate (\<^verbatim>\<open>internal/replica/gate.go\<close>): two states, the dump
  anchor and whether it is known yet.
\<close>

datatype gateState = stateBuffering | stateOpen

record GateCtl =
  gate_state :: gateState
  gate_h :: position
  gate_hSet :: bool

definition NewGateCtl :: GateCtl where
  "NewGateCtl = \<lparr>gate_state = stateBuffering, gate_h = zero_pos, gate_hSet = False\<rparr>"

definition gate_State :: "GateCtl \<Rightarrow> gateState" where
  "gate_State g = gate_state g"

definition ShouldEmitNow :: "GateCtl \<Rightarrow> position \<Rightarrow> bool" where
  "ShouldEmitNow g pos \<longleftrightarrow> gate_state g = stateOpen \<and> offsetAfter pos (gate_h g)"

definition Drop :: "GateCtl \<Rightarrow> position \<Rightarrow> bool" where
  "Drop g pos \<longleftrightarrow> gate_hSet g \<and> \<not> offsetAfter pos (gate_h g)"

definition RequestOpenAt :: "position \<Rightarrow> GateCtl \<Rightarrow> GateCtl" where
  "RequestOpenAt h g = g\<lparr>gate_h := h, gate_hSet := True\<rparr>"

definition gate_Release :: "GateCtl \<Rightarrow> GateCtl" where
  "gate_Release g = g\<lparr>gate_state := stateOpen\<rparr>"

definition gate_H :: "GateCtl \<Rightarrow> position" where
  "gate_H g = gate_h g"

text \<open>The three answers the runner acts on, as functions of the anchor.\<close>

lemma Drop_iff: "gate_hSet g \<Longrightarrow> Drop g p \<longleftrightarrow> p \<le> gate_h g"
  by (simp add: Drop_def pos_offset.after_iff not_less)

lemma Drop_unset: "\<not> gate_hSet g \<Longrightarrow> \<not> Drop g p"
  by (simp add: Drop_def)

lemma ShouldEmitNow_iff:
  "gate_hSet g \<Longrightarrow> \<not> Drop g p \<Longrightarrow> ShouldEmitNow g p \<longleftrightarrow> gate_state g = stateOpen"
  by (auto simp: ShouldEmitNow_def Drop_def)

lemma gate_simps [simp]:
  "gate_state (RequestOpenAt h g) = gate_state g" "gate_h (RequestOpenAt h g) = h"
  "gate_hSet (RequestOpenAt h g)" "gate_state (gate_Release g) = stateOpen"
  "gate_h (gate_Release g) = gate_h g" "gate_hSet (gate_Release g) = gate_hSet g"
  "gate_state NewGateCtl = stateBuffering" "\<not> gate_hSet NewGateCtl"
  by (simp_all add: RequestOpenAt_def gate_Release_def NewGateCtl_def)

end
