(* ===== verification/DiskBuffer.thy ===== *)
theory DiskBuffer
  imports Position GoStd "HOL-Library.AList"
begin

text \<open>
  The segmented on-disk backlog (\<^verbatim>\<open>internal/replica/diskbuffer.go\<close>). The buffer's directory is an
  association list from file names to contents, so that adopting a crashed run's segments can
  list it; the outcome of every system call is part of an \<open>io\<close> record. The blocking loop of
  \<open>append\<close> is modelled by its single iteration, which either finishes or asks to wait.
\<close>

section \<open>Records and frames\<close>

record bufferRecord =
  pbEnd :: position
  itemPos :: position
  recExecTime :: "32 word"
  raw :: bytes

datatype buf_error = EClosed | ECreate | EWrite | EFsync | EReadLen | ECorrupt | EReadPayload
  | EShortRecord nat | ECtx | EReadDir | EOpen | EStat | EMkdir | ERemove

definition payloadLen :: "bufferRecord \<Rightarrow> nat" where
  "payloadLen r = 28 + length (raw r)"

definition rec_encode :: "bufferRecord \<Rightarrow> bytes \<Rightarrow> bytes" where
  "rec_encode r dst =
     dst @ put_u32 (Filenum (pbEnd r)) @ put_u64 (Offset (pbEnd r)) @
     put_u32 (Filenum (itemPos r)) @ put_u64 (Offset (itemPos r)) @ put_u32 (recExecTime r) @ raw r"

definition decodeRecord :: "bytes \<Rightarrow> buf_error + bufferRecord" where
  "decodeRecord buf =
     (if length buf < 28 then Inl (EShortRecord (length buf))
      else Inr \<lparr>pbEnd = \<lparr>Filenum = get_u32 buf, Offset = get_u64 (drop 4 buf)\<rparr>,
                itemPos = \<lparr>Filenum = get_u32 (drop 12 buf), Offset = get_u64 (drop 16 buf)\<rparr>,
                recExecTime = get_u32 (drop 24 buf), raw = drop 28 buf\<rparr>)"

text \<open>The frame \<open>append\<close> builds: the payload length as \<^verbatim>\<open>uint32\<close>, then the payload.\<close>

definition frame :: "bufferRecord \<Rightarrow> bytes" where
  "frame rec = rec_encode rec (put_u32 (of_nat (payloadLen rec)))"

section \<open>State\<close>

record seg =
  seg_path :: bytes
  seg_size :: int

record diskBuffer =
  segBytes :: int
  high :: int
  low :: int
  reserve :: int
  durable :: bool
  keep :: bool
  adopted :: bool
  segs :: "seg list"
  written :: int
  drainedB :: int
  appended :: int
  drainedC :: int
  rs :: nat
  ro :: int
  fsAccum :: int
  created :: nat
  closed :: bool
  blocked :: bool
  berr :: "buf_error option"

type_synonym dir = "(bytes \<times> bytes) list"

record io =
  mkdir_ok :: bool
  open_ok :: "bytes \<Rightarrow> bool"
  write_fault :: "nat option"
  sync_ok :: bool
  read_ok :: "bytes \<Rightarrow> int \<Rightarrow> bool"
  fs_free :: "int option"

definition fsyncInterval :: int where
  "fsyncInterval = 4 * 2 ^ 20"

text \<open>
  What the file system answers during one call: directory creation and removal, opening (and
  \<^verbatim>\<open>Stat\<close>ing) a path, a write that fails after some bytes, an fsync, a read at an offset of a
  path, and the free space \<^verbatim>\<open>statfs\<close> reports (\<open>None\<close> when it is unknown).

  \<^verbatim>\<open>File.ReadAt\<close> of exactly \<open>n\<close> bytes (an error when fewer are there) and \<^verbatim>\<open>File.WriteAt\<close>.
\<close>

definition read_at :: "io \<Rightarrow> dir \<Rightarrow> bytes \<Rightarrow> int \<Rightarrow> nat \<Rightarrow> bytes option" where
  "read_at io d p off n =
     (case map_of d p of
        None \<Rightarrow> None
      | Some c \<Rightarrow> if read_ok io p off \<and> nat off + n \<le> length c then Some (take n (drop (nat off) c)) else None)"

definition write_at :: "dir \<Rightarrow> bytes \<Rightarrow> bytes \<Rightarrow> int \<Rightarrow> dir" where
  "write_at d p b off =
     (let c = (case map_of d p of None \<Rightarrow> [] | Some c \<Rightarrow> c);
          k = nat off
      in AList.update p (take k (c @ replicate (k - length c) (CHR 0x00)) @ b @ drop (k + length b) c) d)"

section \<open>Writing\<close>

text \<open>\<^verbatim>\<open>fmt.Sprintf("pending-%08d.log", n)\<close>.\<close>

definition seg_name :: "nat \<Rightarrow> bytes" where
  "seg_name n = ''pending-'' @ replicate (8 - length (format_uint n)) (CHR ''0'') @ format_uint n @ ''.log''"

definition fsHasRoomLocked :: "io \<Rightarrow> diskBuffer \<Rightarrow> bool" where
  "fsHasRoomLocked io b = (case fs_free io of None \<Rightarrow> True | Some free \<Rightarrow> free \<ge> reserve b)"

definition rotateLocked :: "io \<Rightarrow> diskBuffer \<Rightarrow> dir \<Rightarrow> buf_error option \<times> diskBuffer \<times> dir" where
  "rotateLocked io b d =
     (let name = seg_name (created b); b1 = b\<lparr>created := created b + 1\<rparr>
      in if \<not> open_ok io name then (Some ECreate, b1, d)
         else (None, b1\<lparr>segs := segs b1 @ [\<lparr>seg_path = name, seg_size = 0\<rparr>]\<rparr>, AList.update name [] d))"

definition needs_rotate :: "diskBuffer \<Rightarrow> bytes \<Rightarrow> bool" where
  "needs_rotate b fr \<longleftrightarrow>
     segs b = [] \<or> (seg_size (last (segs b)) > 0 \<and> seg_size (last (segs b)) + int (length fr) > segBytes b)"

definition write_last :: "io \<Rightarrow> bytes \<Rightarrow> diskBuffer \<Rightarrow> dir \<Rightarrow> buf_error option \<times> diskBuffer \<times> dir" where
  "write_last io fr b d =
     (let s = last (segs b); n = int (length fr)
      in case write_fault io of
           Some k \<Rightarrow> (Some EWrite, b\<lparr>berr := Some EWrite\<rparr>, write_at d (seg_path s) (take k fr) (seg_size s))
         | None \<Rightarrow>
              let d' = write_at d (seg_path s) fr (seg_size s);
                  b1 = b\<lparr>segs := butlast (segs b) @ [s\<lparr>seg_size := seg_size s + n\<rparr>],
                         written := written b + n, appended := appended b + 1, fsAccum := fsAccum b + n\<rparr>
              in if durable b1 \<and> fsAccum b1 \<ge> fsyncInterval
                 then if sync_ok io then (None, b1\<lparr>fsAccum := 0\<rparr>, d')
                      else (Some EFsync, b1\<lparr>fsAccum := 0, berr := Some EFsync\<rparr>, d')
                 else (None, b1, d'))"

definition writeLocked :: "io \<Rightarrow> bytes \<Rightarrow> diskBuffer \<Rightarrow> dir \<Rightarrow> buf_error option \<times> diskBuffer \<times> dir" where
  "writeLocked io fr b d =
     (if needs_rotate b fr
      then case rotateLocked io b d of
             (Some e, b', d') \<Rightarrow> (Some e, b', d')
           | (None, b', d') \<Rightarrow> write_last io fr b' d'
      else write_last io fr b d)"

datatype append_result = AppWait | AppDone "buf_error option"

definition append_iter :: "io \<Rightarrow> bufferRecord \<Rightarrow> diskBuffer \<Rightarrow> dir \<Rightarrow> append_result \<times> diskBuffer \<times> dir" where
  "append_iter io rec b d =
     (case berr b of
        Some e \<Rightarrow> (AppDone (Some e), b, d)
      | None \<Rightarrow>
          if closed b then (AppDone (Some EClosed), b, d)
          else let buffered = written b - drainedB b
               in if buffered \<ge> high b \<or> (blocked b \<and> buffered \<ge> low b)
                  then (AppWait, b\<lparr>blocked := True\<rparr>, d)
                  else let b1 = b\<lparr>blocked := False\<rparr>
                       in if \<not> fsHasRoomLocked io b1 then (AppWait, b1, d)
                          else case writeLocked io (frame rec) b1 d of
                                 (e, b', d') \<Rightarrow> (AppDone e, b', d'))"

text \<open>\<open>append\<close>: one list element per attempt; when they run out the context was cancelled.\<close>

fun buf_append :: "io list \<Rightarrow> bufferRecord \<Rightarrow> diskBuffer \<Rightarrow> dir \<Rightarrow> buf_error option \<times> diskBuffer \<times> dir" where
  "buf_append [] rec b d = (Some ECtx, b, d)"
| "buf_append (io # ios) rec b d =
     (case append_iter io rec b d of
        (AppWait, b', d') \<Rightarrow> buf_append ios rec b' d'
      | (AppDone e, b', d') \<Rightarrow> (e, b', d'))"

section \<open>Draining\<close>

text \<open>The two reads of one frame at the cursor: the record and its payload length.\<close>

definition next_read :: "io \<Rightarrow> seg \<Rightarrow> diskBuffer \<Rightarrow> dir \<Rightarrow> buf_error + (bufferRecord \<times> nat)" where
  "next_read io s b d =
     (case read_at io d (seg_path s) (ro b) 4 of
        None \<Rightarrow> Inl EReadLen
      | Some hdr \<Rightarrow>
          let plen = unat (get_u32 hdr)
          in if plen = 0 \<or> int plen + ro b > seg_size s then Inl ECorrupt
             else case read_at io d (seg_path s) (ro b + 4) plen of
                    None \<Rightarrow> Inl EReadPayload
                  | Some payload \<Rightarrow>
                      (case decodeRecord payload of Inl e \<Rightarrow> Inl e | Inr rec \<Rightarrow> Inr (rec, plen)))"

function next_loop :: "io \<Rightarrow> nat \<Rightarrow> bufferRecord list \<Rightarrow> diskBuffer \<Rightarrow> dir \<Rightarrow>
    buf_error option \<times> bufferRecord list \<times> diskBuffer \<times> dir" where
  "next_loop io n out b d =
     (if length out < n then
        if rs b \<ge> length (segs b) then (None, out, b, d)
        else let s = segs b ! rs b
             in if ro b \<ge> seg_size s then
                  if rs b \<noteq> length (segs b) - 1 \<or> seg_size s = 0
                  then next_loop io n out (b\<lparr>segs := tl (segs b), rs := 0, ro := 0\<rparr>)
                         (if keep b then d else AList.delete (seg_path s) d)
                  else (None, out, b, d)
                else case next_read io s b d of
                       Inl e \<Rightarrow> (Some e, out, b\<lparr>berr := Some e\<rparr>, d)
                     | Inr (rec, plen) \<Rightarrow>
                         next_loop io n (out @ [rec])
                           (b\<lparr>ro := ro b + int (4 + plen), drainedB := drainedB b + int (4 + plen),
                              drainedC := drainedC b + 1\<rparr>) d
      else (None, out, b, d))"
  by pat_completeness auto
termination
  by (relation "measure (\<lambda>(io, n, out, b, d). (n - length out) + length (segs b))") auto

declare next_loop.simps [simp del]

definition nextLocked :: "io \<Rightarrow> nat \<Rightarrow> diskBuffer \<Rightarrow> dir \<Rightarrow>
    buf_error option \<times> bufferRecord list \<times> diskBuffer \<times> dir" where
  "nextLocked io n b d = (case berr b of Some e \<Rightarrow> (Some e, [], b, d) | None \<Rightarrow> next_loop io n [] b d)"

definition buf_next :: "io \<Rightarrow> int \<Rightarrow> diskBuffer \<Rightarrow> dir \<Rightarrow>
    buf_error option \<times> bufferRecord list \<times> diskBuffer \<times> dir" where
  "buf_next io n b d = nextLocked io (if n \<le> 0 then 256 else nat n) b d"

definition pending :: "diskBuffer \<Rightarrow> int \<times> int" where
  "pending b = (appended b - drainedC b, written b - drainedB b)"

definition bufferedBytes :: "diskBuffer \<Rightarrow> int" where
  "bufferedBytes b = written b - drainedB b"

section \<open>Opening, scanning and closing\<close>

definition has_suffix :: "bytes \<Rightarrow> bytes \<Rightarrow> bool" where
  "has_suffix s p \<longleftrightarrow> drop (length s - length p) s = p"

definition is_segment :: "bytes \<Rightarrow> bool" where
  "is_segment name \<longleftrightarrow> has_prefix name ''pending-'' \<and> has_suffix name ''.log''"

fun adopt_files :: "io \<Rightarrow> bytes list \<Rightarrow> diskBuffer \<Rightarrow> dir \<Rightarrow> buf_error + diskBuffer" where
  "adopt_files io [] b d = Inr b"
| "adopt_files io (p # ps) b d =
     (if \<not> open_ok io p then Inl EOpen
      else let sz = int (length (case map_of d p of None \<Rightarrow> [] | Some c \<Rightarrow> c))
           in adopt_files io ps (b\<lparr>segs := segs b @ [\<lparr>seg_path = p, seg_size = sz\<rparr>], written := written b + sz,
                                   created := created b + 1, adopted := True\<rparr>) d)"

text \<open>The last test of the newest segment's size in \<open>adopt\<close> returns the same value on both branches.\<close>

definition adopt :: "io \<Rightarrow> diskBuffer \<Rightarrow> dir \<Rightarrow> buf_error + diskBuffer" where
  "adopt io b d =
     (if \<not> mkdir_ok io then Inl EReadDir
      else adopt_files io (sort_strings (filter is_segment (map fst d))) b d)"

definition newDiskBuffer :: "io \<Rightarrow> int \<Rightarrow> int \<Rightarrow> int \<Rightarrow> bool \<Rightarrow> bool \<Rightarrow> dir \<Rightarrow> buf_error + (diskBuffer \<times> dir)" where
  "newDiskBuffer io segB hi resv dur kp d =
     (let segB' = (if segB \<le> 0 then 64 * 2 ^ 20 else segB);
          hi' = (if hi \<le> 0 then 8 * 2 ^ 30 else hi);
          resv' = (if resv < 0 then 0 else resv);
          d' = (if kp then d else []);
          b = \<lparr>segBytes = segB', high = hi', low = hi' div 2, reserve = resv', durable = dur, keep = kp,
               adopted = False, segs = [], written = 0, drainedB = 0, appended = 0, drainedC = 0, rs = 0, ro = 0,
               fsAccum = 0, created = 0, closed = False, blocked = False, berr = None\<rparr>
      in if \<not> mkdir_ok io then Inl EMkdir
         else if kp then (case adopt io b d' of Inl e \<Rightarrow> Inl e | Inr b' \<Rightarrow> Inr (b', d'))
         else Inr (b, d'))"

partial_function (option) tail_loop :: "io \<Rightarrow> position \<Rightarrow> int \<Rightarrow> diskBuffer \<Rightarrow> dir \<Rightarrow>
    (buf_error option \<times> position \<times> int \<times> diskBuffer \<times> dir) option" where
  "tail_loop io last_pos count b d =
     (case nextLocked io 512 b d of
        (Some e, recs, b', d') \<Rightarrow> Some (Some e, last_pos, count, b', d')
      | (None, recs, b', d') \<Rightarrow>
          if recs = [] then Some (None, last_pos, count, b', d')
          else tail_loop io (pbEnd (last recs)) (count + int (length recs)) b' d')"

definition buf_tail :: "io \<Rightarrow> diskBuffer \<Rightarrow> dir \<Rightarrow>
    (buf_error option \<times> position \<times> int \<times> diskBuffer \<times> dir) option" where
  "buf_tail io b d =
     (case berr b of
        Some e \<Rightarrow> Some (Some e, zero_pos, 0, b, d)
      | None \<Rightarrow>
          (case tail_loop io zero_pos 0 b d of
             None \<Rightarrow> None
           | Some (Some e, l, c, b', d') \<Rightarrow> Some (Some e, l, c, b', d')
           | Some (None, l, c, b', d') \<Rightarrow>
               let b1 = (if adopted b' then b'\<lparr>appended := appended b' + c, adopted := False\<rparr> else b')
               in Some (None, l, c, b1\<lparr>rs := 0, ro := 0, drainedB := 0, drainedC := 0\<rparr>, d')))"

definition buf_close :: "diskBuffer \<Rightarrow> dir \<Rightarrow> diskBuffer \<times> dir" where
  "buf_close b d =
     (if closed b then (b, d) else (b\<lparr>closed := True, segs := []\<rparr>, if keep b then d else []))"

definition buf_discard :: "diskBuffer \<Rightarrow> dir \<Rightarrow> diskBuffer \<times> dir" where
  "buf_discard b d = (case buf_close b d of (b', d') \<Rightarrow> (b', []))"

end
