(* ===== verification/Backlog.thy ===== *)
theory Backlog
  imports DiskBuffer
begin

text \<open>
  What the disk backlog promises: it is a first-in first-out queue of records. \<open>buf_rel b d q\<close> relates
  a buffer and its directory to the queue of records still to be drained; appending adds at the
  end, draining takes from the front, and the counters read by the replication runner are exact.
  The locale \<open>backlog\<close> states that contract; it is interpreted on the buffer's own operations.
\<close>

section \<open>Frames\<close>

definition wf_rec :: "bufferRecord \<Rightarrow> bool" where
  "wf_rec r \<longleftrightarrow> payloadLen r < 2 ^ 32"

definition frames :: "bufferRecord list \<Rightarrow> bytes" where
  "frames rl = concat (map frame rl)"

lemma rec_encode_dst: "rec_encode r dst = dst @ rec_encode r []"
  by (simp add: rec_encode_def)

lemma length_rec_encode [simp]: "length (rec_encode r dst) = length dst + payloadLen r"
  by (simp add: rec_encode_def payloadLen_def)

lemma length_frame [simp]: "length (frame r) = 4 + payloadLen r"
  by (simp add: frame_def)

lemma frame_parts: "frame r = put_u32 (of_nat (payloadLen r)) @ rec_encode r []"
  unfolding frame_def by (rule rec_encode_dst)

lemma frames_simps [simp]:
  "frames [] = []" "frames (r # rl) = frame r @ frames rl" "frames (xs @ ys) = frames xs @ frames ys"
  by (simp_all add: frames_def)

lemma drop_put [codec_simps]:
  "drop (n + 4) (put_u32 w @ xs) = drop n xs"
  "drop (n + 8) (put_u64 v @ xs) = drop n xs"
  by (simp_all)

lemma drop_put_fields:
  "drop 4 (put_u32 a @ xs) = xs"
  "drop 12 (put_u32 a @ put_u64 b @ xs) = xs"
  "drop 16 (put_u32 a @ put_u64 b @ put_u32 c @ xs) = xs"
  "drop 24 (put_u32 a @ put_u64 b @ put_u32 c @ put_u64 e @ xs) = xs"
  "drop 28 (put_u32 a @ put_u64 b @ put_u32 c @ put_u64 e @ put_u32 f @ xs) = xs"
  by simp_all

lemma decode_encode: "decodeRecord (rec_encode r []) = Inr r"
  by (simp add: decodeRecord_def rec_encode_def drop_put_fields codec_simps del: drop_append)

lemma frame_len: "wf_rec r \<Longrightarrow> unat (get_u32 (put_u32 (of_nat (payloadLen r)))) = payloadLen r"
  using get_put_u32 [of "of_nat (payloadLen r)" "[]"]
  by (simp add: wf_rec_def unat_of_nat)

section \<open>The directory\<close>

lemma write_at_end:
  assumes "map_of d p = Some c" "off = int (length c)"
  shows "map_of (write_at d p b off) = (map_of d)(p \<mapsto> c @ b)"
  using assms by (simp add: write_at_def)

lemma read_at_frames:
  assumes "map_of d p = Some (xs @ ys @ zs)" "off = int (length xs)" "n = length ys" "read_ok io p off"
  shows "read_at io d p off n = Some ys"
  using assms by (simp add: read_at_def)

section \<open>The abstraction\<close>

definition seg_holds :: "dir \<Rightarrow> seg \<Rightarrow> bufferRecord list \<Rightarrow> bool" where
  "seg_holds d s rl \<longleftrightarrow>
     map_of d (seg_path s) = Some (frames rl) \<and> seg_size s = int (length (frames rl)) \<and> list_all wf_rec rl"

text \<open>
  The records of the segments, the part \<open>dn\<close> of the oldest segment already drained, and what is
  left to drain.
\<close>

fun view :: "bufferRecord list list \<Rightarrow> bufferRecord list \<Rightarrow> bufferRecord list \<Rightarrow> bool" where
  "view [] dn q \<longleftrightarrow> dn = [] \<and> q = []"
| "view (rl # rss) dn q \<longleftrightarrow> (\<exists>cur. rl = dn @ cur \<and> q = cur @ concat rss)"

definition buf_ok :: "diskBuffer \<Rightarrow> bool" where
  "buf_ok b \<longleftrightarrow> distinct (map seg_path (segs b)) \<and> (\<forall>s \<in> set (segs b). \<exists>i < created b. seg_path s = seg_name i) \<and>
     rs b = 0 \<and> berr b = None \<and> \<not> closed b"

definition buf_rel :: "diskBuffer \<Rightarrow> dir \<Rightarrow> bufferRecord list \<Rightarrow> bool" where
  "buf_rel b d q \<longleftrightarrow>
     buf_ok b \<and>
     (\<exists>rss dn. list_all2 (seg_holds d) (segs b) rss \<and> view rss dn q \<and> ro b = int (length (frames dn))) \<and>
     (adopted b \<or> appended b - drainedC b = int (length q)) \<and> written b - drainedB b = int (length (frames q))"

lemma seg_holds_cong:
  "map_of d' (seg_path s) = map_of d (seg_path s) \<Longrightarrow> seg_holds d' s rl \<longleftrightarrow> seg_holds d s rl"
  by (simp add: seg_holds_def)

lemma segs_hold_cong:
  assumes "list_all2 (seg_holds d) ss rss" "\<And>s. s \<in> set ss \<Longrightarrow> map_of d' (seg_path s) = map_of d (seg_path s)"
  shows "list_all2 (seg_holds d') ss rss"
  using assms(1) by (rule list.rel_mono_strong) (simp add: assms(2) seg_holds_def)

lemma frames_empty_iff [simp]: "frames rl = [] \<longleftrightarrow> rl = []"
proof (cases rl)
  case (Cons r rl')
  then show ?thesis using length_frame [of r] by (auto simp del: length_frame)
qed simp

lemma dec_val_pad: "dec_val (replicate k (CHR ''0'') @ xs) = dec_val xs"
  by (induction k) (simp_all add: dec_val_def digit_val_def)

lemma seg_name_inj [simp]: "seg_name i = seg_name j \<longleftrightarrow> i = j"
proof
  assume "seg_name i = seg_name j"
  then have "(replicate (8 - length (format_uint i)) (CHR ''0'') @ format_uint i) @ ''.log'' =
      (replicate (8 - length (format_uint j)) (CHR ''0'') @ format_uint j) @ ''.log''"
    by (simp add: seg_name_def)
  then show "i = j" by (metis append_same_eq dec_val_pad dec_val_format_uint)
qed simp

section \<open>Draining\<close>

lemma buf_relE:
  assumes "buf_rel b d q"
  obtains rss dn where "list_all2 (seg_holds d) (segs b) rss" "view rss dn q" "ro b = int (length (frames dn))"
    "buf_ok b" "adopted b \<or> appended b - drainedC b = int (length q)" "written b - drainedB b = int (length (frames q))"
  using assms unfolding buf_rel_def by blast

lemma buf_relI:
  assumes "list_all2 (seg_holds d) (segs b) rss" "view rss dn q" "ro b = int (length (frames dn))"
    "buf_ok b" "adopted b \<or> appended b - drainedC b = int (length q)" "written b - drainedB b = int (length (frames q))"
  shows "buf_rel b d q"
  using assms unfolding buf_rel_def by blast

lemma buf_rel_head:
  assumes "buf_rel b d q" "segs b = s # ss"
  obtains dn cur rss where "seg_holds d s (dn @ cur)" "list_all2 (seg_holds d) ss rss" "q = cur @ concat rss"
    "ro b = int (length (frames dn))" "buf_ok b"
    "adopted b \<or> appended b - drainedC b = int (length q)" "written b - drainedB b = int (length (frames q))"
proof -
  obtain rss dn where v: "list_all2 (seg_holds d) (segs b) rss" "view rss dn q" "ro b = int (length (frames dn))"
    "buf_ok b" "adopted b \<or> appended b - drainedC b = int (length q)" "written b - drainedB b = int (length (frames q))"
    using assms(1) by (rule buf_relE)
  then obtain rl rss' where "rss = rl # rss'" "seg_holds d s rl" "list_all2 (seg_holds d) ss rss'"
    using assms(2) by (auto simp: list_all2_Cons1)
  with v that show thesis by auto
qed

lemma buf_rel_no_segs: "buf_rel b d q \<Longrightarrow> segs b = [] \<Longrightarrow> q = []"
  by (auto elim: buf_relE)

lemma consumed_iff:
  "seg_holds d s (dn @ cur) \<Longrightarrow> int (length (frames dn)) \<ge> seg_size s \<longleftrightarrow> cur = []"
  by (auto simp: seg_holds_def)

lemma view_fresh: "view rss [] (concat rss)"
  by (cases rss) auto

lemma buf_rel_pop_segment:
  assumes rel: "buf_rel b d q" and segs: "segs b = s # ss" and consumed: "ro b \<ge> seg_size s"
  shows "buf_rel (b\<lparr>segs := ss, rs := 0, ro := 0\<rparr>) (if keep b then d else AList.delete (seg_path s) d) q"
proof -
  obtain dn cur rss where h: "seg_holds d s (dn @ cur)" "list_all2 (seg_holds d) ss rss" "q = cur @ concat rss"
    "ro b = int (length (frames dn))" "buf_ok b"
    "adopted b \<or> appended b - drainedC b = int (length q)" "written b - drainedB b = int (length (frames q))"
    using rel segs by (rule buf_rel_head)
  have "cur = []" using h consumed consumed_iff by metis
  then have q: "q = concat rss" using h by simp
  have "list_all2 (seg_holds (if keep b then d else AList.delete (seg_path s) d)) ss rss"
    using h(2) by (rule segs_hold_cong) (use h(5) segs in \<open>force simp: buf_ok_def map_of_delete\<close>)
  moreover have "buf_ok (b\<lparr>segs := ss, rs := 0, ro := 0\<rparr>)"
    using h(5) segs by (simp add: buf_ok_def)
  ultimately show ?thesis
    using h(6,7) q view_fresh [of rss] by (intro buf_relI [of _ _ rss "[]"]) simp_all
qed

lemma buf_rel_read:
  assumes rel: "buf_rel b d q" and segs: "segs b = s # ss" and more: "ro b < seg_size s"
  obtains r q' where "q = r # q'"
    "next_read io s b d = Inr (r, payloadLen r) \<or> (\<exists>e p off. next_read io s b d = Inl e \<and> \<not> read_ok io p off)"
    "buf_rel (b\<lparr>ro := ro b + int (4 + payloadLen r), drainedB := drainedB b + int (4 + payloadLen r),
               drainedC := drainedC b + 1\<rparr>) d q'"
proof -
  obtain dn cur rss where h: "seg_holds d s (dn @ cur)" "list_all2 (seg_holds d) ss rss" "q = cur @ concat rss"
    "ro b = int (length (frames dn))" "buf_ok b"
    "adopted b \<or> appended b - drainedC b = int (length q)" "written b - drainedB b = int (length (frames q))"
    using rel segs by (rule buf_rel_head)
  have "cur \<noteq> []" using h more by (auto simp: seg_holds_def)
  then obtain r cur' where cur: "cur = r # cur'" by (cases cur) auto
  have content: "map_of d (seg_path s) =
      Some (frames dn @ put_u32 (of_nat (payloadLen r)) @ rec_encode r [] @ frames cur')"
    using h(1) cur by (simp add: seg_holds_def frame_parts)
  let ?b = "b\<lparr>ro := ro b + int (4 + payloadLen r), drainedB := drainedB b + int (4 + payloadLen r),
               drainedC := drainedC b + 1\<rparr>"
  let ?q = "cur' @ concat rss"
  have "list_all2 (seg_holds d) (segs ?b) (((dn @ [r]) @ cur') # rss)"
    using h(1,2) segs cur by simp
  moreover have "view (((dn @ [r]) @ cur') # rss) (dn @ [r]) ?q" by auto
  moreover have "buf_ok ?b" using h(5) by (simp add: buf_ok_def)
  moreover have "ro ?b = int (length (frames (dn @ [r])))" using h(4) by simp
  ultimately have "buf_rel ?b d ?q"
    using h(3,6,7) cur by (intro buf_relI) (assumption | force)+
  moreover have "next_read io s b d = Inr (r, payloadLen r) \<or> (\<exists>e p off. next_read io s b d = Inl e \<and> \<not> read_ok io p off)"
  proof -
    have hdr: "read_at io d (seg_path s) (ro b) 4 = Some (put_u32 (of_nat (payloadLen r)))"
      if "read_ok io (seg_path s) (ro b)"
      using content by (rule read_at_frames) (use h(4) that in auto)
    have payload: "read_at io d (seg_path s) (ro b + 4) (payloadLen r) = Some (rec_encode r [])"
      if "read_ok io (seg_path s) (ro b + 4)"
      by (rule read_at_frames [where xs = "frames dn @ put_u32 (of_nat (payloadLen r))" and zs = "frames cur'"])
        (use content h(4) that in auto)
    have bad: "read_at io d (seg_path s) off n = None" if "\<not> read_ok io (seg_path s) off" for off n
      using that by (simp add: read_at_def split: option.split)
    have len: "wf_rec r" "int (payloadLen r) + ro b \<le> seg_size s" "payloadLen r \<noteq> 0"
      using h(1,4) cur by (auto simp: seg_holds_def payloadLen_def)
    show ?thesis
      using hdr payload bad len frame_len [OF len(1)]
      by (cases "read_ok io (seg_path s) (ro b)"; cases "read_ok io (seg_path s) (ro b + 4)")
        (auto simp: next_read_def Let_def decode_encode)
  qed
  ultimately show thesis using that h(3) cur by simp
qed

lemma next_loop_fifo:
  assumes "buf_rel b d q"
  shows "(\<exists>b' d'. next_loop io n out b d = (None, out @ take (n - length out) q, b', d') \<and>
           buf_rel b' d' (drop (n - length out) q) \<and> adopted b' = adopted b) \<or>
         (\<exists>e r p off. next_loop io n out b d = (Some e, r) \<and> \<not> read_ok io p off)"
  using assms
proof (induction "(n - length out) + length (segs b)" arbitrary: out b d q rule: less_induct)
  case (less out b d q)
  have rel: "buf_rel b d q" by fact
  have rs0: "rs b = 0" using rel by (auto simp: buf_rel_def buf_ok_def)
  consider "\<not> length out < n" | "segs b = []"
    | s ss where "length out < n" "segs b = s # ss" "ro b \<ge> seg_size s" "ss \<noteq> [] \<or> seg_size s = 0"
    | s ss where "length out < n" "segs b = s # ss" "ro b \<ge> seg_size s" "ss = []" "seg_size s \<noteq> 0"
    | s ss where "length out < n" "segs b = s # ss" "ro b < seg_size s"
    by (cases "segs b") force+
  then show ?case
  proof cases
    case 1
    then show ?thesis using rel by (subst next_loop.simps) auto
  next
    case 2
    then show ?thesis using rel buf_rel_no_segs [OF rel]
      by (subst next_loop.simps) auto
  next
    case (3 s ss)
    note rel1 = buf_rel_pop_segment [OF rel 3(2,3)]
    have "next_loop io n out b d = next_loop io n out (b\<lparr>segs := tl (segs b), rs := 0, ro := 0\<rparr>)
            (if keep b then d else AList.delete (seg_path (segs b ! rs b)) d)"
      using 3 rs0 by (subst next_loop.simps) (auto simp: Let_def)
    then show ?thesis
      using less(1) [OF _ rel1, of out] 3 rs0 by (cases "keep b") simp_all
  next
    case (4 s ss)
    then have "q = []" using rel by (auto elim!: buf_rel_head simp: seg_holds_def)
    then show ?thesis using 4 rs0 rel by (subst next_loop.simps) (auto simp: Let_def)
  next
    case (5 s ss)
    obtain r q' where r: "q = r # q'"
      "next_read io s b d = Inr (r, payloadLen r) \<or> (\<exists>e p off. next_read io s b d = Inl e \<and> \<not> read_ok io p off)"
      "buf_rel (b\<lparr>ro := ro b + int (4 + payloadLen r), drainedB := drainedB b + int (4 + payloadLen r),
               drainedC := drainedC b + 1\<rparr>) d q'"
      using rel 5(2,3) by (rule buf_rel_read)
    let ?b = "b\<lparr>ro := ro b + int (4 + payloadLen r), drainedB := drainedB b + int (4 + payloadLen r),
               drainedC := drainedC b + 1\<rparr>"
    have eq: "next_loop io n out b d = (case next_read io s b d of
        Inl e \<Rightarrow> (Some e, out, b\<lparr>berr := Some e\<rparr>, d)
      | Inr (rec, plen) \<Rightarrow> next_loop io n (out @ [rec])
          (b\<lparr>ro := ro b + int (4 + plen), drainedB := drainedB b + int (4 + plen), drainedC := drainedC b + 1\<rparr>) d)"
      using 5 rs0 by (subst next_loop.simps) simp
    from r(2) show ?thesis
    proof
      assume "next_read io s b d = Inr (r, payloadLen r)"
      then have "next_loop io n out b d = next_loop io n (out @ [r]) ?b d" using eq by simp
      moreover have "n - length out = Suc (n - length (out @ [r]))" using 5(1) by simp
      ultimately show ?thesis
        using 5 less(1) [OF _ r(3), of "out @ [r]"] r(1) by simp
    next
      assume "\<exists>e p off. next_read io s b d = Inl e \<and> \<not> read_ok io p off"
      then show ?thesis using eq by auto
    qed
  qed
qed

section \<open>Appending\<close>

lemma view_snoc_last:
  assumes "view (rss @ [rl]) dn q"
  shows "view (rss @ [rl @ [r]]) dn (q @ [r])"
  using assms by (cases rss) auto

lemma view_snoc_segment: "view rss dn q \<Longrightarrow> view (rss @ [[]]) dn q"
  by (cases rss) auto

lemma rotate_rel:
  assumes "buf_rel b d q" "rotateLocked io b d = (None, b', d')"
  shows "buf_rel b' d' q \<and> segs b' \<noteq> []"
proof -
  obtain rss dn where h: "list_all2 (seg_holds d) (segs b) rss" "view rss dn q" "ro b = int (length (frames dn))"
    "buf_ok b" "adopted b \<or> appended b - drainedC b = int (length q)" "written b - drainedB b = int (length (frames q))"
    using assms(1) by (rule buf_relE)
  have eq: "b' = b\<lparr>created := created b + 1, segs := segs b @ [\<lparr>seg_path = seg_name (created b), seg_size = 0\<rparr>]\<rparr>"
    "d' = AList.update (seg_name (created b)) [] d"
    using assms(2) by (auto simp: rotateLocked_def Let_def split: if_splits)
  have fresh: "seg_path s \<noteq> seg_name (created b)" if "s \<in> set (segs b)" for s
    using h(4) that by (force simp: buf_ok_def)
  have "list_all2 (seg_holds d') (segs b) rss"
    using h(1) by (rule segs_hold_cong) (simp add: eq fresh)
  then have "list_all2 (seg_holds d') (segs b') (rss @ [[]])"
    by (simp add: eq list_all2_appendI seg_holds_def)
  moreover have "buf_ok b'"
    using h(4) fresh by (force simp: buf_ok_def eq less_Suc_eq)
  ultimately show ?thesis
    using h view_snoc_segment by (auto intro!: buf_relI simp: eq)
qed

lemma write_last_rel:
  assumes rel: "buf_rel b d q" and ne: "segs b \<noteq> []" and wf: "wf_rec r"
    and w: "write_last io (frame r) b d = (None, b', d')"
  shows "buf_rel b' d' (q @ [r])"
proof -
  obtain rss dn where h: "list_all2 (seg_holds d) (segs b) rss" "view rss dn q" "ro b = int (length (frames dn))"
    "buf_ok b" "adopted b \<or> appended b - drainedC b = int (length q)" "written b - drainedB b = int (length (frames q))"
    using rel by (rule buf_relE)
  obtain ss s where segs: "segs b = ss @ [s]" using ne by (cases "segs b" rule: rev_cases) auto
  obtain rss' rl where rss: "rss = rss' @ [rl]" "list_all2 (seg_holds d) ss rss'" "seg_holds d s rl"
    using h(1) segs by (auto simp: list_all2_append1 list_all2_Cons1)
  let ?d = "write_at d (seg_path s) (frame r) (seg_size s)"
  let ?s = "s\<lparr>seg_size := seg_size s + int (length (frame r))\<rparr>"
  have upd: "map_of ?d = (map_of d)(seg_path s \<mapsto> frames rl @ frame r)"
    using rss(3) by (intro write_at_end) (auto simp: seg_holds_def)
  have eq: "d' = ?d" "segs b' = ss @ [?s]" "written b' = written b + int (length (frame r))"
    "appended b' = appended b + 1" "drainedB b' = drainedB b" "drainedC b' = drainedC b" "ro b' = ro b"
    "rs b' = rs b" "berr b' = berr b" "adopted b' = adopted b" "closed b' = closed b" "created b' = created b"
    using w segs by (auto simp: write_last_def Let_def split: if_splits option.splits)
  have "list_all2 (seg_holds ?d) ss rss'"
    using rss(2) by (rule segs_hold_cong) (use h(4) segs upd in \<open>force simp: buf_ok_def\<close>)
  moreover have "seg_holds ?d ?s (rl @ [r])"
    using rss(3) upd wf by (simp add: seg_holds_def)
  ultimately have "list_all2 (seg_holds d') (segs b') (rss' @ [rl @ [r]])"
    by (simp add: eq list_all2_appendI)
  moreover have "view (rss' @ [rl @ [r]]) dn (q @ [r])"
    using h(2) rss(1) view_snoc_last by simp
  moreover have "buf_ok b'" using h(4) segs by (auto simp: buf_ok_def eq)
  ultimately show ?thesis
    using h by (intro buf_relI) (auto simp: eq)
qed

lemma buf_rel_flags:
  "buf_rel (b\<lparr>blocked := v\<rparr>) d q \<longleftrightarrow> buf_rel b d q"
  by (simp add: buf_rel_def buf_ok_def)

lemma append_iter_adopted:
  "append_iter io r b d = (res, b', d') \<Longrightarrow> adopted b' = adopted b"
  by (auto simp: append_iter_def writeLocked_def rotateLocked_def write_last_def Let_def
      split: if_splits option.splits prod.splits)

lemma append_iter_rel:
  assumes "buf_rel b d q" "wf_rec r"
  shows "append_iter io r b d = (AppDone None, b', d') \<Longrightarrow> buf_rel b' d' (q @ [r])"
    and "append_iter io r b d = (AppWait, b', d') \<Longrightarrow> buf_rel b' d' q \<and> d' = d"
proof -
  have [simp]: "berr b = None" "\<not> closed b" using assms(1) by (auto simp: buf_rel_def buf_ok_def)
  have flags: "buf_rel (b\<lparr>blocked := v\<rparr>) d q" for v using assms(1) by (simp add: buf_rel_flags)
  show "buf_rel b' d' (q @ [r])" if "append_iter io r b d = (AppDone None, b', d')"
  proof -
    have w: "writeLocked io (frame r) (b\<lparr>blocked := False\<rparr>) d = (None, b', d')"
      using that by (auto simp: append_iter_def Let_def split: if_splits prod.splits)
    show ?thesis
    proof (cases "needs_rotate (b\<lparr>blocked := False\<rparr>) (frame r)")
      case True
      then obtain b1 d1 where "rotateLocked io (b\<lparr>blocked := False\<rparr>) d = (None, b1, d1)"
        "write_last io (frame r) b1 d1 = (None, b', d')"
        using w by (auto simp: writeLocked_def split: prod.splits option.splits)
      then show ?thesis using rotate_rel [OF flags] write_last_rel assms(2) by blast
    next
      case False
      then show ?thesis
        using w write_last_rel [OF flags _ assms(2)] by (auto simp: writeLocked_def needs_rotate_def)
    qed
  qed
  show "buf_rel b' d' q \<and> d' = d" if "append_iter io r b d = (AppWait, b', d')"
    using that flags by (auto simp: append_iter_def Let_def split: if_splits prod.splits)
qed

section \<open>The contract of a backlog\<close>

text \<open>
  A client's operations: append a record (the environment decides whether it is accepted now or
  has to wait), and take up to \<open>n\<close> records. \<open>run_ops\<close> collects what was accepted and what was taken.
\<close>

datatype ('e, 'r) bop = BAppend 'e 'r | BNext 'e nat

fun run_ops :: "('e \<Rightarrow> 'r \<Rightarrow> 's \<Rightarrow> (bool \<times> 's) option) \<Rightarrow> ('e \<Rightarrow> nat \<Rightarrow> 's \<Rightarrow> ('r list \<times> 's) option) \<Rightarrow>
    ('e, 'r) bop list \<Rightarrow> 's \<Rightarrow> ('r list \<times> 'r list \<times> 's) option" where
  "run_ops push pop [] s = Some ([], [], s)"
| "run_ops push pop (BAppend e r # ops) s =
     (case push e r s of
        None \<Rightarrow> None
      | Some (taken, s') \<Rightarrow>
          (case run_ops push pop ops s' of
             None \<Rightarrow> None
           | Some (acc, got, t) \<Rightarrow> Some (if taken then r # acc else acc, got, t)))"
| "run_ops push pop (BNext e n # ops) s =
     (case pop e n s of
        None \<Rightarrow> None
      | Some (recs, s') \<Rightarrow>
          (case run_ops push pop ops s' of
             None \<Rightarrow> None
           | Some (acc, got, t) \<Rightarrow> Some (acc, recs @ got, t)))"

fun bop_ok :: "('e \<Rightarrow> bool) \<Rightarrow> ('r \<Rightarrow> bool) \<Rightarrow> ('e, 'r) bop \<Rightarrow> bool" where
  "bop_ok env ok (BAppend e r) \<longleftrightarrow> env e \<and> ok r"
| "bop_ok env ok (BNext e n) \<longleftrightarrow> env e"

locale backlog =
  fixes rel :: "'s \<Rightarrow> 'r list \<Rightarrow> bool"
    and env :: "'e \<Rightarrow> bool"
    and ok :: "'r \<Rightarrow> bool"
    and push :: "'e \<Rightarrow> 'r \<Rightarrow> 's \<Rightarrow> (bool \<times> 's) option"
    and pop :: "'e \<Rightarrow> nat \<Rightarrow> 's \<Rightarrow> ('r list \<times> 's) option"
    and cnt :: "'s \<Rightarrow> int"
  assumes push_law: "rel s q \<Longrightarrow> env e \<Longrightarrow> ok r \<Longrightarrow>
      \<exists>taken s'. push e r s = Some (taken, s') \<and> rel s' (if taken then q @ [r] else q)"
    and pop_law: "rel s q \<Longrightarrow> env e \<Longrightarrow> \<exists>s'. pop e n s = Some (take n q, s') \<and> rel s' (drop n q)"
    and cnt_law: "rel s q \<Longrightarrow> cnt s = int (length q)"
begin

lemma run_fifo:
  assumes "rel s q" "\<forall>op \<in> set ops. bop_ok env ok op"
  shows "\<exists>acc got t q'. run_ops push pop ops s = Some (acc, got, t) \<and> rel t q' \<and> q @ acc = got @ q'"
  using assms
proof (induction ops arbitrary: s q)
  case (Cons op ops)
  show ?case
  proof (cases op)
    case (BAppend e r)
    then obtain taken s' where p: "push e r s = Some (taken, s')" "rel s' (if taken then q @ [r] else q)"
      using push_law [OF Cons.prems(1), of e r] Cons.prems(2) by auto
    then obtain acc got t q' where "run_ops push pop ops s' = Some (acc, got, t)" "rel t q'"
      "(if taken then q @ [r] else q) @ acc = got @ q'"
      using Cons.IH [OF p(2)] Cons.prems(2) by auto
    then show ?thesis using BAppend p(1) by (auto split: if_splits)
  next
    case (BNext e n)
    then obtain s' where p: "pop e n s = Some (take n q, s')" "rel s' (drop n q)"
      using pop_law [OF Cons.prems(1), of e n] Cons.prems(2) by auto
    then obtain acc got t q' where "run_ops push pop ops s' = Some (acc, got, t)" "rel t q'"
      "drop n q @ acc = got @ q'"
      using Cons.IH [OF p(2)] Cons.prems(2) by auto
    moreover from this(3) have "q @ acc = (take n q @ got) @ q'"
      by (metis append.assoc append_take_drop_id)
    ultimately show ?thesis using BNext p(1) by auto
  qed
qed simp

lemma run_count:
  assumes "rel s []" "\<forall>op \<in> set ops. bop_ok env ok op" "run_ops push pop ops s = Some (acc, got, t)"
  shows "cnt t = int (length acc) - int (length got)"
proof -
  obtain q' where "rel t q'" "acc = got @ q'" using run_fifo [OF assms(1,2)] assms(3) by auto
  then show ?thesis using cnt_law by simp
qed

end

text \<open>The buffer's operations as a client sees them; \<open>None\<close> is an I/O error.\<close>

definition io_ok :: "io \<Rightarrow> bool" where
  "io_ok io \<longleftrightarrow> mkdir_ok io \<and> (\<forall>p. open_ok io p) \<and> write_fault io = None \<and> sync_ok io \<and> (\<forall>p off. read_ok io p off)"

definition buf_push :: "io \<Rightarrow> bufferRecord \<Rightarrow> diskBuffer \<times> dir \<Rightarrow> (bool \<times> (diskBuffer \<times> dir)) option" where
  "buf_push io r s =
     (case append_iter io r (fst s) (snd s) of
        (AppWait, b, d) \<Rightarrow> Some (False, (b, d))
      | (AppDone None, b, d) \<Rightarrow> Some (True, (b, d))
      | (AppDone (Some e), b, d) \<Rightarrow> None)"

definition buf_pop :: "io \<Rightarrow> nat \<Rightarrow> diskBuffer \<times> dir \<Rightarrow> (bufferRecord list \<times> (diskBuffer \<times> dir)) option" where
  "buf_pop io n s =
     (case nextLocked io n (fst s) (snd s) of
        (None, recs, b, d) \<Rightarrow> Some (recs, (b, d))
      | (Some e, recs, b, d) \<Rightarrow> None)"

definition buf_count :: "diskBuffer \<times> dir \<Rightarrow> int" where
  "buf_count s = fst (pending (fst s))"

definition rel_pair :: "diskBuffer \<times> dir \<Rightarrow> bufferRecord list \<Rightarrow> bool" where
  "rel_pair s q \<longleftrightarrow> buf_rel (fst s) (snd s) q \<and> \<not> adopted (fst s)"

lemma io_ok_writeLocked:
  assumes "io_ok io"
  shows "\<exists>b' d'. writeLocked io fr b d = (None, b', d')"
  using assms by (auto simp: io_ok_def writeLocked_def rotateLocked_def write_last_def Let_def)

lemma io_ok_append:
  assumes "io_ok io" "buf_rel b d q"
  shows "\<exists>res b' d'. append_iter io r b d = (res, b', d') \<and> (res = AppWait \<or> res = AppDone None)"
proof -
  have "berr b = None" "\<not> closed b" using assms(2) by (auto simp: buf_rel_def buf_ok_def)
  then show ?thesis
    using io_ok_writeLocked [OF assms(1), of "frame r" "b\<lparr>blocked := False\<rparr>" d]
    by (auto simp: append_iter_def Let_def)
qed

lemma append_accepts:
  assumes "io_ok io" "berr b = None" "\<not> closed b" "bufferedBytes b < high b" "blocked b \<longrightarrow> bufferedBytes b < low b"
    and "fsHasRoomLocked io b"
  shows "\<exists>b' d'. append_iter io r b d = (AppDone None, b', d')"
  using io_ok_writeLocked [OF assms(1), of "frame r" "b\<lparr>blocked := False\<rparr>" d] assms(2-6)
  by (auto simp: append_iter_def Let_def fsHasRoomLocked_def bufferedBytes_def split: option.splits)

text \<open>Without an error, whatever reads might have failed, a drain took from the front.\<close>

lemma nextLocked_None:
  assumes "buf_rel b d q" "nextLocked io n b d = (None, recs, b', d')"
  shows "recs = take n q \<and> buf_rel b' d' (drop n q) \<and> adopted b' = adopted b"
proof -
  have "berr b = None" using assms(1) by (simp add: buf_rel_def buf_ok_def)
  then show ?thesis
    using next_loop_fifo [OF assms(1), of io n "[]"] assms(2) by (auto simp: nextLocked_def)
qed

lemma nextLocked_rel:
  assumes "buf_rel b d q" "io_ok io"
  shows "\<exists>b' d'. nextLocked io n b d = (None, take n q, b', d') \<and> buf_rel b' d' (drop n q) \<and>
      adopted b' = adopted b"
proof -
  have "berr b = None" using assms(1) by (simp add: buf_rel_def buf_ok_def)
  then show ?thesis
    using next_loop_fifo [OF assms(1), of io n "[]"] assms(2) by (auto simp: nextLocked_def io_ok_def)
qed

interpretation db: backlog rel_pair io_ok wf_rec buf_push buf_pop buf_count
proof unfold_locales
  fix s q e r
  assume a: "rel_pair s q" "io_ok e" "wf_rec r"
  obtain res b' d' where "append_iter e r (fst s) (snd s) = (res, b', d')" "res = AppWait \<or> res = AppDone None"
    using io_ok_append a by (metis rel_pair_def)
  then show "\<exists>taken s'. buf_push e r s = Some (taken, s') \<and> rel_pair s' (if taken then q @ [r] else q)"
    using append_iter_rel [of "fst s" "snd s" q r e b' d'] append_iter_adopted [of e r "fst s" "snd s"] a by (auto simp: rel_pair_def buf_push_def)
next
  fix s q e n
  assume "rel_pair s q" "io_ok e"
  then show "\<exists>s'. buf_pop e n s = Some (take n q, s') \<and> rel_pair s' (drop n q)"
    using nextLocked_rel [of "fst s" "snd s" q e n] by (auto simp: rel_pair_def buf_pop_def)
next
  fix s q
  assume "rel_pair s q"
  then show "buf_count s = int (length q)"
    by (auto simp: rel_pair_def buf_rel_def buf_count_def pending_def)
qed

section \<open>Scanning an adopted backlog\<close>

definition same_log :: "diskBuffer \<Rightarrow> diskBuffer \<Rightarrow> bool" where
  "same_log b b' \<longleftrightarrow> segs b' = segs b \<and> rs b' = rs b \<and> closed b' = closed b \<and> created b' = created b \<and>
     written b' = written b \<and> appended b' = appended b \<and> adopted b' = adopted b"

lemma next_loop_single_step:
  assumes "segs b = [s]" "seg_size s \<noteq> 0" "rs b = 0"
  shows "(\<exists>e b1. next_loop io n out b d = (e, out, b1, d) \<and> same_log b b1) \<or>
    (length out < n \<and> (\<exists>r b1. next_loop io n out b d = next_loop io n (out @ [r]) b1 d \<and> same_log b b1))"
proof (cases "length out < n \<and> ro b < seg_size s")
  case False
  then show ?thesis using assms by (subst next_loop.simps) (auto simp: same_log_def)
next
  case True
  have eq: "next_loop io n out b d = (case next_read io s b d of
      Inl e \<Rightarrow> (Some e, out, b\<lparr>berr := Some e\<rparr>, d)
    | Inr (rec, plen) \<Rightarrow> next_loop io n (out @ [rec])
        (b\<lparr>ro := ro b + int (4 + plen), drainedB := drainedB b + int (4 + plen), drainedC := drainedC b + 1\<rparr>) d)"
    using True assms by (subst next_loop.simps) simp
  show ?thesis
  proof (cases "next_read io s b d")
    case (Inl e)
    then show ?thesis unfolding eq by (auto simp: same_log_def)
  next
    case (Inr p)
    obtain r plen where "p = (r, plen)" by (cases p)
    moreover have "same_log b (b\<lparr>ro := ro b + int (4 + plen), drainedB := drainedB b + int (4 + plen),
        drainedC := drainedC b + 1\<rparr>)" by (simp add: same_log_def)
    ultimately show ?thesis using Inr True unfolding eq by (simp del: of_nat_add) blast
  qed
qed

lemma next_loop_single:
  assumes "segs b = [s]" "seg_size s \<noteq> 0" "rs b = 0" "next_loop io n out b d = (e, recs, b', d')"
  shows "d' = d \<and> same_log b b'"
  using assms
proof (induction "n - length out" arbitrary: out b rule: less_induct)
  case less
  from next_loop_single_step [OF less.prems(1-3), of io n out d] show ?case
  proof (elim disjE exE conjE)
    fix r b1
    assume "length out < n" "next_loop io n out b d = next_loop io n (out @ [r]) b1 d" "same_log b b1"
    then show ?thesis
      using less.hyps [of "out @ [r]" b1] less.prems by (auto simp: same_log_def)
  qed (use less.prems in \<open>auto simp: same_log_def\<close>)
qed

lemma tail_loop_rel:
  assumes "buf_rel b d q" "io_ok io"
  shows "\<exists>b' d'. tail_loop io l c b d =
      Some (None, if q = [] then l else pbEnd (last q), c + int (length q), b', d')"
  using assms(1)
proof (induction "length q" arbitrary: q l c b d rule: less_induct)
  case less
  obtain b' d' where n: "nextLocked io 512 b d = (None, take 512 q, b', d')" "buf_rel b' d' (drop 512 q)"
    using nextLocked_rel [OF less.prems assms(2), of 512] by blast
  show ?case
  proof (cases "q = []")
    case True
    then show ?thesis using n by (subst tail_loop.simps) simp
  next
    case False
    then have "length (drop 512 q) < length q" by simp
    from less.hyps [OF this n(2), of "pbEnd (last (take 512 q))" "c + int (length (take 512 q))"]
    obtain b2 d2 where "tail_loop io (pbEnd (last (take 512 q))) (c + int (length (take 512 q))) b' d' =
        Some (None, if drop 512 q = [] then pbEnd (last (take 512 q)) else pbEnd (last (drop 512 q)),
          c + int (length (take 512 q)) + int (length (drop 512 q)), b2, d2)"
      by blast
    moreover have "(if drop 512 q = [] then pbEnd (last (take 512 q)) else pbEnd (last (drop 512 q))) = pbEnd (last q)"
      by (metis append_take_drop_id last_appendR self_append_conv)
    moreover have "c + int (length (take 512 q)) + int (length (drop 512 q)) = c + int (length q)"
      by (metis add.assoc append_take_drop_id length_append of_nat_add)
    ultimately show ?thesis using n(1) False by (subst tail_loop.simps) simp
  qed
qed

lemma same_log_trans: "same_log a b \<Longrightarrow> same_log b c \<Longrightarrow> same_log a c"
  by (simp add: same_log_def)

lemma tail_loop_single:
  assumes "buf_rel b d q" "io_ok io" "segs b = [s]" "seg_size s \<noteq> 0"
    and "tail_loop io l c b d = Some (None, l', c', b', d')"
  shows "d' = d \<and> same_log b b' \<and> berr b' = None"
  using assms
proof (induction "length q" arbitrary: q l c b rule: less_induct)
  case less
  obtain b1 d1 where n: "nextLocked io 512 b d = (None, take 512 q, b1, d1)" "buf_rel b1 d1 (drop 512 q)"
    using nextLocked_rel [OF less.prems(1,2), of 512] by blast
  have b0: "berr b = None" "rs b = 0" using less.prems(1) by (auto simp: buf_rel_def buf_ok_def)
  have s1: "d1 = d" "same_log b b1"
    using next_loop_single [OF less.prems(3,4) b0(2)] n(1) b0(1) by (auto simp: nextLocked_def)
  have b1: "berr b1 = None" using n(2) by (simp add: buf_rel_def buf_ok_def)
  show ?case
  proof (cases "q = []")
    case True
    then show ?thesis using n s1 b1 less.prems(5) by (subst (asm) tail_loop.simps) auto
  next
    case False
    then have "tail_loop io (pbEnd (last (take 512 q))) (c + int (length (take 512 q))) b1 d = Some (None, l', c', b', d')"
      using n(1) s1 less.prems(5) by (subst (asm) tail_loop.simps) simp
    moreover have "segs b1 = [s]" using s1 less.prems(3) by (simp add: same_log_def)
    ultimately have "d' = d \<and> same_log b1 b' \<and> berr b' = None"
      using less.hyps [OF _ _ less.prems(2) _ less.prems(4), of "drop 512 q" b1] False n(2) s1 by simp
    then show ?thesis using s1 same_log_trans by blast
  qed
qed

lemma tail_single_segment:
  assumes rel: "buf_rel b d rl" and segs: "segs b = [\<lparr>seg_path = p, seg_size = int (length (frames rl))\<rparr>]"
    and ne: "rl \<noteq> []" and io: "io_ok io" and zero: "ro b = 0" "drainedB b = 0" "drainedC b = 0" "adopted b \<longrightarrow> appended b = 0"
  shows "\<exists>b'. buf_tail io b d = Some (None, pbEnd (last rl), int (length rl), b', d) \<and> rel_pair (b', d) rl"
proof -
  obtain b' d' where t: "tail_loop io zero_pos 0 b d = Some (None, pbEnd (last rl), int (length rl), b', d')"
    using tail_loop_rel [OF rel io, of zero_pos 0] ne by auto
  have "frames rl \<noteq> []" using ne by simp
  then have keep: "d' = d" "same_log b b'" "berr b' = None"
    using tail_loop_single [OF rel io segs _ t] by auto
  let ?b = "(if adopted b' then b'\<lparr>appended := appended b' + int (length rl), adopted := False\<rparr> else b')
      \<lparr>rs := 0, ro := 0, drainedB := 0, drainedC := 0\<rparr>"
  have "buf_rel ?b d rl"
    using rel keep zero by (auto simp: buf_rel_def buf_ok_def same_log_def)
  moreover have "berr b = None" using rel by (simp add: buf_rel_def buf_ok_def)
  moreover have "buf_tail io b d = Some (None, pbEnd (last rl), int (length rl), ?b, d)"
    using t keep calculation(2) by (simp add: buf_tail_def Let_def)
  ultimately show ?thesis by (auto simp: rel_pair_def)
qed

section \<open>Properties\<close>

lemma fresh_rel:
  assumes "newDiskBuffer io segB hi resv dur False d0 = Inr (b, d)"
  shows "rel_pair (b, d) []"
proof -
  have "d = []" "segs b = []" "rs b = 0" "ro b = 0" "berr b = None" "\<not> closed b" "\<not> adopted b"
    "appended b = 0" "drainedC b = 0" "written b = 0" "drainedB b = 0"
    using assms by (auto simp: newDiskBuffer_def Let_def split: if_splits)
  then show ?thesis by (auto simp: rel_pair_def buf_rel_def buf_ok_def)
qed

definition sample_io :: io where
  "sample_io = \<lparr>mkdir_ok = True, open_ok = (\<lambda>p. True), write_fault = None, sync_ok = True,
     read_ok = (\<lambda>p off. True), fs_free = Some 1000\<rparr>"

definition sample_rec :: "nat \<Rightarrow> bufferRecord" where
  "sample_rec n = \<lparr>pbEnd = \<lparr>Filenum = 1, Offset = of_nat (10 * n + 10)\<rparr>,
     itemPos = \<lparr>Filenum = 1, Offset = of_nat (10 * n)\<rparr>, recExecTime = 7, raw = ''abc''\<rparr>"

lemma io_ok_sample [simp]: "io_ok sample_io"
  by (simp add: io_ok_def sample_io_def)

lemma wf_sample [simp]: "wf_rec (sample_rec n)"
  by (simp add: wf_rec_def sample_rec_def payloadLen_def)

text \<open>
  C4. The backlog is an exactly-once first-in first-out log: on a file system without faults, any
  sequence of appends and drains on a fresh buffer completes, what was drained followed by what is
  still pending is exactly what was accepted, in order, the pending counters are exact in records
  and bytes, and one more drain returns precisely the pending records - across segment rotation,
  segment deletion and watermark waits.
\<close>

theorem diskBuffer_fifo:
  assumes "newDiskBuffer io segB hi resv dur False d0 = Inr (b, d)"
    and "\<forall>op \<in> set ops. bop_ok io_ok wf_rec op"
  shows "\<exists>acc got b' d' q. run_ops buf_push buf_pop ops (b, d) = Some (acc, got, (b', d')) \<and> acc = got @ q \<and>
    pending b' = (int (length q), int (length (frames q))) \<and>
    (\<forall>io'. io_ok io' \<longrightarrow> (\<exists>b'' d''. nextLocked io' (length q) b' d' = (None, q, b'', d'')))"
proof -
  obtain acc got t q where t: "run_ops buf_push buf_pop ops (b, d) = Some (acc, got, t)" "rel_pair t q" "acc = got @ q"
    using db.run_fifo [OF fresh_rel [OF assms(1)] assms(2)] by auto
  have "pending (fst t) = (int (length q), int (length (frames q)))"
    using t(2) by (auto simp: rel_pair_def buf_rel_def pending_def)
  moreover have "\<exists>b'' d''. nextLocked io' (length q) (fst t) (snd t) = (None, q, b'', d'')" if "io_ok io'" for io'
    using nextLocked_rel [of "fst t" "snd t" q io' "length q"] t(2) that by (auto simp: rel_pair_def)
  ultimately show ?thesis using t(1,3) by (metis prod.collapse)
qed

theorem diskBuffer_fifo_witness:
  "\<exists>acc got b' d' q. run_ops buf_push buf_pop
      [BAppend sample_io (sample_rec 0), BAppend sample_io (sample_rec 1), BNext sample_io 1, BAppend sample_io (sample_rec 2)]
      (fst (projr (newDiskBuffer sample_io 40 0 0 True False [])), []) = Some (acc, got, (b', d')) \<and> acc = got @ q \<and>
    pending b' = (int (length q), int (length (frames q))) \<and>
    (\<forall>io'. io_ok io' \<longrightarrow> (\<exists>b'' d''. nextLocked io' (length q) b' d' = (None, q, b'', d'')))"
  by (rule diskBuffer_fifo [of sample_io 40 0 0 True "[]"])
    (simp_all add: newDiskBuffer_def sample_io_def Let_def io_ok_def wf_rec_def sample_rec_def payloadLen_def)

text \<open>
  A blocked producer resumes: once the reader has drained everything, an append is accepted at
  its next attempt whatever the hysteresis flag says, provided the high mark is at least two bytes,
  the file system reports enough room and no fault, and the new queue is exactly that record.
\<close>

theorem append_resumes_after_drain:
  assumes "rel_pair (b, d) []" "low b > 0" "low b \<le> high b" "io_ok io" "fsHasRoomLocked io b" "wf_rec r"
  shows "\<exists>b' d'. append_iter io r b d = (AppDone None, b', d') \<and> rel_pair (b', d') [r]"
proof -
  have b: "berr b = None" "\<not> closed b" "written b - drainedB b = 0" "\<not> adopted b" "buf_rel b d []"
    using assms(1) by (auto simp: rel_pair_def buf_rel_def buf_ok_def)
  then obtain b' d' where a: "append_iter io r b d = (AppDone None, b', d')"
    using append_accepts [OF assms(4), of b r d] assms(2,3,5) by (auto simp: bufferedBytes_def)
  then have "rel_pair (b', d') ([] @ [r])"
    using append_iter_rel(1) [OF b(5) assms(6) a] append_iter_adopted [OF a] b(4) by (simp add: rel_pair_def)
  then show ?thesis using a by simp
qed

theorem append_resumes_after_drain_witness:
  "\<exists>b' d'. append_iter sample_io (sample_rec 0)
      ((fst (projr (newDiskBuffer sample_io 40 100 0 True False [])))\<lparr>blocked := True\<rparr>) [] = (AppDone None, b', d') \<and>
    rel_pair (b', d') [sample_rec 0]"
  by (rule append_resumes_after_drain)
    (simp_all add: newDiskBuffer_def sample_io_def Let_def io_ok_def fsHasRoomLocked_def rel_pair_def buf_rel_def buf_ok_def
      wf_rec_def sample_rec_def payloadLen_def)

text \<open>
  The backlog is bounded: an append is accepted only below the high mark, so the pending bytes
  never exceed the mark by a whole frame, and only while the file system keeps the reserve free; a
  producer that was blocked is accepted only once the pending bytes are below the low mark.
\<close>

theorem append_bounded:
  assumes "append_iter io r b d = (AppDone None, b', d')"
  shows "bufferedBytes b' < high b + int (length (frame r)) \<and> (blocked b \<longrightarrow> bufferedBytes b < low b) \<and>
    (\<forall>free. fs_free io = Some free \<longrightarrow> free \<ge> reserve b)"
proof -
  have ok: "bufferedBytes b < high b" "blocked b \<longrightarrow> bufferedBytes b < low b"
    "fsHasRoomLocked io (b\<lparr>blocked := False\<rparr>)" "writeLocked io (frame r) (b\<lparr>blocked := False\<rparr>) d = (None, b', d')"
    using assms by (auto simp: append_iter_def Let_def bufferedBytes_def split: if_splits option.splits prod.splits)
  then have "bufferedBytes b' = bufferedBytes b + int (length (frame r))"
    by (auto simp: writeLocked_def rotateLocked_def write_last_def Let_def bufferedBytes_def
        split: if_splits option.splits prod.splits)
  then show ?thesis using ok(1-3) by (auto simp: fsHasRoomLocked_def split: option.splits)
qed

theorem append_bounded_witness:
  "\<exists>b' d'. append_iter sample_io (sample_rec 0) (fst (projr (newDiskBuffer sample_io 40 100 0 True False []))) [] =
      (AppDone None, b', d') \<and> bufferedBytes b' < 100 + int (length (frame (sample_rec 0)))"
proof -
  let ?b = "fst (projr (newDiskBuffer sample_io 40 100 0 True False []))"
  have "high ?b = 100" by (simp add: newDiskBuffer_def sample_io_def Let_def)
  moreover obtain b' d' where a: "append_iter sample_io (sample_rec 0) ?b [] = (AppDone None, b', d')"
    using append_accepts [of sample_io ?b "sample_rec 0" "[]"]
    by (auto simp: newDiskBuffer_def sample_io_def Let_def fsHasRoomLocked_def bufferedBytes_def io_ok_def)
  ultimately show ?thesis using append_bounded [OF a] by auto
qed

lemma adopt_single:
  assumes "io_ok io" "rl \<noteq> []" "list_all wf_rec rl" "is_segment (seg_name 0)"
  shows "\<exists>b. newDiskBuffer io segB hi resv dur True [(seg_name 0, frames rl)] = Inr (b, [(seg_name 0, frames rl)]) \<and>
    buf_rel b [(seg_name 0, frames rl)] rl \<and> segs b = [\<lparr>seg_path = seg_name 0, seg_size = int (length (frames rl))\<rparr>] \<and>
    ro b = 0 \<and> drainedB b = 0 \<and> drainedC b = 0 \<and> appended b = 0 \<and> adopted b"
proof -
  let ?d = "[(seg_name 0, frames rl)]"
  obtain b where b: "newDiskBuffer io segB hi resv dur True ?d = Inr (b, ?d)"
    "segs b = [\<lparr>seg_path = seg_name 0, seg_size = int (length (frames rl))\<rparr>]"
    "ro b = 0" "drainedB b = 0" "drainedC b = 0" "appended b = 0" "adopted b" "rs b = 0" "berr b = None" "\<not> closed b"
    "created b = 1" "written b = int (length (frames rl))"
    using assms(1,4) by (simp add: newDiskBuffer_def adopt_def io_ok_def Let_def)
  have "buf_rel b ?d rl"
    by (rule buf_relI [where rss = "[rl]" and dn = "[]"]) (use b assms(3) in \<open>auto simp: seg_holds_def buf_ok_def\<close>)
  then show ?thesis using b by blast
qed

lemma is_segment_first: "is_segment (seg_name 0)"
  by (simp add: is_segment_def seg_name_def has_suffix_def has_prefix_def)

text \<open>
  Crash recovery of a one-segment backlog: adopting the directory a crashed run left and scanning
  it reports the end position and the number of its records, and leaves a buffer that drains
  exactly those records, with exact counters.
\<close>

theorem adopt_tail_recovers_segment:
  assumes "io_ok io" "rl \<noteq> []" "list_all wf_rec rl"
  shows "\<exists>b b'. newDiskBuffer io segB hi resv dur True [(seg_name 0, frames rl)] = Inr (b, [(seg_name 0, frames rl)]) \<and>
    buf_tail io b [(seg_name 0, frames rl)] =
      Some (None, pbEnd (last rl), int (length rl), b', [(seg_name 0, frames rl)]) \<and>
    rel_pair (b', [(seg_name 0, frames rl)]) rl"
  using adopt_single [OF assms is_segment_first, of segB hi resv dur] tail_single_segment [OF _ _ assms(2,1)] by metis

theorem adopt_tail_recovers_segment_witness:
  "\<exists>b b'. newDiskBuffer sample_io 40 0 0 True True [(seg_name 0, frames [sample_rec 0, sample_rec 1])] =
      Inr (b, [(seg_name 0, frames [sample_rec 0, sample_rec 1])]) \<and>
    buf_tail sample_io b [(seg_name 0, frames [sample_rec 0, sample_rec 1])] =
      Some (None, pbEnd (last [sample_rec 0, sample_rec 1]), int (length [sample_rec 0, sample_rec 1]), b',
        [(seg_name 0, frames [sample_rec 0, sample_rec 1])]) \<and>
    rel_pair (b', [(seg_name 0, frames [sample_rec 0, sample_rec 1])]) [sample_rec 0, sample_rec 1]"
  by (rule adopt_tail_recovers_segment) simp_all

section \<open>Adopting several segments\<close>

declare tail_loop.simps [code]

definition two_segments :: dir where
  "two_segments = [(seg_name 0, frame (sample_rec 0)), (seg_name 1, frame (sample_rec 1))]"

definition torn_segment :: dir where
  "torn_segment = [(seg_name 0, frame (sample_rec 0) @ take 20 (frame (sample_rec 1)))]"

definition adopted_scan :: "dir \<Rightarrow> (buf_error option \<times> int \<times> int \<times> bufferRecord list) option" where
  "adopted_scan d =
     (case newDiskBuffer sample_io 40 0 0 True True d of
        Inl e \<Rightarrow> None
      | Inr (b, d1) \<Rightarrow>
          (case buf_tail sample_io b d1 of
             None \<Rightarrow> None
           | Some (e, l, c, b2, d2) \<Rightarrow>
               Some (e, c, fst (pending b2), fst (snd (nextLocked sample_io 10 b2 d2)))))"

text \<open>
  The scan that recovers a durable backlog drops every segment but the last: with one record in
  each of two segments it counts two records and reports two as pending, but the cursor it rewinds
  is that of the last segment, so the following drain returns only the second record.
\<close>

theorem tail_drops_older_segments:
  "adopted_scan two_segments = Some (None, 2, 2, [sample_rec 1])"
  by code_simp

text \<open>
  A torn trailing frame, which the scan is documented to ignore, makes it fail: a segment that
  ends inside its second frame yields a corrupt-length error after the first record.
\<close>

theorem tail_fails_on_torn_frame:
  "adopted_scan torn_segment = Some (Some ECorrupt, 0, -1, [])"
  by code_simp

end
