(* ===== verification/Runner.thy ===== *)
theory Runner
  imports Binlog Envelope Store Gate Backlog
begin

text \<open>
  The replication runner (\<^verbatim>\<open>internal/replica/runner.go\<close>): its state and the pieces of its goroutines
  that run without interruption, in particular the regions under \<^verbatim>\<open>r.mu\<close>. \<open>consume\<close> is its decoding
  and its locked decision, followed by an append or a send; \<open>Release\<close> is its locked check, a drain
  of the backlog and the handling of each record. How the goroutines interleave is in the theory
  of the handoff. Time and the results of system calls are arguments.
\<close>

section \<open>State\<close>

record Config =
  cfg_MasterHost :: bytes
  cfg_MasterPort :: int
  cfg_Password :: bytes
  cfg_DBName :: bytes
  cfg_LocalIP :: bytes
  cfg_LocalPort :: int
  cfg_SourceID :: bytes
  cfg_StartAt :: position
  cfg_AckEvery :: int
  cfg_Heartbeat :: int
  cfg_PendingBytesHigh :: int
  cfg_ReserveFreeBytes :: int
  cfg_BufferDurable :: bool

text \<open>The instrumentation hooks; a \<^verbatim>\<open>nil\<close> hook is \<^term>\<open>None\<close>.\<close>

record Metrics =
  EntriesReceived :: "int option"
  EventsEmitted :: "int option"
  DeliveredOffset :: "int option"
  SourceLagSeconds :: "int option"

record envelopeOrErr =
  item_ev :: Event
  item_pos :: position
  isPing :: bool

record Runner =
  cfg :: Config
  gate :: "GateCtl option"
  lastPos :: position
  hasPos :: bool
  buf :: "diskBuffer option"
  bufInflight :: int
  emitCh :: "envelopeOrErr list"
  accepted :: "64 word"
  delivered :: position
  hasDel :: bool
  deliveredCnt :: "64 word"
  sinkErr :: bool
  lastEmitAt :: int
  sid :: "32 word"
  sinkIsAsync :: bool
  ready :: bool
  firstUnacked :: position
  rstore :: Store
  rmetrics :: "Metrics option"
  disk :: dir

definition emit_cap :: nat where
  "emit_cap = 256"

definition NewRunner :: "Config \<Rightarrow> Store \<Rightarrow> Metrics option \<Rightarrow> dir \<Rightarrow> Runner" where
  "NewRunner c s m d =
     \<lparr>cfg = (if cfg_AckEvery c \<le> 0 then c\<lparr>cfg_AckEvery := 1000000000\<rparr> else c), gate = None, lastPos = zero_pos,
      hasPos = False, buf = None, bufInflight = 0, emitCh = [], accepted = 0, delivered = zero_pos, hasDel = False,
      deliveredCnt = 0, sinkErr = False, lastEmitAt = 0, sid = 0, sinkIsAsync = False, ready = False,
      firstUnacked = zero_pos, rstore = s, rmetrics = m, disk = d\<rparr>"

definition AttachGate :: "GateCtl \<Rightarrow> Runner \<Rightarrow> Runner" where
  "AttachGate g r = r\<lparr>gate := Some g\<rparr>"

section \<open>Events from binlog entries\<close>

definition entryEvent :: "Config \<Rightarrow> position \<Rightarrow> 64 word \<Rightarrow> bytes \<Rightarrow> bytes \<Rightarrow> bytes \<Rightarrow> bytes list \<Rightarrow> Event" where
  "entryEvent c ipos execSec cmd dt key argv =
     \<lparr>EvSchemaVersion = SchemaVersion, EvPhase = PhaseIncremental, EvOp = Classify cmd, EvDB = cfg_DBName c,
      EvType = dt, EvKey = key, EvCommand = cmd, EvArgs = argv,
      EvSource = \<lparr>SrcID = cfg_SourceID c, SrcDB = cfg_DBName c, SrcFilenum = Filenum ipos, SrcOffset = Offset ipos,
                  Seq = 0, ExecTimeSec = execSec\<rparr>\<rparr>"

text \<open>
  The decoding that \<open>consume\<close> and \<open>Release\<close> both perform: an undecodable or empty command is logged
  and skipped; a panic of the parser ends the process.
\<close>

datatype decoded = Skipped | Crashed | Decoded Item "bytes list"

definition decode_entry :: "bytes \<Rightarrow> decoded" where
  "decode_entry b =
     (case DecodeTypeFirst b of
        Inl e \<Rightarrow> Skipped
      | Inr it \<Rightarrow>
          (case ParseArray (Content it) of
             Error e \<Rightarrow> Skipped
           | Panic \<Rightarrow> Crashed
           | Ok argv \<Rightarrow> if argv = [] then Skipped else Decoded it argv))"

definition argv_key :: "bytes list \<Rightarrow> bytes" where
  "argv_key argv = (if length argv > 1 then argv ! 1 else [])"

definition argv_event :: "Config \<Rightarrow> position \<Rightarrow> 32 word \<Rightarrow> bytes list \<Rightarrow> Event" where
  "argv_event c ipos exec argv =
     entryEvent c ipos (ucast exec) (argv ! 0) (CommandDataType (argv ! 0)) (argv_key argv) argv"

section \<open>Receiving\<close>

definition newBufferLocked :: "io \<Rightarrow> Runner \<Rightarrow> buf_error + Runner" where
  "newBufferLocked io r =
     (let hi = cfg_PendingBytesHigh (cfg r); hi' = (if hi \<le> 0 then 8 * 2 ^ 30 else hi);
          rv = cfg_ReserveFreeBytes (cfg r); rv' = (if rv \<le> 0 then 4 * 2 ^ 30 else rv);
          dur = cfg_BufferDurable (cfg r)
      in case newDiskBuffer io (64 * 2 ^ 20) hi' rv' dur dur (disk r) of
           Inl e \<Rightarrow> Inl e
         | Inr (b, d) \<Rightarrow> Inr (r\<lparr>buf := Some b, disk := d\<rparr>))"

definition count_entry :: "int \<Rightarrow> 32 word \<Rightarrow> Metrics \<Rightarrow> Metrics" where
  "count_entry now exec m =
     m\<lparr>EntriesReceived := map_option (\<lambda>n. n + 1) (EntriesReceived m),
       SourceLagSeconds := (if exec > 0 then map_option (\<lambda>_. max 0 (now - uint exec)) (SourceLagSeconds m)
                            else SourceLagSeconds m)\<rparr>"

definition account :: "int \<Rightarrow> position \<Rightarrow> 32 word \<Rightarrow> Runner \<Rightarrow> Runner" where
  "account now pos exec r =
     r\<lparr>lastPos := pos, hasPos := True, accepted := accepted r + 1,
       firstUnacked := (if IsZero (firstUnacked r) then pos else firstUnacked r),
       rmetrics := map_option (count_entry now exec) (rmetrics r)\<rparr>"

text \<open>The backlog record of a received entry: its sync-window position, its identity and its bytes.\<close>

definition entry_record :: "bytes \<Rightarrow> position \<Rightarrow> Item \<Rightarrow> bufferRecord" where
  "entry_record b pbOff it =
     (let ipos = \<lparr>Filenum = ItemFilenum it, Offset = ItemOffset it\<rparr>;
          pos = (if IsZero pbOff then ipos else pbOff)
      in \<lparr>pbEnd = pos, itemPos = ipos, recExecTime = ExecTime it, raw = b\<rparr>)"

datatype consume_action = CSkip | CPanic | CDrop bufferRecord | CEmit bufferRecord envelopeOrErr
  | CBuffer bufferRecord | CFail bufferRecord buf_error

text \<open>
  \<open>consume\<close> up to the end of its locked region: skip the entry, drop it, send it, or append it to
  the backlog (which is created on first use and whose slot is claimed here).
\<close>

definition gate_action :: "GateCtl option \<Rightarrow> position \<Rightarrow> nat" where
  "gate_action g pos =
     (case g of None \<Rightarrow> 1 | Some gc \<Rightarrow> if Drop gc pos then 0 else if ShouldEmitNow gc pos then 1 else 2)"

definition consume :: "int \<Rightarrow> io \<Rightarrow> bytes \<Rightarrow> position \<Rightarrow> Runner \<Rightarrow> consume_action \<times> Runner" where
  "consume now io b pbOff r =
     (if b = [] then (CSkip, r)
      else case decode_entry b of
             Skipped \<Rightarrow> (CSkip, r)
           | Crashed \<Rightarrow> (CPanic, r)
           | Decoded it argv \<Rightarrow>
               let rec = entry_record b pbOff it;
                   r1 = account now (pbEnd rec) (ExecTime it) r;
                   a = gate_action (gate r1) (pbEnd rec)
               in if a = 0 then (CDrop rec, r1)
                  else if a = 1 then
                    (CEmit rec \<lparr>item_ev = argv_event (cfg r1) (itemPos rec) (ExecTime it) argv,
                                item_pos = pbEnd rec, isPing = False\<rparr>, r1)
                  else case (if buf r1 = None then newBufferLocked io r1 else Inr r1) of
                         Inl e \<Rightarrow> (CFail rec e, r1)
                       | Inr r2 \<Rightarrow> (CBuffer rec, r2\<lparr>bufInflight := bufInflight r2 + 1\<rparr>))"

definition append_done :: "Runner \<Rightarrow> Runner" where
  "append_done r = r\<lparr>bufInflight := bufInflight r - 1\<rparr>"

section \<open>Handing over\<close>

definition rRequestOpenAt :: "position \<Rightarrow> Runner \<Rightarrow> Runner" where
  "rRequestOpenAt h r = r\<lparr>gate := map_option (RequestOpenAt h) (gate r)\<rparr>"

definition Inject :: "Event \<Rightarrow> Runner \<Rightarrow> Runner" where
  "Inject ev r = r\<lparr>emitCh := emitCh r @ [\<lparr>item_ev = ev, item_pos = zero_pos, isPing = False\<rparr>]\<rparr>"

text \<open>The locked check of \<open>Release\<close>: the pending count, and whether the gate opens now.\<close>

definition release_count :: "Runner \<Rightarrow> int" where
  "release_count r = (case buf r of None \<Rightarrow> 0 | Some b \<Rightarrow> fst (pending b))"

definition release_ready :: "Runner \<Rightarrow> bool" where
  "release_ready r \<longleftrightarrow> release_count r \<le> 0 \<and> bufInflight r = 0"

definition release_open :: "Runner \<Rightarrow> Runner" where
  "release_open r = r\<lparr>gate := map_option gate_Release (gate r)\<rparr>"

definition release_discard :: "Runner \<Rightarrow> Runner" where
  "release_discard r =
     (case buf r of None \<Rightarrow> r | Some b \<Rightarrow> r\<lparr>buf := None, disk := snd (buf_discard b (disk r))\<rparr>)"

datatype drain_action = DDrop | DSkip | DPanic | DPush envelopeOrErr

definition drain_record :: "Config \<Rightarrow> GateCtl option \<Rightarrow> bufferRecord \<Rightarrow> drain_action" where
  "drain_record c g rec =
     (if (case g of None \<Rightarrow> False | Some gc \<Rightarrow> Drop gc (pbEnd rec)) then DDrop
      else case decode_entry (raw rec) of
             Skipped \<Rightarrow> DSkip
           | Crashed \<Rightarrow> DPanic
           | Decoded it argv \<Rightarrow>
               DPush \<lparr>item_ev = argv_event c (itemPos rec) (recExecTime rec) argv, item_pos = pbEnd rec, isPing = False\<rparr>)"

definition PrepareBacklog :: "io \<Rightarrow> Runner \<Rightarrow> (buf_error option \<times> position \<times> int \<times> Runner) option" where
  "PrepareBacklog io r =
     (case (if buf r = None then newBufferLocked io r else Inr r) of
        Inl e \<Rightarrow> Some (Some e, zero_pos, 0, r)
      | Inr r1 \<Rightarrow>
          (case buf r1 of
             None \<Rightarrow> None
           | Some b \<Rightarrow>
               (case buf_tail io b (disk r1) of
                  None \<Rightarrow> None
                | Some (e, l, n, b', d') \<Rightarrow> Some (e, l, n, r1\<lparr>buf := Some b', disk := d'\<rparr>))))"

definition Shutdown :: "Runner \<Rightarrow> Runner" where
  "Shutdown r = (case buf r of None \<Rightarrow> r | Some b \<Rightarrow> r\<lparr>buf := None, disk := snd (buf_close b (disk r))\<rparr>)"

section \<open>Emitting\<close>

text \<open>\<open>markEmitted\<close> up to its unlock, with whether it then flushes the checkpoint.\<close>

definition count_emitted :: "position \<Rightarrow> Metrics \<Rightarrow> Metrics" where
  "count_emitted pos m =
     m\<lparr>EventsEmitted := map_option (\<lambda>n. n + 1) (EventsEmitted m),
       DeliveredOffset := (if IsZero pos then DeliveredOffset m else map_option (\<lambda>_. sint (Offset pos)) (DeliveredOffset m))\<rparr>"

definition markEmitted :: "int \<Rightarrow> envelopeOrErr \<Rightarrow> Runner \<Rightarrow> Runner \<times> bool" where
  "markEmitted now item r =
     (let r1 = r\<lparr>lastEmitAt := now\<rparr>;
          r2 = (if \<not> IsZero (item_pos item) \<and> \<not> sinkIsAsync r1
                then r1\<lparr>delivered := item_pos item, hasDel := True,
                        rstore := SetDelivered (Filenum (item_pos item)) (Offset (item_pos item)) (rstore r1)\<rparr>
                else r1);
          r3 = r2\<lparr>rmetrics := map_option (count_emitted (item_pos item)) (rmetrics r2)\<rparr>;
          maybe = deliveredCnt r3
      in (r3\<lparr>deliveredCnt := deliveredCnt r3 + 1\<rparr>, \<not> isPing item \<and> unat maybe mod 200 = 0))"

definition markSinkError :: "Runner \<Rightarrow> Runner" where
  "markSinkError r = r\<lparr>sinkErr := True\<rparr>"

text \<open>The notifier an asynchronous sink calls with the acknowledged prefix.\<close>

definition deliveryNotifier :: "position \<Rightarrow> Runner \<Rightarrow> Runner \<times> bool" where
  "deliveryNotifier pos r =
     (let r1 = (if \<not> IsZero pos \<and> (Filenum pos > Filenum (delivered r) \<or>
                    (Filenum pos = Filenum (delivered r) \<and> Offset pos > Offset (delivered r)))
                then r\<lparr>delivered := pos, hasDel := True, rstore := SetDelivered (Filenum pos) (Offset pos) (rstore r),
                       deliveredCnt := deliveredCnt r + 1\<rparr>
                else r)
      in (r1, unat (deliveredCnt r1) mod 200 = 0))"

text \<open>The heartbeat of an idle session; the send does not block on a full queue.\<close>

definition onIdle :: "int \<Rightarrow> Runner \<Rightarrow> Runner" where
  "onIdle now r =
     (let open_gate = (case gate r of None \<Rightarrow> False | Some g \<Rightarrow> gate_State g = stateOpen);
          beat = (cfg_Heartbeat (cfg r) > 0 \<and> open_gate \<and> \<not> now - lastEmitAt r < cfg_Heartbeat (cfg r));
          ev = \<lparr>EvSchemaVersion = SchemaVersion, EvPhase = PhaseHeartbeat, EvOp = OpHeartbeat, EvDB = cfg_DBName (cfg r),
                EvType = ''none'', EvKey = [], EvCommand = [], EvArgs = [],
                EvSource = \<lparr>SrcID = cfg_SourceID (cfg r), SrcDB = cfg_DBName (cfg r), SrcFilenum = Filenum (lastPos r),
                            SrcOffset = Offset (lastPos r), Seq = 0, ExecTimeSec = 0\<rparr>\<rparr>
      in if beat \<and> length (emitCh r) < emit_cap
         then r\<lparr>emitCh := emitCh r @ [\<lparr>item_ev = ev, item_pos = zero_pos, isPing = True\<rparr>]\<rparr>
         else r)"

end
