(* ===== verification/Handoff.thy ===== *)
theory Handoff
  imports Runner
begin

text \<open>
  The handoff from the snapshot to the binlog stream: the interleaving of the receive loop
  (\<open>consume\<close>), the goroutine that injects the snapshot and calls \<open>Release\<close>, and the emit loop, as a
  step relation. Every step is a region the code runs under \<^verbatim>\<open>r.mu\<close> or the buffer's lock, a send or
  receive on \<^verbatim>\<open>emitCh\<close>, or a call of the sink; contexts may be cancelled, writes, reads and fsyncs
  may fail, and the sink may fail at every point. Ghost components record the entries accepted
  from the master (\<open>received\<close>) and the events the sink took (\<open>sunk\<close>).
\<close>

section \<open>The system\<close>

datatype rpc = RIdle | RAppend bufferRecord | RDec bool | RSend bufferRecord envelopeOrErr | RFail

datatype lpc = LIdle | LCheck | LNext | LPush "bufferRecord list" | LDiscard | LDone | LErr "bufferRecord list"

datatype epc = EIdle | EEmit envelopeOrErr | EMark envelopeOrErr | EFlush | EStopped "envelopeOrErr list"

record sys =
  rnr :: Runner
  rcv :: rpc
  rls :: lpc
  emi :: epc
  received :: "bufferRecord list"
  sunk :: "envelopeOrErr list"
  cpfiles :: files

fun after_consume :: "consume_action \<Rightarrow> rpc" where
  "after_consume CSkip = RIdle"
| "after_consume CPanic = RFail"
| "after_consume (CDrop rec) = RIdle"
| "after_consume (CEmit rec item) = RSend rec item"
| "after_consume (CBuffer rec) = RAppend rec"
| "after_consume (CFail rec e) = RFail"

fun consumed :: "consume_action \<Rightarrow> bufferRecord list" where
  "consumed CSkip = []"
| "consumed CPanic = []"
| "consumed (CDrop rec) = [rec]"
| "consumed (CEmit rec item) = [rec]"
| "consumed (CBuffer rec) = [rec]"
| "consumed (CFail rec e) = [rec]"

fun after_append :: "bufferRecord \<Rightarrow> append_result \<Rightarrow> rpc" where
  "after_append rec AppWait = RAppend rec"
| "after_append rec (AppDone None) = RDec True"
| "after_append rec (AppDone (Some e)) = RDec False"

definition put_ch :: "envelopeOrErr \<Rightarrow> Runner \<Rightarrow> Runner" where
  "put_ch item r = r\<lparr>emitCh := emitCh r @ [item]\<rparr>"

definition room :: "Runner \<Rightarrow> bool" where
  "room r \<longleftrightarrow> length (emitCh r) < emit_cap"

text \<open>
  The steps. The caller's protocol is that of the application: one anchor, set before \<open>Release\<close>;
  the snapshot injected before \<open>Release\<close> by the same goroutine. A first snapshot records the anchor
  in the checkpoint as it sets it (\<open>anchor_at\<close>), a resumed one has it there already (\<open>open_at\<close>). An entry fits in a message, whose
  length is a \<^verbatim>\<open>uint32\<close>.
\<close>

inductive step :: "(State \<Rightarrow> bytes option) \<Rightarrow> sys \<Rightarrow> sys \<Rightarrow> bool" for marshal where
  recv: "rcv s = RIdle \<Longrightarrow> 28 + length b < 2 ^ 32 \<Longrightarrow> consume now io b pbOff (rnr s) = (act, r') \<Longrightarrow>
    step marshal s (s\<lparr>rnr := r', rcv := after_consume act, received := received s @ consumed act\<rparr>)"
| append: "rcv s = RAppend rec \<Longrightarrow> buf (rnr s) = Some b \<Longrightarrow> append_iter io rec b (disk (rnr s)) = (res, b', d') \<Longrightarrow>
    step marshal s (s\<lparr>rnr := (rnr s)\<lparr>buf := Some b', disk := d'\<rparr>, rcv := after_append rec res\<rparr>)"
| append_cancelled: "rcv s = RAppend rec \<Longrightarrow> step marshal s (s\<lparr>rcv := RDec False\<rparr>)"
| append_finish: "rcv s = RDec ok \<Longrightarrow>
    step marshal s (s\<lparr>rnr := append_done (rnr s), rcv := (if ok then RIdle else RFail)\<rparr>)"
| send: "rcv s = RSend rec item \<Longrightarrow> room (rnr s) \<Longrightarrow>
    step marshal s (s\<lparr>rnr := put_ch item (rnr s), rcv := RIdle\<rparr>)"
| send_cancelled: "rcv s = RSend rec item \<Longrightarrow> step marshal s (s\<lparr>rcv := RFail\<rparr>)"
| idle: "rcv s = RIdle \<Longrightarrow> step marshal s (s\<lparr>rnr := onIdle now (rnr s)\<rparr>)"
| acked: "rcv s = RIdle \<Longrightarrow> step marshal s (s\<lparr>rnr := (rnr s)\<lparr>firstUnacked := zero_pos\<rparr>\<rparr>)"
| open_at: "rls s = LIdle \<Longrightarrow> gate (rnr s) = Some g \<Longrightarrow> \<not> gate_hSet g \<Longrightarrow>
    step marshal s (s\<lparr>rnr := rRequestOpenAt h (rnr s)\<rparr>)"
| anchor_at: "rls s = LIdle \<Longrightarrow> gate (rnr s) = Some g \<Longrightarrow> \<not> gate_hSet g \<Longrightarrow>
    step marshal s (s\<lparr>rnr := rRequestOpenAt h ((rnr s)\<lparr>rstore := SetDelivered (Filenum h) (Offset h) (rstore (rnr s))\<rparr>)\<rparr>)"
| inject: "rls s = LIdle \<Longrightarrow> EvPhase ev = PhaseSnapshot \<Longrightarrow> room (rnr s) \<Longrightarrow>
    step marshal s (s\<lparr>rnr := Inject ev (rnr s)\<rparr>)"
| release: "rls s = LIdle \<Longrightarrow> gate (rnr s) = Some g \<Longrightarrow> gate_hSet g \<Longrightarrow> step marshal s (s\<lparr>rls := LCheck\<rparr>)"
| check_open: "rls s = LCheck \<Longrightarrow> release_ready (rnr s) \<Longrightarrow>
    step marshal s (s\<lparr>rnr := release_open (rnr s), rls := (if buf (rnr s) = None then LDone else LDiscard)\<rparr>)"
| check_more: "rls s = LCheck \<Longrightarrow> \<not> release_ready (rnr s) \<Longrightarrow>
    step marshal s (s\<lparr>rls := (if buf (rnr s) = None then LCheck else LNext)\<rparr>)"
| discard: "rls s = LDiscard \<Longrightarrow> step marshal s (s\<lparr>rnr := release_discard (rnr s), rls := LDone\<rparr>)"
| drain: "rls s = LNext \<Longrightarrow> buf (rnr s) = Some b \<Longrightarrow> buf_next io 256 b (disk (rnr s)) = (err, recs, b', d') \<Longrightarrow>
    step marshal s (s\<lparr>rnr := (rnr s)\<lparr>buf := Some b', disk := d'\<rparr>,
      rls := (if err \<noteq> None then LErr [] else if recs = [] then LCheck else LPush recs)\<rparr>)"
| push: "rls s = LPush (rec # recs) \<Longrightarrow> drain_record (cfg (rnr s)) (gate (rnr s)) rec = DPush item \<Longrightarrow> room (rnr s) \<Longrightarrow>
    step marshal s (s\<lparr>rnr := put_ch item (rnr s), rls := LPush recs\<rparr>)"
| skip: "rls s = LPush (rec # recs) \<Longrightarrow> drain_record (cfg (rnr s)) (gate (rnr s)) rec \<in> {DDrop, DSkip} \<Longrightarrow>
    step marshal s (s\<lparr>rls := LPush recs\<rparr>)"
| push_done: "rls s = LPush [] \<Longrightarrow> step marshal s (s\<lparr>rls := LCheck\<rparr>)"
| push_stuck: "rls s = LPush recs \<Longrightarrow> step marshal s (s\<lparr>rls := LErr recs\<rparr>)"
| emit: "emi s = EIdle \<Longrightarrow> emitCh (rnr s) = item # rest \<Longrightarrow>
    step marshal s (s\<lparr>rnr := (rnr s)\<lparr>emitCh := rest\<rparr>, emi := EEmit item\<rparr>)"
| emit_ok: "emi s = EEmit item \<Longrightarrow> step marshal s (s\<lparr>emi := EMark item, sunk := sunk s @ [item]\<rparr>)"
| emit_err: "emi s = EEmit item \<Longrightarrow> step marshal s (s\<lparr>rnr := markSinkError (rnr s), emi := EStopped [item]\<rparr>)"
| mark: "emi s = EMark item \<Longrightarrow> markEmitted now item (rnr s) = (r', fl) \<Longrightarrow>
    step marshal s (s\<lparr>rnr := r', emi := (if fl then EFlush else EIdle)\<rparr>)"
| flush: "emi s = EFlush \<Longrightarrow> Flush marshal fails k (rstore (rnr s)) (cpfiles s) = (e, st', fs') \<Longrightarrow>
    step marshal s (s\<lparr>rnr := (rnr s)\<lparr>rstore := st'\<rparr>, cpfiles := fs', emi := EIdle\<rparr>)"
| emit_cancelled: "emi s = EIdle \<Longrightarrow> step marshal s (s\<lparr>emi := EStopped []\<rparr>)"
| notify: "sinkIsAsync (rnr s) \<Longrightarrow> item \<in> set (sunk s) \<Longrightarrow> deliveryNotifier (item_pos item) (rnr s) = (r', fl) \<Longrightarrow>
    step marshal s (s\<lparr>rnr := r'\<rparr>)"

definition start :: "Runner \<Rightarrow> files \<Rightarrow> sys" where
  "start r fs = \<lparr>rnr = r, rcv = RIdle, rls = LIdle, emi = EIdle, received = [], sunk = [], cpfiles = fs\<rparr>"

inductive reach :: "(State \<Rightarrow> bytes option) \<Rightarrow> sys \<Rightarrow> sys \<Rightarrow> bool" for marshal s0 where
  reach_start: "reach marshal s0 s0"
| reach_step: "reach marshal s0 s \<Longrightarrow> step marshal s t \<Longrightarrow> reach marshal s0 t"

section \<open>What should be delivered\<close>

text \<open>
  The incremental items a log of received entries calls for: every entry beyond the anchor, in
  the order received, as the event built from it.
\<close>

definition rec_items :: "Config \<Rightarrow> GateCtl \<Rightarrow> bufferRecord \<Rightarrow> envelopeOrErr list" where
  "rec_items c g rec =
     (if gate_hSet g \<and> pbEnd rec \<le> gate_h g then []
      else case decode_entry (raw rec) of
             Decoded it argv \<Rightarrow>
               [\<lparr>item_ev = argv_event c (itemPos rec) (recExecTime rec) argv, item_pos = pbEnd rec, isPing = False\<rparr>]
           | _ \<Rightarrow> [])"

lemma rec_items_alt: "rec_items c g rec = (case drain_record c (Some g) rec of DPush item \<Rightarrow> [item] | _ \<Rightarrow> [])"
  by (cases "gate_hSet g") (simp_all add: rec_items_def drain_record_def Drop_iff Drop_unset split: decoded.split)

definition log_items :: "Config \<Rightarrow> GateCtl \<Rightarrow> bufferRecord list \<Rightarrow> envelopeOrErr list" where
  "log_items c g recs = concat (map (rec_items c g) recs)"

definition is_incr :: "envelopeOrErr \<Rightarrow> bool" where
  "is_incr item \<longleftrightarrow> EvPhase (item_ev item) = PhaseIncremental"

lemma log_items_simps [simp]:
  "log_items c g [] = []" "log_items c g (x # xs) = rec_items c g x @ log_items c g xs"
  "log_items c g (xs @ ys) = log_items c g xs @ log_items c g ys"
  by (simp_all add: log_items_def)

lemma log_items_split: "log_items c g (take n q) @ log_items c g (drop n q) @ xs = log_items c g q @ xs"
  by (metis append.assoc append_take_drop_id log_items_simps(3))

fun in_rcv :: "rpc \<Rightarrow> bufferRecord list" where
  "in_rcv (RAppend rec) = [rec]"
| "in_rcv (RSend rec item) = [rec]"
| "in_rcv _ = []"

fun in_rls :: "lpc \<Rightarrow> bufferRecord list" where
  "in_rls (LPush recs) = recs"
| "in_rls (LErr recs) = recs"
| "in_rls _ = []"

fun in_emi :: "epc \<Rightarrow> envelopeOrErr list" where
  "in_emi (EEmit item) = [item]"
| "in_emi (EStopped items) = items"
| "in_emi _ = []"

definition outgoing :: "sys \<Rightarrow> envelopeOrErr list" where
  "outgoing s = filter is_incr (sunk s @ in_emi (emi s) @ emitCh (rnr s))"

section \<open>The backlog under faults\<close>

text \<open>A buffer whose last failure, if any, was sticky still has an exact record count.\<close>

definition buf_inv :: "diskBuffer \<Rightarrow> dir \<Rightarrow> bufferRecord list \<Rightarrow> bool" where
  "buf_inv b d q \<longleftrightarrow> (berr b = None \<longrightarrow> rel_pair (b, d) q) \<and> fst (pending b) = int (length q)"

lemma rel_pair_inv: "rel_pair (b, d) q \<Longrightarrow> buf_inv b d q"
  using db.cnt_law [of "(b, d)" q] by (simp add: buf_inv_def buf_count_def)

lemma rel_pair_blocked: "rel_pair (b\<lparr>blocked := v\<rparr>, d) q \<longleftrightarrow> rel_pair (b, d) q"
  by (simp add: rel_pair_def buf_rel_def buf_ok_def)

lemma rel_pair_created:
  assumes "rel_pair (b, d) q"
  shows "rel_pair (b\<lparr>created := Suc (created b)\<rparr>, d) q"
proof -
  have "buf_ok (b\<lparr>created := Suc (created b)\<rparr>)"
    using assms by (force simp: rel_pair_def buf_rel_def buf_ok_def less_Suc_eq)
  then show ?thesis using assms by (auto simp: rel_pair_def buf_rel_def)
qed

lemma write_last_fault:
  assumes "write_last io fr b d = (Some e, b', d')"
  shows "berr b' \<noteq> None \<and> fst (pending b') \<in> {fst (pending b), fst (pending b) + 1}"
  using assms by (auto simp: write_last_def Let_def pending_def split: if_splits option.splits)

lemma writeLocked_fault:
  assumes "writeLocked io fr b d = (Some e, b', d')"
  shows "(b' = b\<lparr>created := Suc (created b)\<rparr> \<and> d' = d) \<or>
    (berr b' \<noteq> None \<and> fst (pending b') \<in> {fst (pending b), fst (pending b) + 1})"
proof (cases "needs_rotate b fr")
  case False
  then show ?thesis using assms write_last_fault by (auto simp: writeLocked_def)
next
  case True
  show ?thesis
  proof (cases "open_ok io (seg_name (created b))")
    case False
    then show ?thesis using True assms by (auto simp: writeLocked_def rotateLocked_def Let_def)
  next
    case ok: True
    let ?b = "b\<lparr>created := created b + 1, segs := segs b @ [\<lparr>seg_path = seg_name (created b), seg_size = 0\<rparr>]\<rparr>"
    have "write_last io fr ?b (AList.update (seg_name (created b)) [] d) = (Some e, b', d')"
      using True ok assms by (simp add: writeLocked_def rotateLocked_def Let_def)
    from write_last_fault [OF this] show ?thesis by (simp add: pending_def)
  qed
qed

lemma append_iter_cases:
  assumes "append_iter io rec b d = (res, b', d')"
  shows "(berr b \<noteq> None \<and> res = AppDone (berr b) \<and> b' = b \<and> d' = d) \<or>
    (closed b \<and> b' = b \<and> d' = d \<and> res = AppDone (Some EClosed)) \<or>
    (berr b = None \<and> res = AppWait) \<or>
    (berr b = None \<and> (\<exists>e. res = AppDone e \<and> writeLocked io (frame rec) (b\<lparr>blocked := False\<rparr>) d = (e, b', d')))"
  using assms by (auto simp: append_iter_def Let_def split: if_splits option.splits prod.splits)

lemma buf_inv_append:
  assumes "buf_inv b d q" "wf_rec rec" "append_iter io rec b d = (res, b', d')"
  shows "res = AppWait \<Longrightarrow> buf_inv b' d' q" and "res = AppDone None \<Longrightarrow> buf_inv b' d' (q @ [rec])"
    and "res = AppDone (Some e) \<Longrightarrow> buf_inv b' d' q \<or> buf_inv b' d' (q @ [rec])"
proof -
  note cs = append_iter_cases [OF assms(3)] and ad = append_iter_adopted [OF assms(3)]
  have rel: "rel_pair (b, d) q" if "berr b = None" using assms(1) that by (simp add: buf_inv_def)
  show "buf_inv b' d' q" if "res = AppWait"
    using append_iter_rel(2) [of b d q rec io b' d'] rel ad cs assms(2,3) that
    by (auto simp: rel_pair_def intro!: rel_pair_inv)
  show "buf_inv b' d' (q @ [rec])" if "res = AppDone None"
    using append_iter_rel(1) [of b d q rec io b' d'] rel ad cs assms(2,3) that
    by (auto simp: rel_pair_def intro!: rel_pair_inv)
  show "buf_inv b' d' q \<or> buf_inv b' d' (q @ [rec])" if "res = AppDone (Some e)"
  proof (cases "b' = b \<and> d' = d")
    case True
    then show ?thesis using assms(1) by simp
  next
    case False
    then have n: "berr b = None" and w: "writeLocked io (frame rec) (b\<lparr>blocked := False\<rparr>) d = (Some e, b', d')"
      using cs that by auto
    have r: "rel_pair (b\<lparr>blocked := False\<rparr>, d) q" and p: "fst (pending (b\<lparr>blocked := False\<rparr>)) = int (length q)"
      using rel [OF n] assms(1) by (auto simp: rel_pair_blocked buf_inv_def pending_def)
    from writeLocked_fault [OF w] show ?thesis
    proof
      assume "b' = b\<lparr>blocked := False, created := Suc (created (b\<lparr>blocked := False\<rparr>))\<rparr> \<and> d' = d"
      then show ?thesis using rel_pair_inv [OF rel_pair_created [OF r]] by simp
    next
      assume "berr b' \<noteq> None \<and> fst (pending b') \<in> {fst (pending (b\<lparr>blocked := False\<rparr>)), fst (pending (b\<lparr>blocked := False\<rparr>)) + 1}"
      then show ?thesis using p by (auto simp: buf_inv_def)
    qed
  qed
qed

lemma fresh_rel_keep:
  assumes "newDiskBuffer io segB hi resv dur kp d0 = Inr (b, d)" "kp \<longrightarrow> d0 = []"
  shows "rel_pair (b, d) []"
proof (cases kp)
  case True
  then have "newDiskBuffer io segB hi resv dur True [] = Inr (b, d)" using assms by simp
  then have "d = []" "segs b = []" "rs b = 0" "ro b = 0" "berr b = None" "\<not> closed b" "\<not> adopted b"
    "appended b = 0" "drainedC b = 0" "written b = 0" "drainedB b = 0"
    by (auto simp: newDiskBuffer_def adopt_def Let_def split: if_splits)
  then show ?thesis by (auto simp: rel_pair_def buf_rel_def buf_ok_def)
next
  case False
  then show ?thesis using fresh_rel assms by simp
qed

section \<open>The invariant\<close>

fun failing :: "rpc \<Rightarrow> bool" where
  "failing RFail = True"
| "failing (RDec ok) = (\<not> ok)"
| "failing _ = False"

fun inflight :: "rpc \<Rightarrow> int" where
  "inflight (RAppend rec) = 1"
| "inflight (RDec ok) = 1"
| "inflight _ = 0"

fun released :: "lpc \<Rightarrow> bool" where
  "released LDiscard = True"
| "released LDone = True"
| "released _ = False"

fun dead :: "lpc \<Rightarrow> bool" where
  "dead (LErr recs) = True"
| "dead _ = False"

text \<open>The receiver's own position in the protocol.\<close>

fun rcv_ok :: "Config \<Rightarrow> GateCtl \<Rightarrow> bool \<Rightarrow> rpc \<Rightarrow> bool" where
  "rcv_ok c g has_buf (RAppend rec) \<longleftrightarrow> wf_rec rec \<and> has_buf \<and> gate_state g = stateBuffering"
| "rcv_ok c g has_buf (RDec ok) \<longleftrightarrow> has_buf \<and> gate_state g = stateBuffering"
| "rcv_ok c g has_buf (RSend rec item) \<longleftrightarrow> rec_items c g rec = [item] \<and> gate_state g = stateOpen"
| "rcv_ok c g has_buf _ \<longleftrightarrow> True"

text \<open>
  \<open>q\<close> is the backlog and \<open>lost\<close> what a receiver that has ended left unsent: what the sink took or will
  take, then what is still to be pushed, is what the received entries call for.
\<close>

definition inv_at :: "Config \<Rightarrow> GateCtl \<Rightarrow> bufferRecord list \<Rightarrow> bufferRecord list \<Rightarrow> sys \<Rightarrow> bool" where
  "inv_at c g q lost s \<longleftrightarrow>
     cfg (rnr s) = c \<and> gate (rnr s) = Some g \<and>
     outgoing s @ log_items c g (in_rls (rls s) @ q @ in_rcv (rcv s) @ lost) = log_items c g (received s) \<and>
     (failing (rcv s) \<or> lost = []) \<and>
     (\<not> gate_hSet g \<longrightarrow> rls s = LIdle \<and> received s = q @ in_rcv (rcv s) @ lost) \<and>
     (rls s = LIdle \<longrightarrow> outgoing s = []) \<and>
     (gate_state g = stateOpen \<longleftrightarrow> released (rls s)) \<and>
     (released (rls s) \<longrightarrow> q = []) \<and>
     bufInflight (rnr s) = inflight (rcv s) \<and>
     rcv_ok c g (buf (rnr s) \<noteq> None) (rcv s) \<and>
     (gate_state g = stateBuffering \<longrightarrow>
        (case buf (rnr s) of
           None \<Rightarrow> q = [] \<and> (cfg_BufferDurable c \<longrightarrow> disk (rnr s) = [])
         | Some b \<Rightarrow> dead (rls s) \<or> buf_inv b (disk (rnr s)) q))"

definition inv :: "Config \<Rightarrow> sys \<Rightarrow> bool" where
  "inv c s \<longleftrightarrow> (\<exists>g q lost. inv_at c g q lost s)"

definition same_core :: "Runner \<Rightarrow> Runner \<Rightarrow> bool" where
  "same_core r r' \<longleftrightarrow> cfg r' = cfg r \<and> gate r' = gate r \<and> emitCh r' = emitCh r \<and> buf r' = buf r \<and> disk r' = disk r \<and>
     bufInflight r' = bufInflight r"

lemma account_core: "same_core r (account now pos exec r)"
  by (simp add: same_core_def account_def)

lemma entry_record_simps [simp]: "raw (entry_record b p it) = b" "recExecTime (entry_record b p it) = ExecTime it"
  by (simp_all add: entry_record_def Let_def)

lemma newBufferLocked_core:
  assumes "newBufferLocked io r = Inr r'" "cfg_BufferDurable (cfg r) \<longrightarrow> disk r = []"
  shows "cfg r' = cfg r \<and> gate r' = gate r \<and> emitCh r' = emitCh r \<and> bufInflight r' = bufInflight r \<and>
    (\<exists>b. buf r' = Some b \<and> rel_pair (b, disk r') [])"
  using assms fresh_rel_keep unfolding newBufferLocked_def Let_def
  by (fastforce split: sum.splits prod.splits)

text \<open>What \<open>consume\<close> decides, behind a gate.\<close>

lemma consume_behind_gate:
  assumes c: "consume now io b pbOff r = (act, r')" and g: "gate r = Some g"
  obtains (none) "act = CSkip \<or> act = CPanic" "r' = r"
  | (drop) rec where "act = CDrop rec" "same_core r r'" "rec_items (cfg r) g rec = []" "gate_hSet g"
  | (emit) rec item where "act = CEmit rec item" "same_core r r'" "rec_items (cfg r) g rec = [item]" "gate_state g = stateOpen"
  | (fail) rec e where "act = CFail rec e" "same_core r r'" "\<not> (gate_hSet g \<and> gate_state g = stateOpen)"
  | (buffer) rec r1 r2 where "act = CBuffer rec" "raw rec = b" "same_core r r1" "\<not> (gate_hSet g \<and> gate_state g = stateOpen)"
      "(buf r \<noteq> None \<and> r2 = r1) \<or> (buf r = None \<and> newBufferLocked io r1 = Inr r2)"
      "r' = r2\<lparr>bufInflight := bufInflight r2 + 1\<rparr>"
proof (cases "b = [] \<or> (\<forall>it argv. decode_entry b \<noteq> Decoded it argv)")
  case True
  then show thesis using c none by (auto simp: consume_def split: decoded.splits if_splits)
next
  case False
  then obtain it argv where d: "b \<noteq> []" "decode_entry b = Decoded it argv" by blast
  define rec where "rec = entry_record b pbOff it"
  define r1 where "r1 = account now (pbEnd rec) (ExecTime it) r"
  have core: "same_core r r1" unfolding r1_def by (rule account_core)
  then have g1: "gate r1 = Some g" "cfg r1 = cfg r" "buf r1 = buf r" using g by (auto simp: same_core_def)
  consider "Drop g (pbEnd rec)" | "\<not> Drop g (pbEnd rec)" "ShouldEmitNow g (pbEnd rec)"
    | "\<not> Drop g (pbEnd rec)" "\<not> ShouldEmitNow g (pbEnd rec)" by blast
  then show thesis
  proof cases
    case 1
    have "act = CDrop rec" "r' = r1"
      using c d 1 g1 by (auto simp: consume_def rec_def r1_def Let_def gate_action_def)
    then show thesis using drop 1 core by (simp add: rec_items_alt drain_record_def Drop_def)
  next
    case 2
    have "act = CEmit rec \<lparr>item_ev = argv_event (cfg r1) (itemPos rec) (ExecTime it) argv, item_pos = pbEnd rec, isPing = False\<rparr>"
      "r' = r1"
      using c d 2 g1 by (auto simp: consume_def rec_def r1_def Let_def gate_action_def)
    then show thesis
      using emit 2 core d g1 by (simp add: rec_items_alt drain_record_def ShouldEmitNow_def rec_def)
  next
    case 3
    have no: "\<not> (gate_hSet g \<and> gate_state g = stateOpen)" using 3 ShouldEmitNow_iff by blast
    have eq: "consume now io b pbOff r = (case (if buf r1 = None then newBufferLocked io r1 else Inr r1) of
        Inl e \<Rightarrow> (CFail rec e, r1) | Inr r2 \<Rightarrow> (CBuffer rec, r2\<lparr>bufInflight := bufInflight r2 + 1\<rparr>))"
      using d 3 g1 by (simp add: consume_def Let_def gate_action_def rec_def [symmetric] r1_def [symmetric] split: sum.split)
    show thesis
    proof (cases "(if buf r1 = None then newBufferLocked io r1 else Inr r1)")
      case (Inl e)
      then show thesis using fail [of rec e] eq c core no by auto
    next
      case (Inr r2)
      then show thesis
        using buffer [of rec r1 r2] eq c core no g1 by (auto simp: rec_def split: if_splits)
    qed
  qed
qed

lemma outgoing_simps [simp]:
  "outgoing (s\<lparr>rcv := x\<rparr>) = outgoing s" "outgoing (s\<lparr>rls := y\<rparr>) = outgoing s"
  "outgoing (s\<lparr>received := z\<rparr>) = outgoing s" "outgoing (s\<lparr>cpfiles := w\<rparr>) = outgoing s"
  by (simp_all add: outgoing_def)

lemma outgoing_rnr: "emitCh r' = emitCh (rnr s) \<Longrightarrow> outgoing (s\<lparr>rnr := r'\<rparr>) = outgoing s"
  by (simp add: outgoing_def)

lemma outgoing_put: "outgoing (s\<lparr>rnr := put_ch item (rnr s)\<rparr>) = outgoing s @ (if is_incr item then [item] else [])"
  by (simp add: outgoing_def put_ch_def)

lemma put_ch_simps [simp]:
  "cfg (put_ch item r) = cfg r" "gate (put_ch item r) = gate r" "buf (put_ch item r) = buf r"
  "disk (put_ch item r) = disk r" "bufInflight (put_ch item r) = bufInflight r"
  by (simp_all add: put_ch_def)

lemma inv_atD:
  assumes "inv_at c g q lost s"
  shows "cfg (rnr s) = c" "gate (rnr s) = Some g"
    "outgoing s @ log_items c g (in_rls (rls s) @ q @ in_rcv (rcv s) @ lost) = log_items c g (received s)"
    "failing (rcv s) \<or> lost = []"
    "\<not> gate_hSet g \<Longrightarrow> rls s = LIdle" "\<not> gate_hSet g \<Longrightarrow> received s = q @ in_rcv (rcv s) @ lost"
    "rls s = LIdle \<Longrightarrow> outgoing s = []"
    "gate_state g = stateOpen \<longleftrightarrow> released (rls s)" "released (rls s) \<Longrightarrow> q = []"
    "bufInflight (rnr s) = inflight (rcv s)" "rcv_ok c g (buf (rnr s) \<noteq> None) (rcv s)"
    "gate_state g = stateBuffering \<Longrightarrow> buf (rnr s) = None \<Longrightarrow> q = [] \<and> (cfg_BufferDurable c \<longrightarrow> disk (rnr s) = [])"
    "gate_state g = stateBuffering \<Longrightarrow> buf (rnr s) = Some b \<Longrightarrow> dead (rls s) \<or> buf_inv b (disk (rnr s)) q"
  using assms unfolding inv_at_def by auto

lemma inv_at_open_set: "inv_at c g q lost s \<Longrightarrow> gate_state g = stateOpen \<Longrightarrow> gate_hSet g"
  by (auto simp: inv_at_def)

lemma inv_recv:
  assumes i: "inv_at c g q lost s" and idle: "rcv s = RIdle" and wf: "28 + length b < 2 ^ 32"
    and c: "consume now io b pbOff (rnr s) = (act, r')"
  shows "inv c (s\<lparr>rnr := r', rcv := after_consume act, received := received s @ consumed act\<rparr>)"
proof -
  note iD = inv_atD [OF i]
  have lost: "lost = []" using iD(4) idle by simp
  have sw: "wf_rec rec" if "raw rec = b" for rec using wf that by (simp add: wf_rec_def payloadLen_def)
  show ?thesis
    using c iD(2)
  proof (cases rule: consume_behind_gate)
    case none
    then have "inv_at c g q [] (s\<lparr>rnr := r', rcv := after_consume act, received := received s @ consumed act\<rparr>)"
      using i idle lost by (auto simp: inv_at_def outgoing_rnr split: option.splits)
    then show ?thesis unfolding inv_def by blast
  next
    case (drop rec)
    then have "inv_at c g q [] (s\<lparr>rnr := r', rcv := after_consume act, received := received s @ consumed act\<rparr>)"
      using i idle lost by (auto simp: inv_at_def outgoing_rnr same_core_def split: option.splits)
    then show ?thesis unfolding inv_def by blast
  next
    case (emit rec item)
    then have "inv_at c g [] [] (s\<lparr>rnr := r', rcv := after_consume act, received := received s @ consumed act\<rparr>)"
      using i idle lost by (auto simp: inv_at_def outgoing_rnr same_core_def split: option.splits)
    then show ?thesis unfolding inv_def by blast
  next
    case (fail rec e)
    then have "inv_at c g q [rec] (s\<lparr>rnr := r', rcv := after_consume act, received := received s @ consumed act\<rparr>)"
      using i idle lost by (auto simp: inv_at_def outgoing_rnr same_core_def split: option.splits)
    then show ?thesis unfolding inv_def by blast
  next
    case (buffer rec r1 r2)
    then have st: "gate_state g = stateBuffering" using inv_at_open_set [OF i] by (cases "gate_state g") auto
    have core: "cfg r2 = c" "gate r2 = Some g" "emitCh r2 = emitCh (rnr s)" "bufInflight r2 = 0"
      "\<exists>b. buf r2 = Some b \<and> (dead (rls s) \<or> buf_inv b (disk r2) q)"
      using buffer(3,5) iD(1,2,10) iD(12) [OF st] iD(13) [OF st] newBufferLocked_core [of io r1 r2] rel_pair_inv idle
      by (auto simp: same_core_def)
    then have "inv_at c g q [] (s\<lparr>rnr := r', rcv := after_consume act, received := received s @ consumed act\<rparr>)"
      using buffer(1,2,6) i idle lost st sw by (auto simp: inv_at_def outgoing_rnr split: option.splits)
    then show ?thesis unfolding inv_def by blast
  qed
qed

lemma inv_append:
  assumes i: "inv_at c g q lost s" and r: "rcv s = RAppend rec" and b: "buf (rnr s) = Some b"
    and a: "append_iter io rec b (disk (rnr s)) = (res, b', d')"
  shows "inv c (s\<lparr>rnr := (rnr s)\<lparr>buf := Some b', disk := d'\<rparr>, rcv := after_append rec res\<rparr>)"
proof -
  note iD = inv_atD [OF i]
  have st: "gate_state g = stateBuffering" "wf_rec rec" "lost = []" using iD(4,11) r by auto
  let ?s = "s\<lparr>rnr := (rnr s)\<lparr>buf := Some b', disk := d'\<rparr>, rcv := after_append rec res\<rparr>"
  note app = buf_inv_append [OF _ st(2) a]
  note bi = iD(13) [OF st(1) b]
  consider "res = AppWait" | "res = AppDone None" | e where "res = AppDone (Some e)" by (metis append_result.exhaust option.exhaust)
  then show ?thesis
  proof cases
    case 1
    then have "inv_at c g q [] ?s" using i r b st bi app by (auto simp: inv_at_def outgoing_rnr split: option.splits)
    then show ?thesis unfolding inv_def by blast
  next
    case 2
    then have "inv_at c g (q @ [rec]) [] ?s" using i r b st bi app by (auto simp: inv_at_def outgoing_rnr split: option.splits)
    then show ?thesis unfolding inv_def by blast
  next
    case 3
    then have "dead (rls s) \<or> buf_inv b' d' q \<or> buf_inv b' d' (q @ [rec])" using bi app by blast
    then have "inv_at c g q [rec] ?s \<or> inv_at c g (q @ [rec]) [] ?s"
      using i r b st 3 by (auto simp: inv_at_def outgoing_rnr split: option.splits)
    then show ?thesis unfolding inv_def by blast
  qed
qed

lemma invI: "inv_at c g q lost s \<Longrightarrow> inv c s"
  unfolding inv_def by blast

lemmas inv_frame = inv_at_def outgoing_rnr

lemma inv_append_end:
  assumes "inv_at c g q lost s"
  shows "rcv s = RAppend rec \<Longrightarrow> inv c (s\<lparr>rcv := RDec False\<rparr>)"
    and "rcv s = RDec ok \<Longrightarrow> inv c (s\<lparr>rnr := append_done (rnr s), rcv := (if ok then RIdle else RFail)\<rparr>)"
proof -
  show "inv c (s\<lparr>rcv := RDec False\<rparr>)" if "rcv s = RAppend rec"
    by (rule invI [of c g q "[rec]"]) (use assms that in \<open>auto simp: inv_frame split: option.splits\<close>)
  show "inv c (s\<lparr>rnr := append_done (rnr s), rcv := (if ok then RIdle else RFail)\<rparr>)" if "rcv s = RDec ok"
    by (rule invI [of c g q lost]) (use assms that in \<open>auto simp: inv_frame append_done_def split: option.splits\<close>)
qed

lemma rec_items_incr: "rec_items c g rec = [item] \<Longrightarrow> is_incr item"
  by (auto simp: rec_items_alt drain_record_def is_incr_def argv_event_def entryEvent_def
      split: drain_action.splits decoded.splits if_splits)

lemma inv_send:
  assumes "inv_at c g q lost s" "rcv s = RSend rec item"
  shows "inv c (s\<lparr>rnr := put_ch item (rnr s), rcv := RIdle\<rparr>)" "inv c (s\<lparr>rcv := RFail\<rparr>)"
proof -
  have i: "rec_items c g rec = [item]" "q = []" "in_rls (rls s) = []" "lost = []" "rls s \<noteq> LIdle" "gate_hSet g" "gate_state g = stateOpen"
    using assms by (cases "rls s"; auto simp: inv_at_def)+
  show "inv c (s\<lparr>rnr := put_ch item (rnr s), rcv := RIdle\<rparr>)"
    by (rule invI [of c g "[]" "[]"])
      (use assms i rec_items_incr [OF i(1)] in \<open>auto simp: inv_at_def outgoing_put\<close>)
  show "inv c (s\<lparr>rcv := RFail\<rparr>)"
    by (rule invI [of c g "[]" "[rec]"]) (use assms i in \<open>auto simp: inv_frame\<close>)
qed

lemma inv_core_update:
  assumes "inv_at c g q lost s" "same_core (rnr s) r'"
  shows "inv c (s\<lparr>rnr := r'\<rparr>)"
  by (rule invI [of c g q lost]) (use assms in \<open>auto simp: inv_frame same_core_def split: option.splits\<close>)

lemma inv_core: "inv c s \<Longrightarrow> same_core (rnr s) r' \<Longrightarrow> inv c (s\<lparr>rnr := r'\<rparr>)"
  using inv_core_update unfolding inv_def by blast

lemma inv_aside:
  assumes "inv_at c g q lost s" "\<not> is_incr item"
  shows "inv c (s\<lparr>rnr := put_ch item (rnr s)\<rparr>)"
  by (rule invI [of c g q lost]) (use assms in \<open>auto simp: inv_at_def outgoing_put split: option.splits\<close>)

lemma inv_open_at:
  assumes "inv_at c g q lost s" "rls s = LIdle" "\<not> gate_hSet g"
  shows "inv c (s\<lparr>rnr := rRequestOpenAt h (rnr s)\<rparr>)"
  by (rule invI [of c "RequestOpenAt h g" q lost])
    (use assms in \<open>cases "rcv s"; auto simp: inv_frame rRequestOpenAt_def split: option.splits\<close>)

lemma inv_release:
  assumes "inv_at c g q lost s"
  shows "rls s = LIdle \<Longrightarrow> gate_hSet g \<Longrightarrow> inv c (s\<lparr>rls := LCheck\<rparr>)"
    and "rls s = LCheck \<Longrightarrow> inv c (s\<lparr>rls := (if buf (rnr s) = None then LCheck else LNext)\<rparr>)"
    and "rls s = LPush [] \<Longrightarrow> inv c (s\<lparr>rls := LCheck\<rparr>)"
    and "rls s = LPush recs \<Longrightarrow> inv c (s\<lparr>rls := LErr recs\<rparr>)"
    and "rls s = LDiscard \<Longrightarrow> inv c (s\<lparr>rnr := release_discard (rnr s), rls := LDone\<rparr>)"
  by (rule invI [of c g q lost]; use assms in \<open>cases "rcv s"; auto simp: inv_frame release_discard_def split: option.splits\<close>)+

lemma inv_check_open:
  assumes i: "inv_at c g q lost s" and r: "rls s = LCheck" "release_ready (rnr s)"
  shows "inv c (s\<lparr>rnr := release_open (rnr s), rls := (if buf (rnr s) = None then LDone else LDiscard)\<rparr>)"
proof -
  note iD = inv_atD [OF i]
  have st: "gate_state g = stateBuffering" "gate_hSet g" using iD(5,8) r(1) by (cases "gate_state g"; auto)+
  have "q = []"
    using iD(12,13) [OF st(1)] r by (cases "buf (rnr s)") (auto simp: release_ready_def release_count_def buf_inv_def)
  moreover have "inflight (rcv s) = 0" using iD(10) r(2) by (simp add: release_ready_def)
  moreover have "\<And>rec item. rcv s \<noteq> RSend rec item" using iD(11) st(1) by auto
  moreover have "rec_items c (gate_Release g) = rec_items c g"
    by (rule ext) (simp add: rec_items_alt drain_record_def Drop_def)
  then have "log_items c (gate_Release g) xs = log_items c g xs" for xs by (simp add: log_items_def)
  ultimately show ?thesis
    by (intro invI [of c "gate_Release g" "[]" lost])
      (use i r st in \<open>cases "rcv s"; auto simp: inv_frame release_open_def split: option.splits\<close>)
qed

lemma inv_drain:
  assumes i: "inv_at c g q lost s" and r: "rls s = LNext" and b: "buf (rnr s) = Some b"
    and n: "buf_next io 256 b (disk (rnr s)) = (err, recs, b', d')"
  shows "inv c (s\<lparr>rnr := (rnr s)\<lparr>buf := Some b', disk := d'\<rparr>,
      rls := (if err \<noteq> None then LErr [] else if recs = [] then LCheck else LPush recs)\<rparr>)"
proof (cases err)
  case (Some e)
  then show ?thesis
    by (intro invI [of c g q lost]) (use i r b in \<open>auto simp: inv_frame\<close>)
next
  case None
  note iD = inv_atD [OF i]
  have st: "gate_state g = stateBuffering" using iD(8) r(1) by (cases "gate_state g"; auto)
  have nl: "nextLocked io 256 b (disk (rnr s)) = (None, recs, b', d')"
    using n None by (simp add: buf_next_def)
  then have "berr b = None" by (auto simp: nextLocked_def split: option.splits)
  then have rel: "rel_pair (b, disk (rnr s)) q" using iD(13) [OF st b] r by (simp add: buf_inv_def)
  then have d: "recs = take 256 q" "rel_pair (b', d') (drop 256 q)"
    using nextLocked_None [OF _ nl] by (auto simp: rel_pair_def)
  show ?thesis
    using None rel_pair_inv [OF d(2)]
    by (intro invI [of c g "drop 256 q" lost])
      (use i r b st in \<open>cases "rcv s"; cases "recs = []"; auto simp: inv_frame d(1) log_items_split\<close>)
qed

lemma inv_push:
  assumes i: "inv_at c g q lost s" and r: "rls s = LPush (rec # recs)"
  shows "drain_record (cfg (rnr s)) (gate (rnr s)) rec = DPush item \<Longrightarrow>
      inv c (s\<lparr>rnr := put_ch item (rnr s), rls := LPush recs\<rparr>)"
    and "drain_record (cfg (rnr s)) (gate (rnr s)) rec \<in> {DDrop, DSkip} \<Longrightarrow> inv c (s\<lparr>rls := LPush recs\<rparr>)"
proof -
  note iD = inv_atD [OF i]
  show "inv c (s\<lparr>rnr := put_ch item (rnr s), rls := LPush recs\<rparr>)"
    if "drain_record (cfg (rnr s)) (gate (rnr s)) rec = DPush item"
  proof -
    have "rec_items c g rec = [item]" using that iD(1,2) by (simp add: rec_items_alt)
    then show ?thesis
      by (intro invI [of c g q lost])
        (use i r rec_items_incr [of c g rec item] in \<open>auto simp: inv_at_def outgoing_put split: option.splits\<close>)
  qed
  show "inv c (s\<lparr>rls := LPush recs\<rparr>)" if "drain_record (cfg (rnr s)) (gate (rnr s)) rec \<in> {DDrop, DSkip}"
  proof -
    have "rec_items c g rec = []" using that iD(1,2) by (auto simp: rec_items_alt)
    then show ?thesis
      by (intro invI [of c g q lost]) (use i r in \<open>auto simp: inv_frame split: option.splits\<close>)
  qed
qed

lemma outgoing_emi:
  "emitCh r' = emitCh (rnr s) \<Longrightarrow> in_emi e = in_emi (emi s) \<Longrightarrow> outgoing (s\<lparr>rnr := r', emi := e\<rparr>) = outgoing s"
  by (simp add: outgoing_def)

lemma inv_same_outgoing:
  assumes "inv_at c g q lost s" "outgoing t = outgoing s" "cfg (rnr t) = cfg (rnr s)" "gate (rnr t) = gate (rnr s)"
    "buf (rnr t) = buf (rnr s)" "disk (rnr t) = disk (rnr s)" "bufInflight (rnr t) = bufInflight (rnr s)"
    "rcv t = rcv s" "rls t = rls s" "received t = received s"
  shows "inv c t"
  by (rule invI [of c g q lost]) (use assms in \<open>auto simp: inv_at_def split: option.splits\<close>)

lemma markEmitted_core: "markEmitted now item r = (r', fl) \<Longrightarrow> same_core r r'"
  by (auto simp: markEmitted_def Let_def same_core_def)

lemma deliveryNotifier_core: "deliveryNotifier p r = (r', fl) \<Longrightarrow> same_core r r'"
  by (auto simp: deliveryNotifier_def Let_def same_core_def)

lemma put_chI:
  "\<not> is_incr item \<Longrightarrow> r' = r\<lparr>emitCh := emitCh r @ [item]\<rparr> \<Longrightarrow> r' = r \<or> (\<exists>item. \<not> is_incr item \<and> r' = put_ch item r)"
  by (auto simp: put_ch_def)

lemma onIdle_cases: "onIdle now r = r \<or> (\<exists>item. \<not> is_incr item \<and> onIdle now r = put_ch item r)"
proof (cases "onIdle now r = r")
  case False
  then show ?thesis
    unfolding onIdle_def Let_def by (intro put_chI) (auto simp: is_incr_def split: if_splits)
qed simp

lemma inv_step:
  assumes "step marshal s t" "inv c s"
  shows "inv c t"
proof -
  obtain g q lost where i: "inv_at c g q lost s" using assms(2) unfolding inv_def by blast
  note iD = inv_atD [OF i]
  show ?thesis
    using assms(1)
  proof (cases rule: step.cases)
    case (idle now)
    then show ?thesis using onIdle_cases [of now "rnr s"] inv_aside [OF i] assms(2) by auto
  next
    case (open_at g' h)
    then show ?thesis using inv_open_at [OF i] iD(2) by simp
  next
    case (anchor_at g' h)
    then show ?thesis
      using inv_core [OF inv_open_at [OF i, of h], of "rnr t"] iD(2) by (simp add: rRequestOpenAt_def same_core_def)
  next
    case (inject ev)
    then show ?thesis
      using inv_aside [OF i, of "\<lparr>item_ev = ev, item_pos = zero_pos, isPing = False\<rparr>"]
      by (simp add: Inject_def put_ch_def is_incr_def)
  next
    case (emit item rest)
    then show ?thesis by (intro inv_same_outgoing [OF i]) (auto simp: outgoing_def)
  next
    case (emit_ok item)
    then show ?thesis by (intro inv_same_outgoing [OF i]) (auto simp: outgoing_def)
  next
    case (emit_err item)
    then show ?thesis by (intro inv_same_outgoing [OF i]) (auto simp: outgoing_def markSinkError_def)
  next
    case (mark item now r' fl)
    then show ?thesis
      by (intro inv_same_outgoing [OF i]) (use markEmitted_core [of now item] in \<open>force simp: same_core_def outgoing_def\<close>)+
  next
    case (flush fails k e st' fs')
    then show ?thesis by (intro inv_same_outgoing [OF i]) (auto simp: outgoing_def)
  next
    case emit_cancelled
    then show ?thesis by (intro inv_same_outgoing [OF i]) (auto simp: outgoing_def)
  next
    case (notify item r' fl)
    then show ?thesis using inv_core_update [OF i] deliveryNotifier_core by auto
  next
    case (acked)
    then show ?thesis using inv_core_update [OF i] by (auto simp: same_core_def)
  next
    case (release g')
    then show ?thesis using inv_release(1) [OF i] iD(2) by simp
  qed (use inv_recv [OF i] inv_append [OF i] inv_append_end [OF i] inv_send [OF i] inv_release [OF i]
      inv_check_open [OF i] inv_drain [OF i] inv_push [OF i] in simp_all)
qed

section \<open>Snapshots first\<close>

definition queued :: "sys \<Rightarrow> envelopeOrErr list" where
  "queued s = sunk s @ in_emi (emi s) @ emitCh (rnr s)"

definition is_snap :: "envelopeOrErr \<Rightarrow> bool" where
  "is_snap item \<longleftrightarrow> EvPhase (item_ev item) = PhaseSnapshot"

lemma onIdle_queued:
  "emitCh (onIdle now r) = emitCh r \<or>
   (\<exists>item. emitCh (onIdle now r) = emitCh r @ [item] \<and> \<not> is_snap item \<and> item_pos item = zero_pos \<and> \<not> is_incr item)"
  by (auto simp: onIdle_def Let_def is_snap_def is_incr_def)

text \<open>Every step appends at most to the queue of items; what it appends depends on who appends.\<close>

definition aside :: "sys \<Rightarrow> envelopeOrErr \<Rightarrow> bool" where
  "aside s item \<longleftrightarrow> \<not> is_incr item \<and> item_pos item = zero_pos \<and> (is_snap item \<longrightarrow> rls s = LIdle)"

lemma rec_items_item: "rec_items c g rec = [item] \<Longrightarrow> item_pos item = pbEnd rec \<and> is_incr item"
  by (auto simp: rec_items_alt drain_record_def is_incr_def argv_event_def entryEvent_def
      split: drain_action.splits decoded.splits if_splits)

lemma step_queued:
  assumes "step marshal s t" "inv c s"
  shows "queued t = queued s \<or> (\<exists>item. queued t = queued s @ [item] \<and> (aside s item \<or> is_incr item))"
proof -
  obtain g q lost where i: "inv_at c g q lost s" using assms(2) unfolding inv_def by blast
  note iD = inv_atD [OF i]
  show ?thesis
    using assms(1)
  proof (cases rule: step.cases)
    case (recv b now io pbOff act r')
    have "emitCh r' = emitCh (rnr s)"
      using recv(4) iD(2)
    proof (cases rule: consume_behind_gate)
      case (buffer rec r1 r2)
      then show ?thesis
        by (auto simp: same_core_def newBufferLocked_def Let_def split: sum.splits prod.splits)
    qed (auto simp: same_core_def)
    then show ?thesis using recv by (auto simp: queued_def)
  next
    case (idle now)
    then show ?thesis using onIdle_queued [of now "rnr s"] by (auto simp: queued_def aside_def)
  next
    case (send rec item)
    then have "is_incr item" using iD(11) rec_items_item by auto
    then show ?thesis using send by (auto simp: queued_def put_ch_def)
  next
    case (push rec recs item)
    then have "is_incr item" using iD(1,2) rec_items_item [of c g rec item] by (simp add: rec_items_alt)
    then show ?thesis using push by (auto simp: queued_def put_ch_def)
  next
    case (inject ev)
    then show ?thesis by (auto simp: queued_def Inject_def aside_def is_incr_def is_snap_def)
  next
    case (mark item now r' fl)
    then show ?thesis using markEmitted_core [of now item "rnr s"] by (auto simp: queued_def same_core_def)
  next
    case (notify item r' fl)
    then show ?thesis using deliveryNotifier_core [of "item_pos item" "rnr s"] by (auto simp: queued_def same_core_def)
  qed (auto simp: queued_def append_done_def rRequestOpenAt_def release_open_def release_discard_def markSinkError_def
      split: option.splits)
qed

definition ordered :: "sys \<Rightarrow> bool" where
  "ordered s \<longleftrightarrow> (\<exists>a b. queued s = a @ b \<and> list_all (\<lambda>i. \<not> is_incr i) a \<and> list_all (\<lambda>i. \<not> is_snap i) b) \<and>
     list_all (\<lambda>i. is_incr i \<or> item_pos i = zero_pos) (queued s)"

lemma outgoing_queued: "outgoing s = filter is_incr (queued s)"
  by (simp add: outgoing_def queued_def)

lemma incr_not_snap: "is_incr item \<Longrightarrow> \<not> is_snap item"
  by (simp add: is_incr_def is_snap_def)

lemma ordered_step:
  assumes "step marshal s t" "inv c s" "ordered s"
  shows "ordered t"
proof -
  obtain a b where ab: "queued s = a @ b" "list_all (\<lambda>i. \<not> is_incr i) a" "list_all (\<lambda>i. \<not> is_snap i) b"
    using assms(3) by (auto simp: ordered_def)
  from step_queued [OF assms(1,2)] show ?thesis
  proof
    assume "queued t = queued s"
    then show ?thesis using assms(3) by (simp add: ordered_def)
  next
    assume "\<exists>item. queued t = queued s @ [item] \<and> (aside s item \<or> is_incr item)"
    then obtain item where t: "queued t = queued s @ [item]" "aside s item \<or> is_incr item" by blast
    have "\<exists>a b. queued t = a @ b \<and> list_all (\<lambda>i. \<not> is_incr i) a \<and> list_all (\<lambda>i. \<not> is_snap i) b"
    proof (cases "is_snap item")
      case False
      then have "list_all (\<lambda>i. \<not> is_snap i) (b @ [item])" using ab by simp
      then show ?thesis using ab t(1) by (metis append.assoc)
    next
      case True
      then have idle: "rls s = LIdle" and ni: "\<not> is_incr item" using t(2) incr_not_snap by (auto simp: aside_def)
      then have "list_all (\<lambda>i. \<not> is_incr i) (queued t)"
        using assms(2) t(1) by (auto simp: inv_def inv_at_def outgoing_queued filter_empty_conv list_all_iff)
      then show ?thesis by (intro exI [of _ "queued t"] exI [of _ "[]"]) simp
    qed
    then show ?thesis using t assms(3) by (auto simp: ordered_def aside_def)
  qed
qed

section \<open>The checkpoint\<close>

definition checkpointed :: "position option \<Rightarrow> sys \<Rightarrow> bool" where
  "checkpointed p0 s \<longleftrightarrow> (\<forall>item. emi s = EMark item \<longrightarrow> item \<in> set (sunk s)) \<and>
     (delivered_pos (rstore (rnr s)) = p0 \<or>
      (\<exists>item \<in> set (sunk s). item_pos item \<noteq> zero_pos \<and> delivered_pos (rstore (rnr s)) = Some (item_pos item)) \<or>
      (\<exists>g. gate (rnr s) = Some g \<and> gate_hSet g \<and> delivered_pos (rstore (rnr s)) = Some (gate_h g)))"

lemma SetDelivered_pos:
  "delivered_pos (SetDelivered (Filenum p) (Offset p) st) \<in> {delivered_pos st, Some p}"
  using store_cp.pos_record [of p st] by (auto simp: SetDeliveredPos_def max_def split: option.splits if_splits)

lemma Flush_keeps_pos: "Flush marshal fails k st fs = (e, st', fs') \<Longrightarrow> delivered_pos st' = delivered_pos st"
  by (auto simp: Flush_def delivered_pos_def split: if_splits option.splits prod.splits)

lemma markEmitted_pos:
  "markEmitted now item r = (r', fl) \<Longrightarrow>
     delivered_pos (rstore r') = delivered_pos (rstore r) \<or>
     (item_pos item \<noteq> zero_pos \<and> delivered_pos (rstore r') = Some (item_pos item))"
  using SetDelivered_pos [of "item_pos item" "rstore r"] by (auto simp: markEmitted_def Let_def split: if_splits)

lemma deliveryNotifier_pos:
  "deliveryNotifier p r = (r', fl) \<Longrightarrow>
     delivered_pos (rstore r') = delivered_pos (rstore r) \<or> (p \<noteq> zero_pos \<and> delivered_pos (rstore r') = Some p)"
  using SetDelivered_pos [of p "rstore r"] by (auto simp: deliveryNotifier_def Let_def split: if_splits)

lemma consume_store: "consume now io b p r = (act, r') \<Longrightarrow> rstore r' = rstore r \<and> gate r' = gate r"
  by (auto simp: consume_def Let_def account_def newBufferLocked_def split: if_splits decoded.splits sum.splits prod.splits)

lemma checkpointed_step:
  assumes "step marshal s t" "checkpointed p0 s"
  shows "checkpointed p0 t"
  using assms(1)
proof (cases rule: step.cases)
  case (recv b now io pbOff act r')
  then show ?thesis using assms(2) consume_store [OF recv(4)] by (simp add: checkpointed_def)
next
  case (mark item now r' fl)
  then show ?thesis using assms(2) markEmitted_pos [OF mark(3)] markEmitted_core [OF mark(3)] by (auto simp: checkpointed_def same_core_def)
next
  case (flush fails k e st' fs')
  then show ?thesis using assms(2) Flush_keeps_pos [OF flush(3)] by (auto simp: checkpointed_def)
next
  case (notify item r' fl)
  then show ?thesis using assms(2) deliveryNotifier_pos [OF notify(4)] deliveryNotifier_core [OF notify(4)]
    by (auto simp: checkpointed_def same_core_def)
next
  case (idle now)
  then show ?thesis using assms(2) by (simp add: checkpointed_def onIdle_def Let_def)
next
  case (anchor_at g h)
  then show ?thesis using assms(2) SetDelivered_pos [of h "rstore (rnr s)"] by (auto simp: checkpointed_def rRequestOpenAt_def)
qed (use assms(2) in \<open>auto simp: checkpointed_def append_done_def rRequestOpenAt_def release_open_def release_discard_def
    markSinkError_def put_ch_def Inject_def split: option.splits\<close>)

section \<open>Properties\<close>

text \<open>A run starts with a fresh runner behind a new gate.\<close>

definition boot :: "Config \<Rightarrow> Store \<Rightarrow> Metrics option \<Rightarrow> dir \<Rightarrow> files \<Rightarrow> sys" where
  "boot c st m d fs = start (AttachGate NewGateCtl (NewRunner c st m d)) fs"

lemma boot_simps [simp]:
  "rcv (boot c st m d fs) = RIdle" "rls (boot c st m d fs) = LIdle" "emi (boot c st m d fs) = EIdle"
  "received (boot c st m d fs) = []" "sunk (boot c st m d fs) = []" "gate (rnr (boot c st m d fs)) = Some NewGateCtl"
  "buf (rnr (boot c st m d fs)) = None" "bufInflight (rnr (boot c st m d fs)) = 0" "emitCh (rnr (boot c st m d fs)) = []"
  "disk (rnr (boot c st m d fs)) = d" "rstore (rnr (boot c st m d fs)) = st"
  "cfg_BufferDurable (cfg (rnr (boot c st m d fs))) = cfg_BufferDurable c"
  by (simp_all add: boot_def start_def AttachGate_def NewRunner_def)

lemma reach_inv:
  assumes "reach marshal (boot c st m d fs) s" "cfg_BufferDurable c \<longrightarrow> d = []"
  shows "inv (cfg (rnr (boot c st m d fs))) s \<and> ordered s \<and> checkpointed (delivered_pos st) s"
  using assms(1)
proof (induction rule: reach.induct)
  case reach_start
  have "inv_at (cfg (rnr (boot c st m d fs))) NewGateCtl [] [] (boot c st m d fs)"
    using assms(2) by (simp add: inv_at_def outgoing_def)
  then show ?case
    by (auto simp: ordered_def queued_def checkpointed_def intro: invI)
next
  case (reach_step s t)
  then show ?case using inv_step ordered_step checkpointed_step by blast
qed

lemma item_pos_sorted:
  "sorted_wrt (<) (map pbEnd recs) \<Longrightarrow> sorted_wrt (<) (map item_pos (log_items c g recs))"
proof (induction recs)
  case (Cons rec recs)
  have pos: "x \<in> set (log_items c g recs) \<Longrightarrow> item_pos x \<in> pbEnd ` set recs" for x
    by (auto simp: log_items_def rec_items_def split: if_splits decoded.splits)
  have "\<forall>x \<in> set (rec_items c g rec). item_pos x = pbEnd rec" "length (rec_items c g rec) \<le> 1"
    by (auto simp: rec_items_def split: decoded.splits)
  then show ?case
    using Cons pos by (cases "rec_items c g rec") (fastforce simp: sorted_wrt_append)+
qed simp

text \<open>
  C1. The sink receives the binlog exactly once and in order across the handoff: whatever the
  interleaving of the receive loop, the release and the emit loop, and whatever writes, reads,
  contexts or sink calls fail, the incremental events the sink took are a prefix of the events
  of the received entries beyond the dump anchor, in the order received; once the release is done
  and nothing is queued they are all of them.
\<close>

theorem handoff_exactly_once_in_order:
  assumes "reach marshal (boot c st m d fs) s" "cfg_BufferDurable c \<longrightarrow> d = []"
  shows "\<exists>g rest. gate (rnr s) = Some g \<and>
     filter is_incr (sunk s) @ rest = log_items (cfg (rnr s)) g (received s) \<and>
     (rcv s = RIdle \<and> rls s = LDone \<and> emi s = EIdle \<and> emitCh (rnr s) = [] \<longrightarrow> rest = [])"
proof -
  obtain cc g q lost where "inv_at cc g q lost s" using reach_inv [OF assms] by (auto simp: inv_def)
  then have i: "gate (rnr s) = Some g" "cfg (rnr s) = cc"
    "outgoing s @ log_items cc g (in_rls (rls s) @ q @ in_rcv (rcv s) @ lost) = log_items cc g (received s)"
    "failing (rcv s) \<or> lost = []" "released (rls s) \<longrightarrow> q = []"
    by (auto simp: inv_at_def)
  let ?rest = "filter is_incr (in_emi (emi s) @ emitCh (rnr s)) @
      log_items cc g (in_rls (rls s) @ q @ in_rcv (rcv s) @ lost)"
  have "filter is_incr (sunk s) @ ?rest = log_items (cfg (rnr s)) g (received s)"
    using i(2,3) by (simp add: outgoing_def)
  moreover have "?rest = []" if "rcv s = RIdle \<and> rls s = LDone \<and> emi s = EIdle \<and> emitCh (rnr s) = []"
    using that i(4,5) by simp
  ultimately show ?thesis using i(1) by blast
qed

text \<open>
  C3. Snapshot images reach the sink before every incremental event: the events the sink took
  split into a part without incremental events followed by a part without snapshot events.
\<close>

theorem snapshot_precedes_incremental:
  assumes "reach marshal (boot c st m d fs) s" "cfg_BufferDurable c \<longrightarrow> d = []"
  shows "\<exists>a b. sunk s = a @ b \<and> list_all (\<lambda>i. \<not> is_incr i) a \<and> list_all (\<lambda>i. \<not> is_snap i) b"
proof -
  obtain a b where ab: "queued s = a @ b" "list_all (\<lambda>i. \<not> is_incr i) a" "list_all (\<lambda>i. \<not> is_snap i) b"
    using reach_inv [OF assms] by (auto simp: ordered_def)
  let ?n = "length (sunk s)"
  have "sunk s = take ?n a @ take (?n - length a) b"
    using ab(1) by (metis append_eq_conv_conj queued_def take_append)
  moreover have "list_all (\<lambda>i. \<not> is_incr i) (take ?n a)" "list_all (\<lambda>i. \<not> is_snap i) (take (?n - length a) b)"
    using ab(2,3) by (auto simp: list_all_iff dest: in_set_takeD)
  ultimately show ?thesis by blast
qed


subsection \<open>A run\<close>

definition demo_cfg :: Config where
  "demo_cfg = \<lparr>cfg_MasterHost = ''m'', cfg_MasterPort = 9221, cfg_Password = [], cfg_DBName = ''db0'', cfg_LocalIP = ''l'',
     cfg_LocalPort = 1, cfg_SourceID = ''src'', cfg_StartAt = zero_pos, cfg_AckEvery = 0, cfg_Heartbeat = 0,
     cfg_PendingBytesHigh = 0, cfg_ReserveFreeBytes = 0, cfg_BufferDurable = False\<rparr>"

definition demo_entry :: bytes where
  "demo_entry = item_bytes \<lparr>ItemType = 1, ExecTime = 5, TermID = 0, LogicID = 0, ItemFilenum = 1, ItemOffset = 100,
     Content = SerializeArray [''set'', ''k'', ''v'']\<rparr>"

definition demo_boot :: sys where
  "demo_boot = boot demo_cfg \<lparr>path = ''cp'', state = empty_state ''src'', dirty = False\<rparr> None [] Map.empty"

definition demo_open :: sys where
  "demo_open = demo_boot\<lparr>rnr := release_open (rRequestOpenAt \<lparr>Filenum = 1, Offset = 100\<rparr> (rnr demo_boot)), rls := LDone\<rparr>"

definition demo_consume :: "consume_action \<times> Runner" where
  "demo_consume = consume 9 sample_io demo_entry \<lparr>Filenum = 1, Offset = 150\<rparr> (rnr demo_open)"

definition demo_rec :: bufferRecord where
  "demo_rec = \<lparr>pbEnd = \<lparr>Filenum = 1, Offset = 150\<rparr>, itemPos = \<lparr>Filenum = 1, Offset = 100\<rparr>, recExecTime = 5, raw = demo_entry\<rparr>"

definition demo_item :: envelopeOrErr where
  "demo_item = \<lparr>item_ev = argv_event (cfg (rnr demo_boot)) \<lparr>Filenum = 1, Offset = 100\<rparr> 5 [''set'', ''k'', ''v''],
     item_pos = \<lparr>Filenum = 1, Offset = 150\<rparr>, isPing = False\<rparr>"

definition demo_taken :: sys where
  "demo_taken = demo_open\<lparr>received := [demo_rec], rcv := RIdle, rnr := (snd demo_consume)\<lparr>emitCh := []\<rparr>,
     emi := EMark demo_item, sunk := [demo_item]\<rparr>"

definition demo_end :: sys where
  "demo_end = demo_taken\<lparr>rnr := fst (markEmitted 10 demo_item (rnr demo_taken)), emi := EIdle\<rparr>"

lemma demo_decode: "decode_entry demo_entry = Decoded \<lparr>ItemType = 1, ExecTime = 5, TermID = 0, LogicID = 0, ItemFilenum = 1,
    ItemOffset = 100, Content = SerializeArray [''set'', ''k'', ''v'']\<rparr> [''set'', ''k'', ''v'']"
  by code_simp

lemma demo_consume_eq: "fst demo_consume = CEmit demo_rec demo_item" "emitCh (snd demo_consume) = []"
  by (code_simp, code_simp)

lemma demo_length: "length demo_entry = 61"
  by code_simp

lemma demo_marked: "snd (markEmitted 10 demo_item ((snd demo_consume)\<lparr>emitCh := []\<rparr>))"
  by code_simp

lemma demo_open_gate [simp]:
  "gate (rnr demo_boot) = Some NewGateCtl" "rls demo_boot = LIdle" "rcv demo_boot = RIdle" "emi demo_boot = EIdle"
  "received demo_boot = []" "sunk demo_boot = []" "buf (rnr demo_boot) = None" "bufInflight (rnr demo_boot) = 0"
  by (simp_all add: demo_boot_def)

lemma demo_reach: "reach marshal demo_boot demo_end"
proof -
  let ?h = "\<lparr>Filenum = 1, Offset = 100\<rparr>"
  let ?a = "demo_boot\<lparr>rnr := rRequestOpenAt ?h (rnr demo_boot)\<rparr>"
  let ?d = "demo_open\<lparr>rnr := snd demo_consume, rcv := RSend demo_rec demo_item, received := [demo_rec]\<rparr>"
  let ?e = "?d\<lparr>rnr := put_ch demo_item (snd demo_consume), rcv := RIdle\<rparr>"
  let ?f = "?d\<lparr>rcv := RIdle, rnr := (snd demo_consume)\<lparr>emitCh := []\<rparr>, emi := EEmit demo_item\<rparr>"
  let ?g = "demo_taken\<lparr>rnr := fst (markEmitted 10 demo_item (rnr demo_taken)), emi := EFlush\<rparr>"
  have 1: "step marshal demo_boot ?a"
    by (rule step.open_at [where g = NewGateCtl]) simp_all
  have 2: "step marshal ?a (?a\<lparr>rls := LCheck\<rparr>)"
    by (rule step.release [where g = "RequestOpenAt ?h NewGateCtl"]) (simp_all add: rRequestOpenAt_def)
  have 3: "step marshal (?a\<lparr>rls := LCheck\<rparr>) demo_open"
    using step.check_open [of "?a\<lparr>rls := LCheck\<rparr>" marshal]
    by (simp add: demo_open_def rRequestOpenAt_def release_ready_def release_count_def)
  have "rcv demo_open = RIdle" "received demo_open = []" "28 + length demo_entry < 2 ^ 32"
    "consume 9 sample_io demo_entry \<lparr>Filenum = 1, Offset = 150\<rparr> (rnr demo_open) = (fst demo_consume, snd demo_consume)"
    using demo_length by (simp_all add: demo_open_def demo_consume_def)
  from step.recv [OF this(1,3,4), of marshal] this(2) have 4: "step marshal demo_open ?d"
    by (simp add: demo_consume_eq)
  have 5: "step marshal ?d ?e"
    using step.send [of ?d demo_rec demo_item marshal] by (simp add: room_def demo_consume_eq emit_cap_def)
  have 6: "step marshal ?e ?f"
    using step.emit [of ?e demo_item "[]" marshal] by (simp add: put_ch_def demo_consume_eq demo_open_def)
  have 7: "step marshal ?f demo_taken"
    using step.emit_ok [of ?f demo_item marshal] by (simp add: demo_taken_def demo_open_def)
  have 8: "step marshal demo_taken ?g"
    using step.mark [of demo_taken demo_item 10 "fst (markEmitted 10 demo_item (rnr demo_taken))" True marshal]
    using demo_marked by (simp add: demo_taken_def prod_eq_iff)
  have "Flush marshal (\<lambda>_. True) 0 (rstore (rnr ?g)) (cpfiles ?g) =
      (fst (Flush marshal (\<lambda>_. True) 0 (rstore (rnr ?g)) (cpfiles ?g)), rstore (rnr ?g), cpfiles ?g)"
    by (simp add: Flush_def flush_calls_def split: option.split)
  from step.flush [OF _ this] have 9: "step marshal ?g demo_end"
    by (simp add: demo_end_def)
  show ?thesis
    by (rule reach_step [OF reach_step [OF reach_step [OF reach_step [OF reach_step [OF reach_step [OF reach_step
      [OF reach_step [OF reach_step [OF reach_start 1] 2] 3] 4] 5] 6] 7] 8] 9])
qed

lemma demo_end_facts:
  "gate (rnr demo_end) = Some (gate_Release (RequestOpenAt \<lparr>Filenum = 1, Offset = 100\<rparr> NewGateCtl))"
  "delivered_pos (rstore (rnr demo_end)) = Some \<lparr>Filenum = 1, Offset = 150\<rparr>"
  "received demo_end = [demo_rec]" "sunk demo_end = [demo_item]" "rcv demo_end = RIdle" "rls demo_end = LDone"
  "emi demo_end = EIdle" "emitCh (rnr demo_end) = []"
  by (code_simp, code_simp, simp_all add: demo_end_def demo_taken_def demo_open_def markEmitted_def Let_def)

lemma demo_store_pos: "delivered_pos \<lparr>path = p, state = empty_state src, dirty = dr\<rparr> = None"
  by (simp add: delivered_pos_def empty_state_def)

theorem handoff_exactly_once_in_order_witness:
  "reach (\<lambda>_. None) demo_boot demo_end \<and> filter is_incr [demo_item] = log_items (cfg (rnr demo_end))
     (gate_Release (RequestOpenAt \<lparr>Filenum = 1, Offset = 100\<rparr> NewGateCtl)) [demo_rec]"
  using handoff_exactly_once_in_order [OF demo_reach [of "\<lambda>_. None", unfolded demo_boot_def]] demo_reach demo_end_facts
  by (simp add: demo_cfg_def)

theorem snapshot_precedes_incremental_witness:
  "\<exists>a b. sunk demo_end = a @ b \<and> list_all (\<lambda>i. \<not> is_incr i) a \<and> list_all (\<lambda>i. \<not> is_snap i) b"
  by (rule snapshot_precedes_incremental [OF demo_reach [of "\<lambda>_. None", unfolded demo_boot_def]]) simp


end
