(* ===== verification/Session.thy ===== *)
theory Session
  imports Runner
begin

text \<open>
  The replication session (\<^verbatim>\<open>internal/replica/handshake.go\<close> and the session part of
  \<^verbatim>\<open>internal/replica/runner.go\<close>): the handshake messages, \<open>establish\<close>, the range acknowledgements and the
  receive loop of \<open>Run\<close>. A connection is what it still delivers and what was written to it; whether a
  write succeeds is part of the connection. The replies of the master, the answers of
  \<^verbatim>\<open>INFO replication\<close> and the clock are arguments.
\<close>

section \<open>Messages\<close>

datatype InnerRequest =
  MetaSyncReq bytes int "bytes option"
| TrySyncReq bytes int bytes position
| BinlogSyncReq bytes int bytes position position "32 word" bool
| DBSyncReq bytes int bytes position

datatype MsgType = kMetaSync | kTrySync | kDBSync | kBinlogSync | kHeartBeat | kRemoveSlaveNode

datatype ReplyCode = kOk | kSyncPointBePurged | kSyncPointLarger | kError

record TrySyncReply =
  ts_SessionId :: "32 word"
  ts_ReplyCode :: ReplyCode
  ts_BinlogOffset :: position

record BinlogSyncEntry =
  bs_SessionId :: "32 word"
  bs_BinlogOffset :: position
  bs_Binlog :: bytes

record InnerResponse =
  resp_Type :: MsgType
  resp_CodeOk :: bool
  resp_Reply :: bytes
  resp_TrySync :: "TrySyncReply option"
  resp_DbSync :: "32 word option"
  resp_BinlogSync :: "BinlogSyncEntry list"

datatype recv_result = RecvErr | RecvTimeout | RecvMsg InnerResponse

record Conn =
  inbox :: "recv_result list"
  sent :: "InnerRequest list"
  send_ok :: bool

datatype run_error = ErrPurged | ErrStalled | ErrStopped | EConnect | ESend | ERecv | EMetaRejected bytes
  | ENoTrySyncReply | ETrySyncRejected ReplyCode | EInfo | EDBSyncMissing | EDBSyncRejected bytes
  | ESinkFailed | EBuffer | ECtxDone | EPanicked

definition conn_send :: "InnerRequest \<Rightarrow> Conn \<Rightarrow> run_error option \<times> Conn" where
  "conn_send req c = (if send_ok c then (None, c\<lparr>sent := sent c @ [req]\<rparr>) else (Some ESend, c))"

definition conn_recv :: "Conn \<Rightarrow> recv_result \<times> Conn" where
  "conn_recv c = (case inbox c of [] \<Rightarrow> (RecvErr, c) | m # ms \<Rightarrow> (m, c\<lparr>inbox := ms\<rparr>))"

section \<open>The handshake\<close>

definition metaSync :: "Config \<Rightarrow> Conn \<Rightarrow> run_error option \<times> Conn" where
  "metaSync cf c =
     (case conn_send (MetaSyncReq (cfg_LocalIP cf) (cfg_LocalPort cf)
                        (if cfg_Password cf \<noteq> [] then Some (cfg_Password cf) else None)) c of
        (Some e, c1) \<Rightarrow> (Some e, c1)
      | (None, c1) \<Rightarrow>
          (case conn_recv c1 of
             (RecvMsg m, c2) \<Rightarrow> if resp_CodeOk m then (None, c2) else (Some (EMetaRejected (resp_Reply m)), c2)
           | (_, c2) \<Rightarrow> (Some ERecv, c2)))"

fun trySync_loop :: "nat \<Rightarrow> Conn \<Rightarrow> (run_error + TrySyncReply) \<times> Conn" where
  "trySync_loop 0 c = (Inl ENoTrySyncReply, c)"
| "trySync_loop (Suc n) c =
     (case conn_recv c of
        (RecvMsg m, c1) \<Rightarrow>
          (case (resp_Type m, resp_TrySync m) of
             (kTrySync, Some ts) \<Rightarrow> (Inr ts, c1)
           | _ \<Rightarrow> trySync_loop n c1)
      | (_, c1) \<Rightarrow> (Inl ERecv, c1))"

definition trySync :: "Config \<Rightarrow> position \<Rightarrow> Conn \<Rightarrow> (run_error + TrySyncReply) \<times> Conn" where
  "trySync cf start c =
     (case conn_send (TrySyncReq (cfg_LocalIP cf) (cfg_LocalPort cf) (cfg_DBName cf) start) c of
        (Some e, c1) \<Rightarrow> (Inl e, c1)
      | (None, c1) \<Rightarrow> trySync_loop 10 c1)"

definition pingTrySync :: "Config \<Rightarrow> position \<Rightarrow> Conn \<Rightarrow> run_error option \<times> Conn" where
  "pingTrySync cf start c = conn_send (TrySyncReq (cfg_LocalIP cf) (cfg_LocalPort cf) (cfg_DBName cf) start) c"

definition ack :: "Config \<Rightarrow> position \<Rightarrow> position \<Rightarrow> 32 word \<Rightarrow> bool \<Rightarrow> Conn \<Rightarrow> run_error option \<times> Conn" where
  "ack cf a b s first c =
     conn_send (BinlogSyncReq (cfg_LocalIP cf) (cfg_LocalPort cf) (cfg_DBName cf) a b s first) c"

definition dbSync :: "Config \<Rightarrow> position \<Rightarrow> Conn \<Rightarrow> (run_error + 32 word) \<times> Conn" where
  "dbSync cf start c =
     (case conn_send (DBSyncReq (cfg_LocalIP cf) (cfg_LocalPort cf) (cfg_DBName cf) start) c of
        (Some e, c1) \<Rightarrow> (Inl e, c1)
      | (None, c1) \<Rightarrow>
          (case conn_recv c1 of
             (RecvMsg m, c2) \<Rightarrow>
               (case (resp_Type m, resp_DbSync m) of
                  (kDBSync, Some s) \<Rightarrow> if resp_CodeOk m then (Inr s, c2) else (Inl (EDBSyncRejected (resp_Reply m)), c2)
                | _ \<Rightarrow> (Inl EDBSyncMissing, c2))
           | (_, c2) \<Rightarrow> (Inl ERecv, c2)))"

text \<open>\<open>connect\<close> dials; \<open>None\<close> is a dial that failed.\<close>

definition DBSyncSetup :: "Config \<Rightarrow> position \<Rightarrow> Conn option \<Rightarrow> run_error + (Conn \<times> 32 word)" where
  "DBSyncSetup cf start dialed =
     (case dialed of
        None \<Rightarrow> Inl EConnect
      | Some c \<Rightarrow>
          (case metaSync cf c of
             (Some e, c1) \<Rightarrow> Inl e
           | (None, c1) \<Rightarrow>
               (case dbSync cf start c1 of (Inl e, c2) \<Rightarrow> Inl e | (Inr s, c2) \<Rightarrow> Inr (c2, s))))"

section \<open>Where a session starts\<close>

definition startOffset :: "Runner \<Rightarrow> position option \<Rightarrow> run_error + position" where
  "startOffset r tip =
     (if cfg_StartAt (cfg r) \<noteq> zero_pos then Inr (cfg_StartAt (cfg r))
      else if HasPos (state (rstore r))
      then Inr \<lparr>Filenum = StFilenum (state (rstore r)), Offset = StOffset (state (rstore r))\<rparr>
      else case tip of None \<Rightarrow> Inl EInfo | Some p \<Rightarrow> Inr p)"

definition anchored :: "Runner \<Rightarrow> bool" where
  "anchored r \<longleftrightarrow> cfg_StartAt (cfg r) \<noteq> zero_pos \<or> HasPos (state (rstore r))"

text \<open>One round of the loop of \<open>establish\<close>: an error, the established session, or another round.\<close>

datatype est = EstErr run_error | EstOk Conn "32 word" position | EstAgain position

definition establish_round :: "Runner \<Rightarrow> nat \<Rightarrow> position \<Rightarrow> Conn option \<Rightarrow> est" where
  "establish_round r attempt start dialed =
     (case dialed of
        None \<Rightarrow> EstErr EConnect
      | Some c \<Rightarrow>
          (case metaSync (cfg r) c of
             (Some e, c1) \<Rightarrow> EstErr e
           | (None, c1) \<Rightarrow>
               (case trySync (cfg r) start c1 of
                  (Inl e, c2) \<Rightarrow> EstErr e
                | (Inr ts, c2) \<Rightarrow>
                    if ts_ReplyCode ts = kSyncPointBePurged then EstErr ErrPurged
                    else if ts_ReplyCode ts \<notin> {kOk, kSyncPointLarger} then EstErr (ETrySyncRejected (ts_ReplyCode ts))
                    else if attempt = 0 \<and> \<not> anchored r \<and> \<not> IsZero (ts_BinlogOffset ts) \<and>
                            (ts_ReplyCode ts = kSyncPointLarger \<or> ts_BinlogOffset ts \<noteq> start)
                    then EstAgain (ts_BinlogOffset ts)
                    else EstOk c2 (ts_SessionId ts) start)))"

lemma establish_round_again: "establish_round r attempt start dialed = EstAgain p \<Longrightarrow> attempt = 0"
  by (auto simp: establish_round_def split: option.splits prod.splits sum.splits if_splits)

function establish_loop :: "Runner \<Rightarrow> nat \<Rightarrow> position \<Rightarrow> (nat \<Rightarrow> Conn option) \<Rightarrow> run_error + (Conn \<times> 32 word \<times> position)" where
  "establish_loop r attempt start dials =
     (case establish_round r attempt start (dials attempt) of
        EstErr e \<Rightarrow> Inl e
      | EstOk c s p \<Rightarrow> Inr (c, s, p)
      | EstAgain p \<Rightarrow> establish_loop r (Suc attempt) p dials)"
  by pat_completeness auto

termination
  by (relation "measure (\<lambda>(r, attempt, start, dials). 1 - attempt)")
    (auto dest!: establish_round_again [OF sym] establish_round_again)

declare establish_loop.simps [simp del]

definition establish :: "Runner \<Rightarrow> position \<Rightarrow> (nat \<Rightarrow> Conn option) \<Rightarrow> run_error + (Conn \<times> 32 word \<times> position)" where
  "establish r start dials = establish_loop r 0 start dials"

section \<open>Acknowledging and probing\<close>

definition maybeAckRange :: "Runner \<Rightarrow> Conn \<Rightarrow> run_error option \<times> Runner \<times> Conn" where
  "maybeAckRange r c =
     (let f = firstUnacked r; t = lastPos r
      in if IsZero f then (case ack (cfg r) zero_pos zero_pos (sid r) False c of (e, c1) \<Rightarrow> (e, r, c1))
         else case ack (cfg r) f t (sid r) False c of
                (Some e, c1) \<Rightarrow> (Some e, r, c1)
              | (None, c1) \<Rightarrow> (None, r\<lparr>firstUnacked := zero_pos\<rparr>, c1))"

definition onTick :: "position \<Rightarrow> Runner \<Rightarrow> Conn \<Rightarrow> run_error option \<times> Runner \<times> Conn" where
  "onTick start r c =
     (case pingTrySync (cfg r) start c of
        (Some e, c1) \<Rightarrow> (Some e, r, c1)
      | (None, c1) \<Rightarrow> maybeAckRange r c1)"

text \<open>\<^verbatim>\<open>INFO replication\<close>: no answer, an answer without a binlog offset, or the master's tail.\<close>

datatype info_result = InfoErr | InfoNoOffset | InfoTail position

definition masterAhead :: "info_result \<Rightarrow> Runner \<Rightarrow> bool option" where
  "masterAhead ri r =
     (case ri of
        InfoErr \<Rightarrow> None
      | InfoNoOffset \<Rightarrow> Some False
      | InfoTail tip \<Rightarrow>
          Some (hasPos r \<and> (Filenum tip > Filenum (lastPos r) \<or>
                (Filenum tip = Filenum (lastPos r) \<and> Offset tip > Offset (lastPos r) + 4096))))"

section \<open>The receive loop\<close>

text \<open>One entry of a batch: \<open>consume\<close> with its append or send carried out.\<close>

definition consume_entry :: "int \<Rightarrow> io \<Rightarrow> io list \<Rightarrow> BinlogSyncEntry \<Rightarrow> Runner \<Rightarrow> run_error option \<times> Runner" where
  "consume_entry now io ios res r =
     (case consume now io (bs_Binlog res) (bs_BinlogOffset res) r of
        (CSkip, r1) \<Rightarrow> (None, r1)
      | (CPanic, r1) \<Rightarrow> (Some EPanicked, r1)
      | (CDrop rec, r1) \<Rightarrow> (None, r1)
      | (CFail rec e, r1) \<Rightarrow> (Some EBuffer, r1)
      | (CEmit rec item, r1) \<Rightarrow>
          if length (emitCh r1) < emit_cap then (None, r1\<lparr>emitCh := emitCh r1 @ [item]\<rparr>) else (Some ECtxDone, r1)
      | (CBuffer rec, r1) \<Rightarrow>
          (case buf r1 of
             None \<Rightarrow> (Some EBuffer, r1)
           | Some b \<Rightarrow>
               (case buf_append ios rec b (disk r1) of
                  (e, b', d') \<Rightarrow> (map_option (\<lambda>_. EBuffer) e, append_done (r1\<lparr>buf := Some b', disk := d'\<rparr>)))))"

fun consume_batch :: "int \<Rightarrow> io \<Rightarrow> io list \<Rightarrow> 32 word \<Rightarrow> BinlogSyncEntry list \<Rightarrow> Runner \<Rightarrow> run_error option \<times> Runner" where
  "consume_batch now io ios sess [] r = (None, r)"
| "consume_batch now io ios sess (res # rest) r =
     (if bs_SessionId res \<noteq> sess then consume_batch now io ios sess rest r
      else case consume_entry now io ios res r of
             (Some e, r1) \<Rightarrow> (Some e, r1)
           | (None, r1) \<Rightarrow> consume_batch now io ios sess rest r1)"

text \<open>
  One turn of the loop of \<open>Run\<close>: an idle second, a failed receive, or a message. The counters are
  \<^verbatim>\<open>stallTicks\<close> and \<^verbatim>\<open>aheadStreak\<close>; \<open>sink_failed\<close> is what \<^verbatim>\<open>ErrSink.Err\<close> reports.
\<close>

datatype turn = Continue Runner Conn nat nat | Return run_error

definition idle_turn :: "int \<Rightarrow> info_result \<Rightarrow> position \<Rightarrow> Runner \<Rightarrow> Conn \<Rightarrow> nat \<Rightarrow> nat \<Rightarrow> turn" where
  "idle_turn now ri start r c stall streak =
     (case onTick start (onIdle now r) c of
        (Some e, r1, c1) \<Rightarrow> Return e
      | (None, r1, c1) \<Rightarrow>
          if stall + 1 \<ge> 10 then
            (case masterAhead ri r1 of
               None \<Rightarrow> Continue r1 c1 0 0
             | Some False \<Rightarrow> Continue r1 c1 0 0
             | Some True \<Rightarrow> if streak + 1 \<ge> 2 then Return ErrStalled else Continue r1 c1 0 (streak + 1))
          else Continue r1 c1 (stall + 1) streak)"

definition msg_turn :: "int \<Rightarrow> io \<Rightarrow> io list \<Rightarrow> bool \<Rightarrow> 32 word \<Rightarrow> InnerResponse \<Rightarrow> Runner \<Rightarrow> Conn \<Rightarrow> turn" where
  "msg_turn now io ios sink_failed sess m r c =
     (if sinkErr r then Return ESinkFailed
      else if sink_failed then Return ESinkFailed
      else if resp_Type m \<noteq> kBinlogSync then Continue r c 0 0
      else case consume_batch now io ios sess (resp_BinlogSync m) r of
             (Some e, r1) \<Rightarrow> Return e
           | (None, r1) \<Rightarrow>
               (case maybeAckRange r1 c of
                  (Some e, r2, c1) \<Rightarrow> Return e
                | (None, r2, c1) \<Rightarrow> Continue r2 c1 0 0))"

definition run_turn :: "int \<Rightarrow> io \<Rightarrow> io list \<Rightarrow> bool \<Rightarrow> info_result \<Rightarrow> position \<Rightarrow> 32 word \<Rightarrow> Runner \<Rightarrow> Conn \<Rightarrow> nat \<Rightarrow> nat \<Rightarrow> turn" where
  "run_turn now io ios sink_failed ri start sess r c stall streak =
     (case conn_recv c of
        (RecvErr, c1) \<Rightarrow> Return ERecv
      | (RecvTimeout, c1) \<Rightarrow> idle_turn now ri start r c1 stall streak
      | (RecvMsg m, c1) \<Rightarrow> msg_turn now io ios sink_failed sess m r c1)"

section \<open>Properties\<close>

lemma conn_recv_sent: "conn_recv c = (m, c') \<Longrightarrow> sent c' = sent c"
  by (auto simp: conn_recv_def split: list.splits)

lemma trySync_loop_sent: "trySync_loop n c = (res, c') \<Longrightarrow> sent c' = sent c"
proof (induction n arbitrary: c)
  case (Suc n)
  obtain m c1 where m: "conn_recv c = (m, c1)" by (cases "conn_recv c")
  then have s: "sent c1 = sent c" by (rule conn_recv_sent)
  show ?case
  proof (cases m)
    case (RecvMsg x)
    then show ?thesis using Suc.prems m s Suc.IH [of c1]
      by (cases "resp_Type x"; cases "resp_TrySync x") auto
  qed (use Suc.prems m s in auto)
qed simp

lemma trySync_sent:
  "trySync cf start c = (Inr ts, c') \<Longrightarrow>
     sent c' = sent c @ [TrySyncReq (cfg_LocalIP cf) (cfg_LocalPort cf) (cfg_DBName cf) start]"
  by (auto simp: trySync_def conn_send_def split: if_splits dest: trySync_loop_sent)

lemma metaSync_sent:
  "metaSync cf c = (None, c') \<Longrightarrow> \<exists>m. sent c' = sent c @ [MetaSyncReq (cfg_LocalIP cf) (cfg_LocalPort cf) m]"
  by (auto simp: metaSync_def conn_send_def split: if_splits recv_result.splits prod.splits dest!: conn_recv_sent)

lemma establish_round_ok:
  assumes "establish_round r attempt start dialed = EstOk c s p"
  shows "p = start \<and> (\<exists>m c0. dialed = Some c0 \<and> sent c = sent c0 @ [MetaSyncReq (cfg_LocalIP (cfg r)) (cfg_LocalPort (cfg r)) m,
    TrySyncReq (cfg_LocalIP (cfg r)) (cfg_LocalPort (cfg r)) (cfg_DBName (cfg r)) p])"
  using assms metaSync_sent trySync_sent unfolding establish_round_def
  by (fastforce split: option.splits prod.splits sum.splits if_splits)

lemma establish_unfold:
  "establish r start dials =
     (case establish_round r 0 start (dials 0) of
        EstErr e \<Rightarrow> Inl e
      | EstOk c s p \<Rightarrow> Inr (c, s, p)
      | EstAgain p \<Rightarrow>
          (case establish_round r 1 p (dials 1) of
             EstErr e \<Rightarrow> Inl e
           | EstOk c s p \<Rightarrow> Inr (c, s, p)
           | EstAgain p' \<Rightarrow> Inl EConnect))"
  using establish_round_again [of r 1]
  by (auto simp: establish_def establish_loop.simps [of r 0] establish_loop.simps [of r "Suc 0"] split: est.split)

text \<open>
  C10. A session starts where it was asked to: \<open>establish\<close> returns after at most two connections; the
  position it reports is the one the last request on the returned connection asked the master
  for; and a runner started from an explicit position or from a checkpoint never moves away from
  it, whatever producer position the master reports.
\<close>

theorem establish_at_requested_position:
  assumes "establish r start dials = Inr (c, s, p)"
  shows "(\<exists>c0 m i. i \<le> (1::nat) \<and> dials i = Some c0 \<and>
      sent c = sent c0 @ [MetaSyncReq (cfg_LocalIP (cfg r)) (cfg_LocalPort (cfg r)) m,
        TrySyncReq (cfg_LocalIP (cfg r)) (cfg_LocalPort (cfg r)) (cfg_DBName (cfg r)) p]) \<and>
    (cfg_StartAt (cfg r) \<noteq> zero_pos \<or> HasPos (state (rstore r)) \<longrightarrow> p = start)"
proof (cases "establish_round r 0 start (dials 0)")
  case (EstErr e)
  then show ?thesis using assms by (simp add: establish_unfold)
next
  case (EstOk c' s' p')
  then show ?thesis using assms establish_round_ok [OF EstOk] by (fastforce simp: establish_unfold)
next
  case (EstAgain p')
  then have na: "\<not> anchored r"
    by (auto simp: establish_round_def split: option.splits prod.splits sum.splits if_splits)
  from EstAgain assms have "establish_round r 1 p' (dials 1) = EstOk c s p"
    by (auto simp: establish_unfold split: est.splits)
  from establish_round_ok [OF this] na show ?thesis by (fastforce simp: anchored_def)
qed

definition demo_master :: "position \<Rightarrow> Conn" where
  "demo_master tip = \<lparr>inbox = [RecvMsg \<lparr>resp_Type = kMetaSync, resp_CodeOk = True, resp_Reply = [], resp_TrySync = None,
       resp_DbSync = None, resp_BinlogSync = []\<rparr>,
     RecvMsg \<lparr>resp_Type = kTrySync, resp_CodeOk = True, resp_Reply = [],
       resp_TrySync = Some \<lparr>ts_SessionId = 7, ts_ReplyCode = kSyncPointLarger, ts_BinlogOffset = tip\<rparr>,
       resp_DbSync = None, resp_BinlogSync = []\<rparr>], sent = [], send_ok = True\<rparr>"

definition demo_runner :: Runner where
  "demo_runner = NewRunner \<lparr>cfg_MasterHost = ''m'', cfg_MasterPort = 9221, cfg_Password = [], cfg_DBName = ''db0'', cfg_LocalIP = ''l'',
     cfg_LocalPort = 1, cfg_SourceID = ''src'', cfg_StartAt = zero_pos, cfg_AckEvery = 0, cfg_Heartbeat = 0,
     cfg_PendingBytesHigh = 0, cfg_ReserveFreeBytes = 0, cfg_BufferDurable = False\<rparr> sample_store None []"

theorem establish_at_requested_position_witness:
  "\<exists>c s. establish demo_runner \<lparr>Filenum = 3, Offset = 100\<rparr> (\<lambda>_. Some (demo_master \<lparr>Filenum = 9, Offset = 9\<rparr>)) =
     Inr (c, s, \<lparr>Filenum = 3, Offset = 100\<rparr>)"
proof -
  let ?e = "establish demo_runner \<lparr>Filenum = 3, Offset = 100\<rparr> (\<lambda>_. Some (demo_master \<lparr>Filenum = 9, Offset = 9\<rparr>))"
  have "isl ?e = False" by code_simp
  then obtain c s p where e: "?e = Inr (c, s, p)" by (cases ?e) auto
  moreover have "HasPos (state (rstore demo_runner))" by code_simp
  ultimately show ?thesis using establish_at_requested_position [OF e] by auto
qed

text \<open>The positions of the entries of a batch that are accounted for, in order.\<close>

definition entry_position :: "BinlogSyncEntry \<Rightarrow> position list" where
  "entry_position res =
     (if bs_Binlog res = [] then []
      else case decode_entry (bs_Binlog res) of
             Decoded it argv \<Rightarrow> [pbEnd (entry_record (bs_Binlog res) (bs_BinlogOffset res) it)]
           | _ \<Rightarrow> [])"

fun batch_positions :: "32 word \<Rightarrow> BinlogSyncEntry list \<Rightarrow> position list" where
  "batch_positions sess [] = []"
| "batch_positions sess (res # rest) =
     (if bs_SessionId res = sess then entry_position res else []) @ batch_positions sess rest"

definition track :: "position \<Rightarrow> position \<times> position \<Rightarrow> position \<times> position" where
  "track p w = (if IsZero (fst w) then p else fst w, p)"

definition window :: "Runner \<Rightarrow> position \<times> position" where
  "window r = (firstUnacked r, lastPos r)"

lemma newBufferLocked_window:
  "newBufferLocked io r = Inr r' \<Longrightarrow> window r' = window r \<and> cfg r' = cfg r \<and> sid r' = sid r"
  by (auto simp: newBufferLocked_def Let_def window_def split: sum.splits prod.splits)

lemma consume_window:
  assumes "consume now io (bs_Binlog res) (bs_BinlogOffset res) r = (act, r')"
  shows "window r' = fold track (entry_position res) (window r) \<and> cfg r' = cfg r \<and> sid r' = sid r"
proof (cases "bs_Binlog res = [] \<or> (\<forall>it argv. decode_entry (bs_Binlog res) \<noteq> Decoded it argv)")
  case True
  then show ?thesis using assms by (auto simp: consume_def entry_position_def split: decoded.splits if_splits)
next
  case False
  then obtain it argv where d: "bs_Binlog res \<noteq> []" "decode_entry (bs_Binlog res) = Decoded it argv" by blast
  let ?rec = "entry_record (bs_Binlog res) (bs_BinlogOffset res) it"
  define r1 where "r1 = account now (pbEnd ?rec) (ExecTime it) r"
  have w: "window r1 = track (pbEnd ?rec) (window r)" "cfg r1 = cfg r" "sid r1 = sid r"
    by (simp_all add: r1_def account_def window_def track_def)
  have "r' = r1 \<or> (\<exists>r2. (r2 = r1 \<or> newBufferLocked io r1 = Inr r2) \<and> r' = r2\<lparr>bufInflight := bufInflight r2 + 1\<rparr>)"
    using assms d by (auto simp: consume_def Let_def r1_def [symmetric] split: if_splits sum.splits)
  then consider "r' = r1" | "r' = r1\<lparr>bufInflight := bufInflight r1 + 1\<rparr>"
    | r2 where "newBufferLocked io r1 = Inr r2" "r' = r2\<lparr>bufInflight := bufInflight r2 + 1\<rparr>"
    by blast
  then have "window r' = window r1 \<and> cfg r' = cfg r1 \<and> sid r' = sid r1"
  proof cases
    case (3 r2)
    then show ?thesis using newBufferLocked_window [OF 3(1)] by (simp add: window_def)
  qed (simp_all add: window_def)
  moreover have "entry_position res = [pbEnd ?rec]" using d by (simp add: entry_position_def)
  ultimately show ?thesis using w by simp
qed

lemma consume_entry_window:
  assumes "consume_entry now io ios res r = (e, r')"
  shows "window r' = fold track (entry_position res) (window r) \<and> cfg r' = cfg r \<and> sid r' = sid r"
proof -
  obtain act r1 where c: "consume now io (bs_Binlog res) (bs_BinlogOffset res) r = (act, r1)"
    by (cases "consume now io (bs_Binlog res) (bs_BinlogOffset res) r")
  have "window r' = window r1 \<and> cfg r' = cfg r1 \<and> sid r' = sid r1"
    using assms c by (cases act)
      (auto simp: consume_entry_def window_def append_done_def split: if_splits option.splits prod.splits)
  then show ?thesis using consume_window [OF c] by simp
qed

lemma consume_batch_window:
  "consume_batch now io ios sess batch r = (None, r') \<Longrightarrow>
     window r' = fold track (batch_positions sess batch) (window r) \<and> cfg r' = cfg r \<and> sid r' = sid r"
proof (induction batch arbitrary: r)
  case (Cons res rest)
  show ?case
  proof (cases "bs_SessionId res = sess")
    case True
    then obtain r1 where r1: "consume_entry now io ios res r = (None, r1)" "consume_batch now io ios sess rest r1 = (None, r')"
      using Cons.prems by (auto split: prod.splits option.splits)
    then show ?thesis using Cons.IH [OF r1(2)] consume_entry_window [OF r1(1)] True by simp
  qed (use Cons in simp)
qed simp

lemma track_fold:
  assumes "zero_pos \<notin> set ps" "fst w \<noteq> zero_pos"
  shows "fold track ps w = (fst w, if ps = [] then snd w else last ps)"
  using assms by (induction ps arbitrary: w) (auto simp: track_def)

lemma track_fold_zero:
  assumes "zero_pos \<notin> set ps" "ps \<noteq> []"
  shows "fold track ps (zero_pos, q) = (hd ps, last ps)"
proof -
  obtain p rest where ps: "ps = p # rest" using assms(2) by (cases ps) auto
  have "track p (zero_pos, q) = (p, p)" by (simp add: track_def)
  then show ?thesis using track_fold [of rest "(p, p)"] assms(1) ps by auto
qed

text \<open>
  C11. Every batch is acknowledged exactly once, by its own range: when a message is processed
  with nothing left unacknowledged, exactly one acknowledgement is written, from the first to
  the last entry of the batch that belongs to the session (an all-zero ping when there is none),
  and again nothing is left unacknowledged.
\<close>

theorem batch_acked_exactly_once:
  assumes "msg_turn now io ios sink_failed sess m r c = Continue r2 c2 k1 k2" "resp_Type m = kBinlogSync"
    and "firstUnacked r = zero_pos" "zero_pos \<notin> set (batch_positions sess (resp_BinlogSync m))"
  shows "firstUnacked r2 = zero_pos \<and>
    (let ps = batch_positions sess (resp_BinlogSync m)
     in sent c2 = sent c @ [BinlogSyncReq (cfg_LocalIP (cfg r)) (cfg_LocalPort (cfg r)) (cfg_DBName (cfg r))
          (if ps = [] then zero_pos else hd ps) (if ps = [] then zero_pos else last ps) (sid r) False])"
proof -
  obtain r1 where r1: "consume_batch now io ios sess (resp_BinlogSync m) r = (None, r1)" "maybeAckRange r1 c = (None, r2, c2)"
    using assms(1,2) by (auto simp: msg_turn_def split: if_splits prod.splits option.splits)
  note w = consume_batch_window [OF r1(1)]
  let ?ps = "batch_positions sess (resp_BinlogSync m)"
  have win: "window r = (zero_pos, lastPos r)" using assms(3) by (simp add: window_def)
  show ?thesis
  proof (cases "?ps = []")
    case True
    then have "firstUnacked r1 = zero_pos" using w win by (simp add: window_def)
    then show ?thesis using r1(2) w True
      by (auto simp: maybeAckRange_def Let_def ack_def conn_send_def split: if_splits)
  next
    case False
    then have "firstUnacked r1 = hd ?ps" "lastPos r1 = last ?ps" "hd ?ps \<noteq> zero_pos"
      using w win track_fold_zero [OF assms(4) False] assms(4) by (auto simp: window_def dest: hd_in_set)
    then show ?thesis using r1(2) w False
      by (auto simp: maybeAckRange_def Let_def ack_def conn_send_def split: if_splits)
  qed
qed

text \<open>A stretch of consecutive receive timeouts, each with the probe's answer, were it made.\<close>

fun idle_run :: "position \<Rightarrow> (int \<times> info_result) list \<Rightarrow> Runner \<Rightarrow> Conn \<Rightarrow> nat \<Rightarrow> nat \<Rightarrow> turn" where
  "idle_run start [] r c stall streak = Continue r c stall streak"
| "idle_run start ((now, ri) # xs) r c stall streak =
     (case idle_turn now ri start r c stall streak of
        Return e \<Rightarrow> Return e
      | Continue r1 c1 stall1 streak1 \<Rightarrow> idle_run start xs r1 c1 stall1 streak1)"

lemma onTick_error: "onTick start r c = (Some e, r1, c1) \<Longrightarrow> e = ESend"
  by (auto simp: onTick_def pingTrySync_def maybeAckRange_def ack_def conn_send_def Let_def split: if_splits)

lemma idle_turn_cases:
  assumes "stall < 10" "streak < 2"
  shows "idle_turn now ri start r c stall streak = Return ErrStalled \<Longrightarrow> stall = 9 \<and> streak = 1"
    and "idle_turn now ri start r c stall streak = Continue r1 c1 stall1 streak1 \<Longrightarrow>
      stall1 < 10 \<and> streak1 < 2 \<and> stall1 + 10 * streak1 \<le> Suc (stall + 10 * streak)"
  using assms onTick_error [of start "onIdle now r" c ErrStalled]
  by (auto simp: idle_turn_def split: prod.splits option.splits if_splits bool.splits)

text \<open>
  A session is declared stalled only after at least twenty consecutive idle seconds without a
  single message, counted from the last message received: no shorter silence tears it down.
\<close>

theorem stalled_only_after_idle:
  assumes "idle_run start xs r c 0 0 = Return ErrStalled"
  shows "length xs \<ge> 20"
proof -
  have "length xs + (stall + 10 * streak) \<ge> 20"
    if "idle_run start xs r c stall streak = Return ErrStalled" "stall < 10" "streak < 2" for stall streak r c
    using that
  proof (induction xs arbitrary: r c stall streak)
    case (Cons x xs)
    obtain now ri where x: "x = (now, ri)" by (cases x)
    show ?case
    proof (cases "idle_turn now ri start r c stall streak")
      case (Return e)
      then show ?thesis using Cons.prems x idle_turn_cases(1) [OF Cons.prems(2,3), of now ri start r c] by simp
    next
      case (Continue r1 c1 st1 sk1)
      then have "idle_run start xs r1 c1 st1 sk1 = Return ErrStalled" using Cons.prems x by simp
      then show ?thesis
        using Cons.IH idle_turn_cases(2) [OF Cons.prems(2,3) Continue] by fastforce
    qed
  qed simp
  from this [of r c 0 0] assms show ?thesis by simp
qed

definition demo_batch :: InnerResponse where
  "demo_batch = \<lparr>resp_Type = kBinlogSync, resp_CodeOk = True, resp_Reply = [], resp_TrySync = None, resp_DbSync = None,
     resp_BinlogSync = [\<lparr>bs_SessionId = 7, bs_BinlogOffset = \<lparr>Filenum = 3, Offset = 200\<rparr>,
       bs_Binlog = item_bytes \<lparr>ItemType = 1, ExecTime = 5, TermID = 0, LogicID = 0, ItemFilenum = 3, ItemOffset = 100,
         Content = SerializeArray [''set'', ''k'', ''v'']\<rparr>\<rparr>]\<rparr>"

definition demo_conn :: Conn where
  "demo_conn = \<lparr>inbox = [], sent = [], send_ok = True\<rparr>"

lemma demo_positions: "batch_positions 7 (resp_BinlogSync demo_batch) = [\<lparr>Filenum = 3, Offset = 200\<rparr>]"
  by code_simp

fun is_continue :: "turn \<Rightarrow> bool" where
  "is_continue (Continue r c a b) = True"
| "is_continue (Return e) = False"

theorem batch_acked_exactly_once_witness:
  "\<exists>r2 c2 k1 k2. msg_turn 9 sample_io [] False 7 demo_batch demo_runner demo_conn = Continue r2 c2 k1 k2 \<and>
     firstUnacked r2 = zero_pos \<and>
     sent c2 = [BinlogSyncReq ''l'' 1 ''db0'' \<lparr>Filenum = 3, Offset = 200\<rparr> \<lparr>Filenum = 3, Offset = 200\<rparr> 0 False]"
proof -
  have "is_continue (msg_turn 9 sample_io [] False 7 demo_batch demo_runner demo_conn)" by code_simp
  then obtain r2 c2 k1 k2 where m: "msg_turn 9 sample_io [] False 7 demo_batch demo_runner demo_conn = Continue r2 c2 k1 k2"
    by (metis is_continue.simps(2) turn.exhaust)
  have "resp_Type demo_batch = kBinlogSync" "firstUnacked demo_runner = zero_pos"
    "zero_pos \<notin> set (batch_positions 7 (resp_BinlogSync demo_batch))"
    by (simp_all add: demo_batch_def demo_runner_def NewRunner_def) (code_simp)
  from batch_acked_exactly_once [OF m this] m show ?thesis
    by (simp add: demo_positions demo_conn_def) (simp add: demo_runner_def NewRunner_def)
qed

definition demo_silence :: "(int \<times> info_result) list" where
  "demo_silence = replicate 20 (0, InfoTail \<lparr>Filenum = 9, Offset = 0\<rparr>)"

theorem stalled_only_after_idle_witness:
  "idle_run zero_pos demo_silence (demo_runner\<lparr>hasPos := True\<rparr>) demo_conn 0 0 = Return ErrStalled \<and> length demo_silence \<ge> 20"
proof -
  have "idle_run zero_pos demo_silence (demo_runner\<lparr>hasPos := True\<rparr>) demo_conn 0 0 = Return ErrStalled"
    by code_simp
  then show ?thesis using stalled_only_after_idle by blast
qed

end
