(* ===== verification/Ring.thy ===== *)
theory Ring
  imports Position "HOL-Library.AList"
begin

text \<open>
  The completion ring of the asynchronous sinks (\<^verbatim>\<open>internal/sink/ring.go\<close>): ordinals are claimed in
  emission order, their outcomes are reported in any order, and \<open>Advance\<close> consumes the contiguous
  prefix that completed without error. Ordinals are naturals: a \<^verbatim>\<open>uint64\<close> counter of emissions does
  not wrap in practice. An outcome's error is whether there was one.
\<close>

record ringItem =
  ri_pos :: position
  ri_err :: bool

record seqRing =
  ring_next :: nat
  ring_base :: nat
  ring_consumed :: nat
  ring_items :: "(nat \<times> ringItem) list"
  ring_closed :: bool

definition new_ring :: seqRing where
  "new_ring = \<lparr>ring_next = 0, ring_base = 0, ring_consumed = 0, ring_items = [], ring_closed = False\<rparr>"

definition AdvanceConsumed :: "seqRing \<Rightarrow> nat" where
  "AdvanceConsumed r = ring_consumed r"

definition ring_Next :: "seqRing \<Rightarrow> nat \<times> seqRing" where
  "ring_Next r = (ring_next r, r\<lparr>ring_next := ring_next r + 1\<rparr>)"

definition ring_Done :: "nat \<Rightarrow> position \<Rightarrow> bool \<Rightarrow> seqRing \<Rightarrow> seqRing" where
  "ring_Done n pos err r =
     (if ring_closed r then r else r\<lparr>ring_items := AList.update n \<lparr>ri_pos = pos, ri_err = err\<rparr> (ring_items r)\<rparr>)"

lemma length_delete_less: "map_of al k = Some v \<Longrightarrow> length (AList.delete k al) < length al"
  by (induction al) (auto simp: AList.delete_eq le_imp_less_Suc)

function advance_loop :: "seqRing \<Rightarrow> bool \<Rightarrow> position \<Rightarrow> seqRing \<times> bool \<times> position \<times> bool" where
  "advance_loop r adv lst =
     (case map_of (ring_items r) (ring_base r) of
        None \<Rightarrow> (r, adv, lst, False)
      | Some it \<Rightarrow>
          if ri_err it then (r, adv, lst, True)
          else advance_loop (r\<lparr>ring_items := AList.delete (ring_base r) (ring_items r), ring_base := ring_base r + 1,
                               ring_consumed := ring_consumed r + 1\<rparr>) True
                 (if IsZero (ri_pos it) then lst else ri_pos it))"
  by pat_completeness auto
termination
  by (relation "measure (\<lambda>(r, adv, lst). length (ring_items r))") (auto simp: length_delete_less)

declare advance_loop.simps [simp del]

text \<open>The position, whether an error stopped the prefix, and whether anything was consumed.\<close>

definition Advance :: "seqRing \<Rightarrow> (position \<times> bool \<times> bool) \<times> seqRing" where
  "Advance r = (case advance_loop r False zero_pos of (r', adv, lst, err) \<Rightarrow> ((lst, err, adv), r'))"

definition ring_Close :: "seqRing \<Rightarrow> seqRing" where
  "ring_Close r = r\<lparr>ring_closed := True\<rparr>"

section \<open>The consumed prefix\<close>

text \<open>
  \<open>ok n p\<close>: ordinal \<open>n\<close> was reported complete with position \<open>p\<close> and no error. The ring holds only reported
  outcomes, and everything below its base was reported complete.
\<close>

definition ring_inv :: "(nat \<Rightarrow> position \<Rightarrow> bool) \<Rightarrow> seqRing \<Rightarrow> bool" where
  "ring_inv ok r \<longleftrightarrow>
     (\<forall>n it. map_of (ring_items r) n = Some it \<and> \<not> ri_err it \<longrightarrow> ok n (ri_pos it)) \<and>
     (\<forall>n < ring_base r. \<exists>p. ok n p)"

lemma ring_inv_new [simp]: "ring_inv ok new_ring"
  by (simp add: ring_inv_def new_ring_def)

lemma ring_inv_mono: "ring_inv ok r \<Longrightarrow> (\<And>n p. ok n p \<Longrightarrow> ok' n p) \<Longrightarrow> ring_inv ok' r"
  unfolding ring_inv_def by blast

lemma ring_inv_Next [simp]: "ring_inv ok (snd (ring_Next r)) = ring_inv ok r"
  by (simp add: ring_inv_def ring_Next_def)

lemma ring_inv_Done:
  "ring_inv ok r \<Longrightarrow> (\<not> err \<Longrightarrow> ok n p) \<Longrightarrow> ring_inv ok (ring_Done n p err r)"
  by (auto simp: ring_inv_def ring_Done_def update_conv' split: if_splits)

lemma advance_loop_inv:
  assumes "ring_inv ok r" "advance_loop r adv lst = (r', adv', lst', err)" "lst \<noteq> zero_pos \<longrightarrow> (\<exists>n < ring_base r. ok n lst)"
  shows "ring_inv ok r' \<and> ring_base r \<le> ring_base r' \<and> (lst' \<noteq> zero_pos \<longrightarrow> (\<exists>n < ring_base r'. ok n lst')) \<and>
    map_of (ring_items r') (ring_base r') = (if err then map_of (ring_items r') (ring_base r') else None)"
  using assms
proof (induction r adv lst rule: advance_loop.induct)
  case (1 r adv lst)
  show ?case
  proof (cases "map_of (ring_items r) (ring_base r)")
    case None
    then show ?thesis using 1(2-4) by (auto simp: advance_loop.simps [of r])
  next
    case (Some it)
    show ?thesis
    proof (cases "ri_err it")
      case True
      then show ?thesis using Some 1(2-4) by (auto simp: advance_loop.simps [of r])
    next
      case False
      let ?r = "r\<lparr>ring_items := AList.delete (ring_base r) (ring_items r), ring_base := ring_base r + 1,
          ring_consumed := ring_consumed r + 1\<rparr>"
      let ?l = "if IsZero (ri_pos it) then lst else ri_pos it"
      have "ok (ring_base r) (ri_pos it)" using Some False 1(2) by (auto simp: ring_inv_def)
      then have inv: "ring_inv ok ?r" and l: "?l \<noteq> zero_pos \<longrightarrow> (\<exists>n < ring_base ?r. ok n ?l)"
        using 1(2,4) by (auto simp: ring_inv_def delete_conv' less_Suc_eq split: if_splits)
      have "advance_loop ?r True ?l = (r', adv', lst', err)"
        using Some False 1(3) by (simp add: advance_loop.simps [of r])
      from 1(1) [OF Some False inv this l] show ?thesis by simp
    qed
  qed
qed

lemma Advance_inv:
  assumes "ring_inv ok r" "Advance r = ((p, err, adv), r')"
  shows "ring_inv ok r' \<and> ring_base r \<le> ring_base r' \<and> (p \<noteq> zero_pos \<longrightarrow> (\<exists>n < ring_base r'. ok n p))"
  using advance_loop_inv [of ok r False zero_pos] assms by (auto simp: Advance_def split: prod.splits)

text \<open>An ordinal that is claimed but never reported holds the prefix back for good.\<close>

lemma advance_loop_stops:
  assumes "map_of (ring_items r) n = None" "ring_base r \<le> n" "advance_loop r adv lst = (r', adv', lst', err)"
  shows "ring_base r' \<le> n \<and> map_of (ring_items r') n = None"
  using assms
proof (induction r adv lst rule: advance_loop.induct)
  case (1 r adv lst)
  show ?case
  proof (cases "map_of (ring_items r) (ring_base r)")
    case None
    then show ?thesis using 1(2-4) by (auto simp: advance_loop.simps [of r])
  next
    case (Some it)
    then have "ring_base r \<noteq> n" using 1(2) by auto
    then show ?thesis using 1 Some
      by (cases "ri_err it") (auto simp: advance_loop.simps [of r] delete_conv')
  qed
qed

end
