(* ===== verification/KafkaSink.thy ===== *)
theory KafkaSink
  imports Envelope Ring
begin

text \<open>
  The Kafka sink (\<^verbatim>\<open>internal/sink/kafka.go\<close>). Events are assigned a partition and a worker queue
  by the hash of their key; the goroutines of a queue collect batches, write them and report every item to the completion ring; the notifier gets the
  position of the completed prefix. The broker is the environment: a write succeeds or fails.
\<close>

unbundle bit_operations_syntax

section \<open>Encoding\<close>

text \<open>
  \<^verbatim>\<open>json.Marshal\<close> of a value with a \<^verbatim>\<open>MarshalJSON\<close> method compacts its output and escapes the HTML
  characters and the two Unicode line separators; the output has no white space to remove.
\<close>

fun html_escape :: "bytes \<Rightarrow> bytes" where
  "html_escape [] = []"
| "html_escape (c # cs) =
     (if c = CHR ''<'' \<or> c = CHR ''>'' \<or> c = CHR ''&'' then [CHR 0x5C] @ ''u00'' @ hex c @ html_escape cs
      else if c = CHR 0xE2 \<and> (take 2 cs = [CHR 0x80, CHR 0xA8] \<or> take 2 cs = [CHR 0x80, CHR 0xA9])
      then [CHR 0x5C] @ ''u202'' @ [hex_digit (byte_val (cs ! 1) mod 16)] @ html_escape (drop 2 cs)
      else c # html_escape cs)"

definition json_Marshal :: "Event \<Rightarrow> bytes" where
  "json_Marshal ev = html_escape (MarshalJSON ev)"

section \<open>State\<close>

record KafkaConfig =
  RequiredAcks :: int
  WorkersPerPart :: int
  BatchSize :: int
  BatchTimeout :: int
  QueueDepth :: int
  Compression :: bytes

record kafkaItem =
  km_part :: nat
  km_key :: bytes
  km_value :: bytes
  km_ord :: nat
  km_pos :: position

datatype worker = Collect "kafkaItem list" | Report "kafkaItem list" bool

record KafkaSink =
  k_cfg :: KafkaConfig
  k_parts :: nat
  k_ring :: seqRing
  k_queues :: "kafkaItem list list"
  k_workers :: "worker list"
  k_err :: bool
  k_includeHB :: bool
  k_written :: "kafkaItem list"
  k_notified :: "position list"

datatype kafka_error = EUnknownCompression | EDial | EPartitions | ENoPartitions

definition kafka_defaults :: "KafkaConfig \<Rightarrow> KafkaConfig" where
  "kafka_defaults c =
     c\<lparr>RequiredAcks := (if RequiredAcks c = 0 then -1 else RequiredAcks c),
       WorkersPerPart := (if WorkersPerPart c \<le> 0 then 2 else WorkersPerPart c),
       BatchSize := (if BatchSize c \<le> 0 then 256 else BatchSize c),
       BatchTimeout := (if BatchTimeout c \<le> 0 then 20000000 else BatchTimeout c),
       QueueDepth := (if QueueDepth c \<le> 0 then 512 else QueueDepth c)\<rparr>"

text \<open>\<open>dialed\<close>: whether the first broker answered; \<open>parts\<close>: the partitions it reports for the topic.\<close>

definition NewKafkaSink :: "KafkaConfig \<Rightarrow> bool \<Rightarrow> nat option \<Rightarrow> kafka_error + KafkaSink" where
  "NewKafkaSink c0 dialed parts =
     (let c = kafka_defaults c0
      in if Compression c \<notin> set [[], ''none'', ''gzip'', ''snappy'', ''lz4'', ''zstd''] then Inl EUnknownCompression
         else if \<not> dialed then Inl EDial
         else case parts of
                None \<Rightarrow> Inl EPartitions
              | Some n \<Rightarrow>
                  if n = 0 then Inl ENoPartitions
                  else let w = nat (WorkersPerPart c); nq = n * w
                       in Inr \<lparr>k_cfg = c, k_parts = n, k_ring = new_ring, k_queues = replicate nq [],
                               k_workers = replicate (nq * w) (Collect []), k_err = False, k_includeHB = False,
                               k_written = [], k_notified = []\<rparr>)"

section \<open>Operations\<close>

text \<open>\<^verbatim>\<open>fnv.New32a\<close>.\<close>

definition hashKey :: "bytes \<Rightarrow> 32 word" where
  "hashKey k = fold (\<lambda>c h. (h XOR of_nat (byte_val c)) * 16777619) k 2166136261"

definition part_of :: "nat \<Rightarrow> bytes \<Rightarrow> nat" where
  "part_of parts key = unat (hashKey key mod of_nat parts)"

definition worker_of :: "nat \<Rightarrow> nat \<Rightarrow> bytes \<Rightarrow> nat" where
  "worker_of parts w key = part_of parts key * w + unat (drop_bit 1 (hashKey key) mod of_nat w)"

datatype kemit = KErr | KSkip | KQueued KafkaSink | KFull KafkaSink

definition k_w :: "KafkaSink \<Rightarrow> nat" where
  "k_w s = nat (WorkersPerPart (k_cfg s))"

definition emit_item :: "KafkaSink \<Rightarrow> Event \<Rightarrow> kafkaItem" where
  "emit_item s ev =
     \<lparr>km_part = part_of (k_parts s) (KafkaKey ev), km_key = KafkaKey ev, km_value = json_Marshal ev,
      km_ord = fst (ring_Next (k_ring s)),
      km_pos = (if SrcFilenum (EvSource ev) \<noteq> 0 \<or> SrcOffset (EvSource ev) \<noteq> 0
                then \<lparr>Filenum = SrcFilenum (EvSource ev), Offset = SrcOffset (EvSource ev)\<rparr> else zero_pos)\<rparr>"

text \<open>\<open>Emit\<close>: the ordinal is claimed before the send; with a full queue the send waits or is cancelled.\<close>

definition kafka_Emit :: "Event \<Rightarrow> KafkaSink \<Rightarrow> kemit" where
  "kafka_Emit ev s =
     (if k_err s then KErr
      else if \<not> k_includeHB s \<and> EvPhase ev = PhaseHeartbeat then KSkip
      else let i = worker_of (k_parts s) (k_w s) (KafkaKey ev);
               item = emit_item s ev;
               s1 = s\<lparr>k_ring := snd (ring_Next (k_ring s))\<rparr>
           in if int (length (k_queues s ! i)) < QueueDepth (k_cfg s)
              then KQueued (s1\<lparr>k_queues := (k_queues s1)[i := k_queues s1 ! i @ [item]]\<rparr>)
              else KFull s1)"

text \<open>
  The worker goroutines. Goroutine \<open>g\<close> serves queue \<^term>\<open>g div k_w s\<close>: the constructor starts
  \<^verbatim>\<open>WorkersPerPart\<close> of them on every queue.
\<close>

definition worker_take :: "nat \<Rightarrow> KafkaSink \<Rightarrow> KafkaSink option" where
  "worker_take g s =
     (case (k_workers s ! g, k_queues s ! (g div k_w s)) of
        (Collect batch, item # rest) \<Rightarrow>
          if int (length batch) < BatchSize (k_cfg s)
          then Some (s\<lparr>k_workers := (k_workers s)[g := Collect (batch @ [item])],
                       k_queues := (k_queues s)[g div k_w s := rest]\<rparr>)
          else None
      | _ \<Rightarrow> None)"

definition worker_write :: "nat \<Rightarrow> bool \<Rightarrow> KafkaSink \<Rightarrow> KafkaSink option" where
  "worker_write g ok s =
     (case k_workers s ! g of
        Collect batch \<Rightarrow>
          if batch = [] then None
          else Some (s\<lparr>k_workers := (k_workers s)[g := Report batch (\<not> ok)], k_err := k_err s \<or> \<not> ok,
                       k_written := k_written s @ (if ok then batch else [])\<rparr>)
      | _ \<Rightarrow> None)"

definition worker_report :: "nat \<Rightarrow> KafkaSink \<Rightarrow> KafkaSink option" where
  "worker_report g s =
     (case k_workers s ! g of
        Report [] err \<Rightarrow> Some (s\<lparr>k_workers := (k_workers s)[g := Collect []]\<rparr>)
      | Report (item # rest) err \<Rightarrow>
          Some (s\<lparr>k_workers := (k_workers s)[g := Report rest err],
                  k_ring := ring_Done (km_ord item) (km_pos item) err (k_ring s)\<rparr>)
      | _ \<Rightarrow> None)"

text \<open>One turn of \<open>drainPrefix\<close>; the notifier is called with a non-zero position.\<close>

definition drainPrefix :: "KafkaSink \<Rightarrow> KafkaSink" where
  "drainPrefix s =
     (case Advance (k_ring s) of
        ((pos, err, adv), r) \<Rightarrow>
          s\<lparr>k_ring := r, k_notified := k_notified s @ (if adv \<and> \<not> IsZero pos then [pos] else [])\<rparr>)"

inductive kstep :: "KafkaSink \<Rightarrow> KafkaSink \<Rightarrow> bool" where
  k_emit: "kafka_Emit ev s = KQueued s' \<Longrightarrow> kstep s s'"
| k_cancelled: "kafka_Emit ev s = KFull s' \<Longrightarrow> kstep s s'"
| k_take: "g < length (k_workers s) \<Longrightarrow> worker_take g s = Some s' \<Longrightarrow> kstep s s'"
| k_write: "g < length (k_workers s) \<Longrightarrow> worker_write g ok s = Some s' \<Longrightarrow> kstep s s'"
| k_report: "g < length (k_workers s) \<Longrightarrow> worker_report g s = Some s' \<Longrightarrow> kstep s s'"
| k_drain: "kstep s (drainPrefix s)"

inductive kreach :: "KafkaSink \<Rightarrow> KafkaSink \<Rightarrow> bool" for s0 where
  kreach_start: "kreach s0 s0"
| kreach_step: "kreach s0 s \<Longrightarrow> kstep s t \<Longrightarrow> kreach s0 t"

section \<open>Properties\<close>

lemma NewKafkaSinkD:
  assumes "NewKafkaSink c dialed parts = Inr s"
  shows "k_w s > 0" "k_parts s > 0" "k_ring s = new_ring" "k_written s = []" "k_notified s = []"
    "k_queues s = replicate (k_parts s * k_w s) []" "k_workers s = replicate (k_parts s * k_w s * k_w s) (Collect [])"
    "k_w s = nat (if WorkersPerPart c \<le> 0 then 2 else WorkersPerPart c)"
proof -
  let ?w = "nat (WorkersPerPart (kafka_defaults c))"
  obtain n where n: "n > 0" "s = \<lparr>k_cfg = kafka_defaults c, k_parts = n, k_ring = new_ring, k_queues = replicate (n * ?w) [],
      k_workers = replicate (n * ?w * ?w) (Collect []), k_err = False, k_includeHB = False, k_written = [], k_notified = []\<rparr>"
    using assms unfolding NewKafkaSink_def Let_def by (simp split: if_splits option.splits)
  have w: "?w = nat (if WorkersPerPart c \<le> 0 then 2 else WorkersPerPart c)" by (simp add: kafka_defaults_def)
  then have "?w > 0" by simp
  with n w show "k_w s > 0" "k_parts s > 0" "k_ring s = new_ring" "k_written s = []" "k_notified s = []"
    "k_queues s = replicate (k_parts s * k_w s) []" "k_workers s = replicate (k_parts s * k_w s * k_w s) (Collect [])"
    "k_w s = nat (if WorkersPerPart c \<le> 0 then 2 else WorkersPerPart c)"
    by (simp_all add: k_w_def)
qed

lemma unat_mod_less:
  assumes "0 < n" "n < 2 ^ 32"
  shows "unat ((h :: 32 word) mod of_nat n) < n"
  using assms by (simp add: unat_mod unat_of_nat)

lemma worker_of_less:
  assumes "0 < parts" "parts < 2 ^ 32" "0 < w" "w < 2 ^ 32"
  shows "worker_of parts w key < parts * w"
proof -
  have "part_of parts key * w + unat (drop_bit 1 (hashKey key) mod of_nat w) < part_of parts key * w + w"
    using unat_mod_less [OF assms(3,4)] by simp
  also have "\<dots> = (part_of parts key + 1) * w" by simp
  also have "\<dots> \<le> parts * w"
    using unat_mod_less [OF assms(1,2), of "hashKey key"] by (intro mult_le_mono) (auto simp: part_of_def)
  finally show ?thesis by (simp add: worker_of_def)
qed

lemma kafka_queue_range:
  assumes "NewKafkaSink c dialed (Some n) = Inr s" "n < 2 ^ 32" "WorkersPerPart c < 2 ^ 32"
  shows "part_of (k_parts s) key < k_parts s" "worker_of (k_parts s) (k_w s) key < length (k_queues s)"
proof -
  have n: "k_parts s = n" using assms(1) by (auto simp: NewKafkaSink_def Let_def split: if_splits)
  note D = NewKafkaSinkD [OF assms(1)]
  have w: "k_w s < 2 ^ 32" using D(8) assms(3) by (simp split: if_splits)
  have "worker_of (k_parts s) (k_w s) key < k_parts s * k_w s"
    using worker_of_less D(1,2) n assms(2) w by simp
  then show "worker_of (k_parts s) (k_w s) key < length (k_queues s)" using D(6) by simp
  show "part_of (k_parts s) key < k_parts s"
    using unat_mod_less [of n "hashKey key"] D(2) n assms(2) by (simp add: part_of_def)
qed

text \<open>
  Every event is sent to an existing partition and an existing worker queue, and all events
  of a key to the same ones: with the constructor's defaults applied the two hash computations stay
  in range for every topic.
\<close>

theorem kafka_queue_in_range:
  assumes "NewKafkaSink c dialed (Some n) = Inr s" "n < 2 ^ 32" "WorkersPerPart c < 2 ^ 32"
  shows "part_of (k_parts s) key < k_parts s \<and> worker_of (k_parts s) (k_w s) key < length (k_queues s) \<and>
    k_queues s ! worker_of (k_parts s) (k_w s) key = []"
  using kafka_queue_range [OF assms] NewKafkaSinkD(6) [OF assms(1)] by simp

definition demo_kafka :: "int \<Rightarrow> KafkaConfig" where
  "demo_kafka w = \<lparr>RequiredAcks = 0, WorkersPerPart = w, BatchSize = 0, BatchTimeout = 0, QueueDepth = 0, Compression = []\<rparr>"

definition demo_sink :: "int \<Rightarrow> KafkaSink" where
  "demo_sink w = projr (NewKafkaSink (demo_kafka w) True (Some 1))"

lemma demo_sink_eq: "NewKafkaSink (demo_kafka w) True (Some 1) = Inr (demo_sink w)"
  by (simp add: NewKafkaSink_def demo_sink_def demo_kafka_def kafka_defaults_def Let_def)

theorem kafka_queue_in_range_witness:
  "part_of (k_parts (demo_sink 0)) ''k'' < k_parts (demo_sink 0) \<and>
   worker_of (k_parts (demo_sink 0)) (k_w (demo_sink 0)) ''k'' < length (k_queues (demo_sink 0)) \<and>
   k_queues (demo_sink 0) ! worker_of (k_parts (demo_sink 0)) (k_w (demo_sink 0)) ''k'' = []"
  by (rule kafka_queue_in_range [OF demo_sink_eq]) (simp_all add: demo_kafka_def)

subsection \<open>The notified prefix\<close>

definition k_ok :: "KafkaSink \<Rightarrow> nat \<Rightarrow> position \<Rightarrow> bool" where
  "k_ok s n p \<longleftrightarrow> (\<exists>it \<in> set (k_written s). km_ord it = n \<and> km_pos it = p)"

lemma k_ok_simps [simp]:
  "k_ok (s\<lparr>k_ring := r\<rparr>) = k_ok s" "k_ok (s\<lparr>k_queues := q\<rparr>) = k_ok s" "k_ok (s\<lparr>k_workers := w\<rparr>) = k_ok s"
  "k_ok (s\<lparr>k_notified := ps\<rparr>) = k_ok s"
  by (simp_all add: k_ok_def fun_eq_iff)

fun reported_ok :: "kafkaItem set \<Rightarrow> worker \<Rightarrow> bool" where
  "reported_ok W (Report items False) \<longleftrightarrow> set items \<subseteq> W"
| "reported_ok W _ \<longleftrightarrow> True"

definition kinv :: "KafkaSink \<Rightarrow> bool" where
  "kinv s \<longleftrightarrow> ring_inv (k_ok s) (k_ring s) \<and> (\<forall>w \<in> set (k_workers s). reported_ok (set (k_written s)) w) \<and>
     (\<forall>p \<in> set (k_notified s). \<exists>n. k_ok s n p \<and> (\<forall>m \<le> n. \<exists>q. k_ok s m q))"

lemma reported_ok_mono: "reported_ok W w \<Longrightarrow> W \<subseteq> W' \<Longrightarrow> reported_ok W' w"
  by (cases "(W, w)" rule: reported_ok.cases) auto

lemma kinv_written:
  assumes "kinv s" "k_written t = k_written s @ xs" "k_ring t = k_ring s" "k_notified t = k_notified s"
    "set (k_workers t) \<subseteq> insert w (set (k_workers s))" "reported_ok (set (k_written t)) w"
  shows "kinv t"
proof -
  have ok: "k_ok s n p \<Longrightarrow> k_ok t n p" for n p using assms(2) by (auto simp: k_ok_def)
  have "ring_inv (k_ok t) (k_ring t)" using assms(1,3) ring_inv_mono [of "k_ok s" "k_ring s" "k_ok t"] ok by (auto simp: kinv_def)
  moreover have "\<forall>w \<in> set (k_workers t). reported_ok (set (k_written t)) w"
    using assms(1,2,5,6) reported_ok_mono [of "set (k_written s)" _ "set (k_written t)"] by (auto simp: kinv_def)
  moreover have "\<forall>p \<in> set (k_notified t). \<exists>n. k_ok t n p \<and> (\<forall>m \<le> n. \<exists>q. k_ok t m q)"
    using assms(1,4) ok by (fastforce simp: kinv_def)
  ultimately show ?thesis by (simp add: kinv_def)
qed

lemma kinv_step:
  assumes "kstep s t" "kinv s"
  shows "kinv t"
  using assms(1)
proof (cases rule: kstep.cases)
  case (k_emit ev)
  then show ?thesis using assms(2)
    by (auto simp: kafka_Emit_def Let_def kinv_def split: if_splits)
next
  case (k_cancelled ev)
  then show ?thesis using assms(2)
    by (auto simp: kafka_Emit_def Let_def kinv_def split: if_splits)
next
  case (k_take g)
  then obtain batch item rest where "t = s\<lparr>k_workers := (k_workers s)[g := Collect (batch @ [item])],
      k_queues := (k_queues s)[g div k_w s := rest]\<rparr>"
    by (auto simp: worker_take_def split: worker.splits list.splits if_splits)
  then show ?thesis
    by (intro kinv_written [OF assms(2), of _ "[]" "Collect (batch @ [item])"]) (auto dest: set_update_subset_insert [THEN subsetD])
next
  case (k_write g ok)
  then obtain batch where "t = s\<lparr>k_workers := (k_workers s)[g := Report batch (\<not> ok)], k_err := k_err s \<or> \<not> ok,
      k_written := k_written s @ (if ok then batch else [])\<rparr>"
    by (auto simp: worker_write_def split: worker.splits if_splits)
  then show ?thesis
    by (intro kinv_written [OF assms(2), of _ "if ok then batch else []" "Report batch (\<not> ok)"])
      (cases ok; auto dest: set_update_subset_insert [THEN subsetD])+
next
  case (k_report g)
  have mem: "k_workers s ! g \<in> set (k_workers s)" using k_report(1) by simp
  show ?thesis
  proof (cases "k_workers s ! g")
    case (Report items err)
    then have rep: "reported_ok (set (k_written s)) (Report items err)" using mem assms(2) by (auto simp: kinv_def)
    show ?thesis
    proof (cases items)
      case Nil
      then have "t = s\<lparr>k_workers := (k_workers s)[g := Collect []]\<rparr>"
        using k_report Report by (simp add: worker_report_def)
      then show ?thesis
        by (intro kinv_written [OF assms(2), of _ "[]" "Collect []"]) (auto dest: set_update_subset_insert [THEN subsetD])
    next
      case (Cons item rest)
      let ?u = "s\<lparr>k_workers := (k_workers s)[g := Report rest err]\<rparr>"
      have t: "t = ?u\<lparr>k_ring := ring_Done (km_ord item) (km_pos item) err (k_ring s)\<rparr>"
        using k_report Report Cons by (simp add: worker_report_def)
      have "kinv ?u"
        by (intro kinv_written [OF assms(2), of _ "[]" "Report rest err"])
          (use rep Cons in \<open>cases err; auto dest: set_update_subset_insert [THEN subsetD]\<close>)+
      moreover have "\<not> err \<Longrightarrow> k_ok s (km_ord item) (km_pos item)"
        using rep Cons by (cases err) (auto simp: k_ok_def)
      moreover have "k_ok t = k_ok s" using t by (simp add: k_ok_def fun_eq_iff)
      moreover have "k_ok ?u = k_ok s" by (simp add: k_ok_def fun_eq_iff)
      ultimately show ?thesis using t ring_inv_Done [of "k_ok s" "k_ring s"] by (simp add: kinv_def)
    qed
  qed (use k_report in \<open>auto simp: worker_report_def\<close>)
next
  case k_drain
  obtain pos err adv r where a: "Advance (k_ring s) = ((pos, err, adv), r)"
    by (cases "Advance (k_ring s)") auto
  have ri: "ring_inv (k_ok s) (k_ring s)" using assms(2) by (simp add: kinv_def)
  note A = Advance_inv [OF ri a]
  have t: "t = s\<lparr>k_ring := r, k_notified := k_notified s @ (if adv \<and> \<not> IsZero pos then [pos] else [])\<rparr>"
    using k_drain a by (simp add: drainPrefix_def)
  have "\<exists>n. k_ok s n pos \<and> (\<forall>m \<le> n. \<exists>q. k_ok s m q)" if "pos \<noteq> zero_pos"
    using A that by (auto simp: ring_inv_def)
  moreover have "k_ok t = k_ok s" using t by (simp add: k_ok_def fun_eq_iff)
  ultimately show ?thesis using A assms(2) t by (auto simp: kinv_def split: if_splits)
qed

text \<open>
  C6. The checkpoint of the Kafka sink covers only what the broker accepted: whenever the notifier
  has been called with a position, the event of that position and every event emitted before it
  have been written, whatever order the workers wrote and reported in and whichever batches
  failed.
\<close>

theorem kafka_notified_prefix_written:
  assumes "NewKafkaSink c dialed parts = Inr s0" "kreach s0 s" "p \<in> set (k_notified s)"
  shows "\<exists>n. (\<exists>it \<in> set (k_written s). km_ord it = n \<and> km_pos it = p) \<and>
    (\<forall>m \<le> n. \<exists>it \<in> set (k_written s). km_ord it = m)"
proof -
  have "kinv s0" using NewKafkaSinkD [OF assms(1)] by (auto simp: kinv_def)
  with assms(2) have "kinv s" by (induction rule: kreach.induct) (auto intro: kinv_step)
  then show ?thesis using assms(3) unfolding kinv_def k_ok_def by fast
qed

subsection \<open>Order\<close>

fun held :: "worker \<Rightarrow> kafkaItem list" where
  "held (Collect batch) = batch"
| "held (Report items err) = []"

definition lane :: "KafkaSink \<Rightarrow> nat \<Rightarrow> kafkaItem list" where
  "lane s i = filter (\<lambda>it. worker_of (k_parts s) (k_w s) (km_key it) = i) (k_written s) @
     held (k_workers s ! i) @ k_queues s ! i"

definition lane_ok :: "KafkaSink \<Rightarrow> nat \<Rightarrow> bool" where
  "lane_ok s i \<longleftrightarrow> sorted_wrt (<) (map km_ord (lane s i)) \<and>
     (\<forall>it \<in> set (lane s i). km_ord it < ring_next (k_ring s) \<and> worker_of (k_parts s) (k_w s) (km_key it) = i)"

definition kord :: "KafkaSink \<Rightarrow> bool" where
  "kord s \<longleftrightarrow> k_w s = 1 \<and> length (k_workers s) = length (k_queues s) \<and>
     (\<forall>i < length (k_queues s). lane_ok s i)"

lemma ring_next_simps [simp]:
  "ring_next (ring_Done n p e r) = ring_next r" "ring_next (snd (ring_Next r)) = Suc (ring_next r)"
  by (simp_all add: ring_Done_def ring_Next_def)

lemma advance_loop_next: "advance_loop r adv lst = (r', x) \<Longrightarrow> ring_next r' = ring_next r"
proof (induction r adv lst rule: advance_loop.induct)
  case (1 r adv lst)
  then show ?case by (subst (asm) advance_loop.simps) (auto split: option.splits if_splits)
qed

lemma Advance_next: "Advance r = (x, r') \<Longrightarrow> ring_next r' = ring_next r"
  using advance_loop_next by (auto simp: Advance_def split: prod.splits)

lemma kord_shrink:
  assumes "kord s" "k_cfg t = k_cfg s" "k_parts t = k_parts s" "length (k_workers t) = length (k_workers s)"
    "length (k_queues t) = length (k_queues s)" "ring_next (k_ring s) \<le> ring_next (k_ring t)"
    "\<And>i. i < length (k_queues s) \<Longrightarrow> \<exists>xs ys zs. lane s i = xs @ ys @ zs \<and> lane t i = xs @ zs"
  shows "kord t"
proof -
  have w: "k_w t = k_w s" using assms(2) by (simp add: k_w_def)
  have "lane_ok t i" if "i < length (k_queues s)" for i
  proof -
    obtain xs ys zs where l: "lane s i = xs @ ys @ zs" "lane t i = xs @ zs" using assms(7) [OF \<open>i < length (k_queues s)\<close>] by blast
    have "lane_ok s i" using assms(1) that by (simp add: kord_def)
    then have srt: "sorted_wrt (<) (map km_ord (xs @ ys @ zs))"
      and mem: "\<forall>it \<in> set (lane s i). km_ord it < ring_next (k_ring s) \<and> worker_of (k_parts s) (k_w s) (km_key it) = i"
      unfolding lane_ok_def l(1) by blast+
    have "sorted_wrt (<) (map km_ord (lane t i))" using srt l(2) by (simp add: sorted_wrt_append)
    moreover have "set (lane t i) \<subseteq> set (lane s i)" using l by auto
    ultimately show ?thesis
      using mem assms(3,6) w unfolding lane_ok_def by (metis less_le_trans subsetD)
  qed
  then show ?thesis using assms(1,4,5) w by (simp add: kord_def)
qed

lemma kord_unchanged:
  assumes "kord s" "k_cfg t = k_cfg s" "k_parts t = k_parts s" "length (k_workers t) = length (k_workers s)"
    "length (k_queues t) = length (k_queues s)" "ring_next (k_ring s) \<le> ring_next (k_ring t)"
    "\<And>i. i < length (k_queues s) \<Longrightarrow> lane t i = lane s i"
  shows "kord t"
  by (rule kord_shrink [OF assms(1-6)]) (metis assms(7) append_Nil append_Nil2)

lemma kord_write:
  assumes "kord s" "g < length (k_workers s)" "k_workers s ! g = Collect batch"
  shows "kord (s\<lparr>k_workers := (k_workers s)[g := Report batch (\<not> ok)], k_err := k_err s \<or> \<not> ok,
      k_written := k_written s @ (if ok then batch else [])\<rparr>)" (is "kord ?t")
proof (rule kord_shrink [OF assms(1)])
  fix i
  assume i: "i < length (k_queues s)"
  have g: "g < length (k_queues s)" using assms(1,2) by (simp add: kord_def)
  let ?f = "filter (\<lambda>it. worker_of (k_parts s) (k_w s) (km_key it) = i)"
  have wt: "k_w ?t = k_w s" by (simp add: k_w_def)
  have batch: "set batch \<subseteq> set (lane s g)" by (auto simp: lane_def assms(3))
  have "lane_ok s g" using assms(1) g by (simp add: kord_def)
  then have mine: "\<forall>it \<in> set batch. worker_of (k_parts s) (k_w s) (km_key it) = g"
    using batch unfolding lane_ok_def by blast
  show "\<exists>xs ys zs. lane s i = xs @ ys @ zs \<and> lane ?t i = xs @ zs"
  proof (cases "i = g")
    case True
    then have "?f batch = batch" using mine by (auto intro: filter_True)
    then have "lane s i = ?f (k_written s) @ batch @ k_queues s ! i"
      "lane ?t i = ?f (k_written s) @ (if ok then batch else []) @ k_queues s ! i"
      using True assms(2,3) wt by (auto simp: lane_def)
    then have "lane ?t i = lane s i \<or> (lane s i = ?f (k_written s) @ batch @ k_queues s ! i \<and>
        lane ?t i = ?f (k_written s) @ k_queues s ! i)"
      by (cases ok) simp_all
    then show ?thesis by (metis append_Nil)
  next
    case False
    then have "?f batch = []" using mine by (auto simp: filter_empty_conv)
    then have "lane ?t i = lane s i" using False wt by (auto simp: lane_def)
    then show ?thesis by (metis append_Nil)
  qed
qed simp_all

lemma kord_emit:
  assumes "kord s" "j = worker_of (k_parts s) (k_w s) (KafkaKey ev)"
  shows "kord (s\<lparr>k_ring := snd (ring_Next (k_ring s)), k_queues := (k_queues s)[j := k_queues s ! j @ [emit_item s ev]]\<rparr>)"
    (is "kord ?t")
proof -
  have w: "k_w ?t = k_w s" by (simp add: k_w_def)
  have item: "km_ord (emit_item s ev) = ring_next (k_ring s)" "worker_of (k_parts s) (k_w s) (km_key (emit_item s ev)) = j"
    using assms(2) by (simp_all add: emit_item_def ring_Next_def)
  have "lane_ok ?t i" if "i < length (k_queues s)" for i
  proof -
    have s: "lane_ok s i" using assms(1) that by (simp add: kord_def)
    have "lane ?t i = lane s i @ (if i = j then [emit_item s ev] else [])"
      using that w by (auto simp: lane_def nth_list_update)
    then show ?thesis using s item w by (auto simp: lane_ok_def sorted_wrt_append less_Suc_eq)
  qed
  then show ?thesis using assms(1) w by (simp add: kord_def)
qed

lemma worker_report_cases:
  assumes "worker_report g s = Some t"
  shows "\<exists>items err. k_workers s ! g = Report items err \<and>
    ((items = [] \<and> t = s\<lparr>k_workers := (k_workers s)[g := Collect []]\<rparr>) \<or>
     (\<exists>item rest. items = item # rest \<and> t = s\<lparr>k_workers := (k_workers s)[g := Report rest err],
        k_ring := ring_Done (km_ord item) (km_pos item) err (k_ring s)\<rparr>))"
proof (cases "k_workers s ! g")
  case (Report items err)
  then show ?thesis using assms by (cases items) (auto simp: worker_report_def)
qed (use assms in \<open>simp add: worker_report_def\<close>)

lemma kord_step:
  assumes "kstep s t" "kord s"
  shows "kord t"
  using assms(1)
proof (cases rule: kstep.cases)
  case (k_emit ev)
  then show ?thesis using kord_emit [OF assms(2) refl, of ev]
    by (auto simp: kafka_Emit_def Let_def split: if_splits)
next
  case (k_cancelled ev)
  then have "t = s\<lparr>k_ring := snd (ring_Next (k_ring s))\<rparr>"
    by (auto simp: kafka_Emit_def Let_def split: if_splits)
  then show ?thesis by (intro kord_unchanged [OF assms(2)]) (auto simp: lane_def k_w_def)
next
  case (k_take g)
  have w1: "k_w s = 1" using assms(2) by (simp add: kord_def)
  obtain batch item rest where "k_workers s ! g = Collect batch" "k_queues s ! g = item # rest"
    "t = s\<lparr>k_workers := (k_workers s)[g := Collect (batch @ [item])], k_queues := (k_queues s)[g := rest]\<rparr>"
    using k_take(2) w1 by (auto simp: worker_take_def split: worker.splits list.splits if_splits)
  then show ?thesis
    using k_take(1) assms(2)
    by (intro kord_unchanged [OF assms(2)]) (auto simp: lane_def k_w_def kord_def nth_list_update)
next
  case (k_write g ok)
  then obtain batch where "k_workers s ! g = Collect batch"
    "t = s\<lparr>k_workers := (k_workers s)[g := Report batch (\<not> ok)], k_err := k_err s \<or> \<not> ok,
      k_written := k_written s @ (if ok then batch else [])\<rparr>"
    by (auto simp: worker_write_def split: worker.splits if_splits)
  then show ?thesis using kord_write [OF assms(2) k_write(1)] by blast
next
  case (k_report g)
  from worker_report_cases [OF k_report(2)] show ?thesis
    using k_report(1) by (elim exE conjE disjE; intro kord_unchanged [OF assms(2)])
      (auto simp: lane_def k_w_def nth_list_update)
next
  case k_drain
  then show ?thesis
    by (intro kord_unchanged [OF assms(2)])
      (auto simp: drainPrefix_def lane_def k_w_def split: prod.splits dest: Advance_next)
qed

lemma kord_start:
  assumes "NewKafkaSink c dialed parts = Inr s" "WorkersPerPart c = 1"
  shows "kord s"
proof -
  note D = NewKafkaSinkD [OF assms(1)]
  have "k_w s = 1" using D(8) assms(2) by simp
  then show ?thesis using D(4,6,7) by (simp add: kord_def lane_ok_def lane_def)
qed

text \<open>
  C8. With one worker per partition the events of a key are written in the order they were
  emitted, whatever the interleaving of workers and whichever batches failed.
\<close>

theorem kafka_one_worker_keeps_key_order:
  assumes "NewKafkaSink c dialed (Some n) = Inr s0" "WorkersPerPart c = 1" "n < 2 ^ 32" "kreach s0 s"
  shows "sorted_wrt (<) (map km_ord (filter (\<lambda>it. km_key it = key) (k_written s)))"
proof -
  let ?i = "worker_of (k_parts s) (k_w s) key"
  have base: "k_cfg s = k_cfg s0 \<and> k_parts s = k_parts s0 \<and> length (k_queues s) = length (k_queues s0)"
    using assms(4)
  proof (induction rule: kreach.induct)
    case (kreach_step s t)
    have "k_cfg t = k_cfg s \<and> k_parts t = k_parts s \<and> length (k_queues t) = length (k_queues s)"
      using kreach_step(2)
      by (cases rule: kstep.cases)
        (auto simp: kafka_Emit_def Let_def worker_take_def worker_write_def drainPrefix_def
          split: if_splits worker.splits list.splits prod.splits dest!: worker_report_cases)
    then show ?case using kreach_step(3) by simp
  qed simp
  have "?i < length (k_queues s)"
    using kafka_queue_range [OF assms(1,3), of key] assms(2) base by (simp add: k_w_def)
  moreover have "kord s"
    using assms(4) kord_start [OF assms(1,2)] by (induction rule: kreach.induct) (auto intro: kord_step)
  ultimately have "sorted_wrt (<) (map km_ord (lane s ?i))" by (simp add: kord_def lane_ok_def)
  then have "sorted_wrt (<) (map km_ord (filter (\<lambda>it. worker_of (k_parts s) (k_w s) (km_key it) = ?i) (k_written s)))"
    by (simp add: lane_def sorted_wrt_append)
  then have "sorted_wrt (\<lambda>a b. km_ord a < km_ord b)
      (filter (\<lambda>it. km_key it = key) (filter (\<lambda>it. worker_of (k_parts s) (k_w s) (km_key it) = ?i) (k_written s)))"
    by (simp only: sorted_wrt_map sorted_wrt_filter)
  moreover have "filter (\<lambda>it. km_key it = key) (filter (\<lambda>it. worker_of (k_parts s) (k_w s) (km_key it) = ?i) (k_written s)) =
      filter (\<lambda>it. km_key it = key) (k_written s)"
    by (auto simp: filter_filter intro: filter_cong)
  ultimately show ?thesis by (simp add: sorted_wrt_map)
qed

subsection \<open>Schedules\<close>

datatype kact = AEmit Event | ATake nat | AWrite nat bool | AReport nat | ADrain

fun kact_step :: "kact \<Rightarrow> KafkaSink \<Rightarrow> KafkaSink option" where
  "kact_step (AEmit ev) s = (case kafka_Emit ev s of KQueued t \<Rightarrow> Some t | KFull t \<Rightarrow> Some t | _ \<Rightarrow> None)"
| "kact_step (ATake g) s = (if g < length (k_workers s) then worker_take g s else None)"
| "kact_step (AWrite g ok) s = (if g < length (k_workers s) then worker_write g ok s else None)"
| "kact_step (AReport g) s = (if g < length (k_workers s) then worker_report g s else None)"
| "kact_step ADrain s = Some (drainPrefix s)"

fun kexec :: "kact list \<Rightarrow> KafkaSink \<Rightarrow> KafkaSink option" where
  "kexec [] s = Some s"
| "kexec (a # as) s = (case kact_step a s of None \<Rightarrow> None | Some t \<Rightarrow> kexec as t)"

lemma kact_step_kstep: "kact_step a s = Some t \<Longrightarrow> kstep s t"
  by (cases a) (auto split: kemit.splits if_splits intro: kstep.intros)

lemma kreach_trans: "kreach s t \<Longrightarrow> kreach t u \<Longrightarrow> kreach s u"
  by (rotate_tac, induction rule: kreach.induct) (auto intro: kreach.intros)

lemma kexec_kreach: "kexec as s = Some t \<Longrightarrow> kreach s t"
proof (induction as arbitrary: s)
  case Nil
  then show ?case by (auto intro: kreach_start)
next
  case (Cons a as)
  then obtain u where "kact_step a s = Some u" "kexec as u = Some t" by (auto split: option.splits)
  then show ?case
    using Cons.IH kreach_trans kreach_step [OF kreach_start kact_step_kstep] by blast
qed

definition key_event :: "64 word \<Rightarrow> Event" where
  "key_event off = \<lparr>EvSchemaVersion = 1, EvPhase = PhaseIncremental, EvOp = OpUpdate, EvDB = ''db0'', EvType = ''string'',
     EvKey = ''k'', EvCommand = ''set'', EvArgs = [], EvSource = \<lparr>SrcID = ''s'', SrcDB = ''db0'', SrcFilenum = 1, SrcOffset = off,
       Seq = 0, ExecTimeSec = 0\<rparr>\<rparr>"

definition demo_acts :: "kact list" where
  "demo_acts = [AEmit (key_event 10), AEmit (key_event 20), ATake 0, ATake 0, AWrite 0 True, AReport 0, AReport 0, ADrain]"

lemma demo_acts_run:
  "map_option k_notified (kexec demo_acts (demo_sink 1)) = Some [\<lparr>Filenum = 1, Offset = 20\<rparr>]"
  by code_simp

theorem kafka_notified_prefix_written_witness:
  "\<exists>s n. kexec demo_acts (demo_sink 1) = Some s \<and>
     (\<exists>it \<in> set (k_written s). km_ord it = n \<and> km_pos it = \<lparr>Filenum = 1, Offset = 20\<rparr>) \<and>
     (\<forall>m \<le> n. \<exists>it \<in> set (k_written s). km_ord it = m)"
proof -
  obtain s where s: "kexec demo_acts (demo_sink 1) = Some s" "k_notified s = [\<lparr>Filenum = 1, Offset = 20\<rparr>]"
    using demo_acts_run by (cases "kexec demo_acts (demo_sink 1)") auto
  from kafka_notified_prefix_written [OF demo_sink_eq kexec_kreach [OF s(1)], of "\<lparr>Filenum = 1, Offset = 20\<rparr>"] s
  show ?thesis by auto
qed

theorem kafka_one_worker_keeps_key_order_witness:
  "\<exists>s. kexec demo_acts (demo_sink 1) = Some s \<and>
     sorted_wrt (<) (map km_ord (filter (\<lambda>it. km_key it = ''db0:k'') (k_written s)))"
proof -
  obtain s where s: "kexec demo_acts (demo_sink 1) = Some s"
    using demo_acts_run by (cases "kexec demo_acts (demo_sink 1)") auto
  from kafka_one_worker_keeps_key_order [OF demo_sink_eq _ _ kexec_kreach [OF s]] s
  show ?thesis by (simp add: demo_kafka_def)
qed

definition swap_acts :: "kact list" where
  "swap_acts = [AEmit (key_event 10), AEmit (key_event 20), ATake 2, ATake 3, AWrite 3 True, AWrite 2 True]"

lemma swap_acts_ord: "map_option (\<lambda>s. map km_ord (k_written s)) (kexec swap_acts (demo_sink 0)) = Some [1, 0]"
  by code_simp

lemma swap_acts_key: "map_option (\<lambda>s. map km_key (k_written s)) (kexec swap_acts (demo_sink 0)) = Some [''db0:k'', ''db0:k'']"
  by code_simp

text \<open>
  With the default two workers per partition the order of a key is not kept: both goroutines
  of its queue hold one of two successive events, and the later one may be written first.
\<close>

theorem kafka_default_workers_reorder_key:
  "\<exists>s. kreach (demo_sink 0) s \<and> map km_key (k_written s) = [''db0:k'', ''db0:k''] \<and> map km_ord (k_written s) = [1, 0]"
proof -
  obtain s where s: "kexec swap_acts (demo_sink 0) = Some s" "map km_ord (k_written s) = [1, 0]"
    using swap_acts_ord by (cases "kexec swap_acts (demo_sink 0)") auto
  have "map km_key (k_written s) = [''db0:k'', ''db0:k'']" using swap_acts_key by (simp only: s(1) option.map option.inject)
  then show ?thesis using kexec_kreach [OF s(1)] s(2) by (intro exI [of _ s] conjI)
qed

subsection \<open>Cancelled emissions\<close>

fun worker_items :: "worker \<Rightarrow> kafkaItem list" where
  "worker_items (Collect b) = b"
| "worker_items (Report b e) = b"

text \<open>The ordinals in a queue, in the hands of a worker, or reported to the ring and not consumed.\<close>

definition ords :: "KafkaSink \<Rightarrow> nat set" where
  "ords s = (\<Union>q \<in> set (k_queues s). km_ord ` set q) \<union> (\<Union>w \<in> set (k_workers s). km_ord ` set (worker_items w)) \<union>
     {n. map_of (ring_items (k_ring s)) n \<noteq> None}"

lemma ords_parts:
  "q \<in> set (k_queues s) \<Longrightarrow> km_ord ` set q \<subseteq> ords s"
  "w \<in> set (k_workers s) \<Longrightarrow> km_ord ` set (worker_items w) \<subseteq> ords s"
  "map_of (ring_items (k_ring s)) n \<noteq> None \<Longrightarrow> n \<in> ords s"
  unfolding ords_def by blast+

lemma ords_subset:
  assumes "\<And>q. q \<in> set (k_queues s) \<Longrightarrow> km_ord ` set q \<subseteq> X"
    "\<And>w. w \<in> set (k_workers s) \<Longrightarrow> km_ord ` set (worker_items w) \<subseteq> X"
    "\<And>n. map_of (ring_items (k_ring s)) n \<noteq> None \<Longrightarrow> n \<in> X"
  shows "ords s \<subseteq> X"
  using assms unfolding ords_def by blast

definition shape :: "KafkaSink \<Rightarrow> bool" where
  "shape s \<longleftrightarrow> length (k_workers s) = length (k_queues s) * k_w s"

lemma set_updateD: "x \<in> set (xs[i := y]) \<Longrightarrow> x = y \<or> x \<in> set xs"
  using set_update_subset_insert [of xs i y] by auto

lemma advance_loop_items:
  "advance_loop r adv lst = (r', x) \<Longrightarrow> map_of (ring_items r) n = None \<Longrightarrow> map_of (ring_items r') n = None"
proof (induction r adv lst rule: advance_loop.induct)
  case (1 r adv lst)
  then show ?case by (subst (asm) (2) advance_loop.simps) (auto simp: delete_conv' split: option.splits if_splits)
qed

definition ords_grow :: "KafkaSink \<Rightarrow> KafkaSink \<Rightarrow> bool" where
  "ords_grow s t \<longleftrightarrow> shape t \<and> ring_next (k_ring s) \<le> ring_next (k_ring t) \<and>
     ords t \<subseteq> ords s \<union> {k. ring_next (k_ring s) \<le> k \<and> k < ring_next (k_ring t)}"

lemma ords_growI:
  assumes "shape s" "length (k_workers t) = length (k_workers s)" "length (k_queues t) = length (k_queues s)" "k_cfg t = k_cfg s"
    "ring_next (k_ring s) \<le> ring_next (k_ring t)"
    "\<And>q. q \<in> set (k_queues t) \<Longrightarrow> km_ord ` set q \<subseteq> ords s \<union> {k. ring_next (k_ring s) \<le> k \<and> k < ring_next (k_ring t)}"
    "\<And>w. w \<in> set (k_workers t) \<Longrightarrow> km_ord ` set (worker_items w) \<subseteq> ords s"
    "\<And>n. map_of (ring_items (k_ring t)) n \<noteq> None \<Longrightarrow> n \<in> ords s"
  shows "ords_grow s t"
proof -
  have "ords t \<subseteq> ords s \<union> {k. ring_next (k_ring s) \<le> k \<and> k < ring_next (k_ring t)}"
    using assms(6-8) by (intro ords_subset) blast+
  then show ?thesis using assms(1-5) by (simp add: ords_grow_def shape_def k_w_def)
qed

lemma update_ords:
  assumes "w \<in> set ((k_workers s)[g := u])" "km_ord ` set (worker_items u) \<subseteq> ords s"
  shows "km_ord ` set (worker_items w) \<subseteq> ords s"
  using set_updateD [OF assms(1)] assms(2) ords_parts(2) by blast

lemma ords_emit:
  assumes "shape s"
  shows "ords_grow s (s\<lparr>k_ring := snd (ring_Next (k_ring s)), k_queues := (k_queues s)[i := k_queues s ! i @ [emit_item s ev]]\<rparr>)"
proof (rule ords_growI [OF assms])
  let ?t = "s\<lparr>k_ring := snd (ring_Next (k_ring s)), k_queues := (k_queues s)[i := k_queues s ! i @ [emit_item s ev]]\<rparr>"
  fix q
  assume q: "q \<in> set (k_queues ?t)"
  have ev: "km_ord (emit_item s ev) = ring_next (k_ring s)" by (simp add: emit_item_def ring_Next_def)
  show "km_ord ` set q \<subseteq> ords s \<union> {k. ring_next (k_ring s) \<le> k \<and> k < ring_next (k_ring ?t)}"
  proof (cases "i < length (k_queues s)")
    case True
    then have "km_ord ` set (k_queues s ! i) \<subseteq> ords s" by (simp add: ords_parts(1))
    then have "km_ord ` set (k_queues s ! i @ [emit_item s ev]) \<subseteq> ords s \<union> {ring_next (k_ring s)}" using ev by auto
    moreover have "q = k_queues s ! i @ [emit_item s ev] \<or> q \<in> set (k_queues s)" using q set_updateD by force
    moreover have "{ring_next (k_ring s)} \<subseteq> {k. ring_next (k_ring s) \<le> k \<and> k < ring_next (k_ring ?t)}" by simp
    ultimately show ?thesis using ords_parts(1) [of q s] by blast
  next
    case False
    then have "q \<in> set (k_queues s)" using q by (simp add: list_update_beyond)
    then show ?thesis using ords_parts(1) by blast
  qed
qed (auto simp: ords_parts(3) ring_Next_def dest: ords_parts(2) [THEN subsetD])

lemma ords_step:
  assumes "kstep s t" "shape s"
  shows "ords_grow s t"
  using assms(1)
proof (cases rule: kstep.cases)
  case (k_emit ev)
  then show ?thesis using ords_emit [OF assms(2)] by (auto simp: kafka_Emit_def Let_def split: if_splits)
next
  case (k_cancelled ev)
  then have "t = s\<lparr>k_ring := snd (ring_Next (k_ring s))\<rparr>" by (auto simp: kafka_Emit_def Let_def split: if_splits)
  then show ?thesis
    by (intro ords_growI [OF assms(2)]) (auto simp: ring_Next_def ords_parts(3) dest: ords_parts(1,2) [THEN subsetD])
next
  case (k_take g)
  then obtain batch item rest where e: "k_workers s ! g = Collect batch" "k_queues s ! (g div k_w s) = item # rest"
    "t = s\<lparr>k_workers := (k_workers s)[g := Collect (batch @ [item])], k_queues := (k_queues s)[g div k_w s := rest]\<rparr>"
    by (auto simp: worker_take_def split: worker.splits list.splits if_splits)
  have "g div k_w s < length (k_queues s)"
    using k_take(1) assms(2) by (simp add: shape_def less_mult_imp_div_less)
  then have "item # rest \<in> set (k_queues s)" using e(2) nth_mem by metis
  then have q: "km_ord ` set (item # rest) \<subseteq> ords s" by (rule ords_parts(1))
  have "Collect batch \<in> set (k_workers s)" using e(1) k_take(1) nth_mem by metis
  then have b: "km_ord ` set batch \<subseteq> ords s" using ords_parts(2) by fastforce
  show ?thesis
  proof (rule ords_growI [OF assms(2)])
    fix x assume "x \<in> set (k_queues t)"
    then have "x = rest \<or> x \<in> set (k_queues s)" using e(3) set_updateD by force
    then show "km_ord ` set x \<subseteq> ords s \<union> {k. ring_next (k_ring s) \<le> k \<and> k < ring_next (k_ring t)}"
      using q ords_parts(1) by fastforce
  next
    fix w assume "w \<in> set (k_workers t)"
    then show "km_ord ` set (worker_items w) \<subseteq> ords s" using e(3) q b by (intro update_ords [of w s g "Collect (batch @ [item])"]) (auto simp: image_subset_iff)
  qed (use e(3) ords_parts(3) in auto)
next
  case (k_write g ok)
  then obtain batch where e: "k_workers s ! g = Collect batch"
    "t = s\<lparr>k_workers := (k_workers s)[g := Report batch (\<not> ok)], k_err := k_err s \<or> \<not> ok,
      k_written := k_written s @ (if ok then batch else [])\<rparr>"
    by (auto simp: worker_write_def split: worker.splits if_splits)
  have "Collect batch \<in> set (k_workers s)" using e(1) k_write(1) nth_mem by metis
  then have b: "km_ord ` set batch \<subseteq> ords s" using ords_parts(2) by fastforce
  show ?thesis
  proof (rule ords_growI [OF assms(2)])
    fix w assume "w \<in> set (k_workers t)"
    then show "km_ord ` set (worker_items w) \<subseteq> ords s" using e(2) b by (intro update_ords [of w s g]) auto
  qed (use e(2) ords_parts(1,3) in auto)
next
  case (k_report g)
  have "k_workers s ! g \<in> set (k_workers s)" using k_report(1) by simp
  then have mine: "km_ord ` set (worker_items (k_workers s ! g)) \<subseteq> ords s" by (rule ords_parts(2))
  obtain u r where e: "t = s\<lparr>k_workers := (k_workers s)[g := u], k_ring := r\<rparr>" "ring_next r = ring_next (k_ring s)"
    "km_ord ` set (worker_items u) \<subseteq> ords s" "\<And>n. map_of (ring_items r) n \<noteq> None \<Longrightarrow> n \<in> ords s"
  proof -
    from worker_report_cases [OF k_report(2)] show thesis
    proof (elim exE conjE disjE)
      fix items err item rest
      assume x: "k_workers s ! g = Report items err" "items = item # rest"
        "t = s\<lparr>k_workers := (k_workers s)[g := Report rest err], k_ring := ring_Done (km_ord item) (km_pos item) err (k_ring s)\<rparr>"
      have "map_of (ring_items (ring_Done (km_ord item) (km_pos item) err (k_ring s))) n \<noteq> None \<Longrightarrow> n \<in> ords s" for n
        using x(1,2) mine ords_parts(3) [of s n] by (auto simp: ring_Done_def update_conv' split: if_splits)
      then show thesis using that [OF x(3)] x(1,2) mine by (simp add: image_subset_iff)
    next
      fix items err
      assume x: "t = s\<lparr>k_workers := (k_workers s)[g := Collect []]\<rparr>"
      show thesis using that [of "k_ring s" "Collect []"] x ords_parts(3) by simp
    qed
  qed
  show ?thesis
  proof (rule ords_growI [OF assms(2)])
    fix w assume "w \<in> set (k_workers t)"
    then show "km_ord ` set (worker_items w) \<subseteq> ords s" using e(1,3) by (intro update_ords [of w s g u]) auto
  qed (use e in \<open>auto dest: ords_parts(1) [THEN subsetD]\<close>)
next
  case k_drain
  obtain r x where a: "advance_loop (k_ring s) False zero_pos = (r, x)" by (cases "advance_loop (k_ring s) False zero_pos")
  have t: "k_ring t = r" "k_queues t = k_queues s" "k_workers t = k_workers s" "k_cfg t = k_cfg s"
    using k_drain a by (auto simp: drainPrefix_def Advance_def split: prod.splits)
  show ?thesis
  proof (rule ords_growI [OF assms(2)])
    fix n assume "map_of (ring_items (k_ring t)) n \<noteq> None"
    then have "map_of (ring_items (k_ring s)) n \<noteq> None" using advance_loop_items [OF a, of n] t(1) by metis
    then show "n \<in> ords s" by (rule ords_parts(3))
  qed (use t advance_loop_next [OF a] in \<open>auto dest: ords_parts(1,2) [THEN subsetD]\<close>)
qed

lemma base_step:
  assumes "kstep s t" "ring_base (k_ring s) \<le> n" "map_of (ring_items (k_ring s)) n = None"
  shows "ring_base (k_ring t) \<le> n"
  using assms(1)
proof (cases rule: kstep.cases)
  case k_drain
  obtain r x where a: "advance_loop (k_ring s) False zero_pos = (r, x)" by (cases "advance_loop (k_ring s) False zero_pos")
  then have "k_ring t = r" using k_drain by (auto simp: drainPrefix_def Advance_def split: prod.splits)
  moreover have "ring_base r \<le> n" using advance_loop_stops [OF assms(3,2)] a by (cases x) auto
  ultimately show ?thesis by simp
qed (use assms(2) worker_report_cases in \<open>fastforce simp: kafka_Emit_def Let_def ring_Next_def ring_Done_def worker_take_def
    worker_write_def split: if_splits worker.splits list.splits\<close>)+

definition fresh_ords :: "KafkaSink \<Rightarrow> bool" where
  "fresh_ords s \<longleftrightarrow> shape s \<and> ords s \<subseteq> {..<ring_next (k_ring s)} \<and> ring_base (k_ring s) \<le> ring_next (k_ring s)"

lemma fresh_ords_reach:
  assumes "NewKafkaSink c dialed parts = Inr s0" "kreach s0 s"
  shows "fresh_ords s"
  using assms(2)
proof (induction rule: kreach.induct)
  case kreach_start
  note D = NewKafkaSinkD [OF assms(1)]
  have "shape s0" using D by (simp add: shape_def)
  moreover have "ords s0 \<subseteq> {}" by (rule ords_subset) (use D in \<open>auto simp: new_ring_def\<close>)
  ultimately show ?case using D(3) by (simp add: fresh_ords_def new_ring_def)
next
  case (kreach_step s t)
  then have g: "ords_grow s t" and f: "fresh_ords s" using ords_step by (auto simp: fresh_ords_def)
  have "map_of (ring_items (k_ring s)) (ring_next (k_ring s)) = None"
    using f ords_parts(3) by (fastforce simp: fresh_ords_def)
  then have "ring_base (k_ring t) \<le> ring_next (k_ring s)" using base_step [OF kreach_step(2)] f by (simp add: fresh_ords_def)
  then show ?case using g f by (auto simp: fresh_ords_def ords_grow_def)
qed

definition leaked :: "nat \<Rightarrow> KafkaSink \<Rightarrow> bool" where
  "leaked n s \<longleftrightarrow> shape s \<and> n < ring_next (k_ring s) \<and> n \<notin> ords s \<and> ring_base (k_ring s) \<le> n"

lemma leaked_step:
  assumes "kstep s t" "leaked n s"
  shows "leaked n t"
proof -
  have "map_of (ring_items (k_ring s)) n = None" using assms(2) ords_parts(3) by (fastforce simp: leaked_def)
  then have "ring_base (k_ring t) \<le> n" using base_step [OF assms(1)] assms(2) by (simp add: leaked_def)
  then show ?thesis using ords_step [OF assms(1)] assms(2) by (auto simp: leaked_def ords_grow_def)
qed

text \<open>
  An emission cancelled while its queue is full freezes the checkpoint of the sink for good: the
  ordinal it claimed is never reported, so the completed prefix never passes it, in this session
  or in any later one on the same sink.
\<close>

theorem kafka_cancelled_emit_freezes_checkpoint:
  assumes "NewKafkaSink c dialed parts = Inr s0" "kreach s0 s" "kafka_Emit ev s = KFull s'" "kreach s' t"
  shows "ring_base (k_ring t) \<le> ring_next (k_ring s)"
proof -
  have f: "fresh_ords s" using fresh_ords_reach [OF assms(1,2)] .
  have s': "s' = s\<lparr>k_ring := snd (ring_Next (k_ring s))\<rparr>"
    using assms(3) by (auto simp: kafka_Emit_def Let_def split: if_splits)
  have "ords s' \<subseteq> ords s" by (rule ords_subset) (use s' ords_parts in \<open>auto simp: ring_Next_def\<close>)
  then have "leaked (ring_next (k_ring s)) s'"
    using f s' by (auto simp: leaked_def fresh_ords_def shape_def k_w_def ring_Next_def)
  with assms(4) have "leaked (ring_next (k_ring s)) t"
    by (induction rule: kreach.induct) (auto intro: leaked_step)
  then show ?thesis by (simp add: leaked_def)
qed

definition demo_full :: KafkaSink where
  "demo_full = projr (NewKafkaSink ((demo_kafka 1)\<lparr>QueueDepth := 1\<rparr>) True (Some 1))"

theorem kafka_cancelled_emit_freezes_checkpoint_witness:
  "\<exists>s s'. kexec [AEmit (key_event 10)] demo_full = Some s \<and> kafka_Emit (key_event 20) s = KFull s' \<and>
     (\<forall>t. kreach s' t \<longrightarrow> ring_base (k_ring t) \<le> 1)"
proof -
  have d: "NewKafkaSink ((demo_kafka 1)\<lparr>QueueDepth := 1\<rparr>) True (Some 1) = Inr demo_full"
    by (simp add: demo_full_def NewKafkaSink_def demo_kafka_def kafka_defaults_def Let_def)
  have "map_option (\<lambda>s. case kafka_Emit (key_event 20) s of KFull s' \<Rightarrow> True | _ \<Rightarrow> False) (kexec [AEmit (key_event 10)] demo_full) = Some True"
    by code_simp
  moreover have "map_option (\<lambda>s. ring_next (k_ring s)) (kexec [AEmit (key_event 10)] demo_full) = Some 1" by code_simp
  ultimately obtain s s' where s: "kexec [AEmit (key_event 10)] demo_full = Some s" "kafka_Emit (key_event 20) s = KFull s'"
    "ring_next (k_ring s) = 1"
    by (auto split: kemit.splits)
  then show ?thesis
    using kafka_cancelled_emit_freezes_checkpoint [OF d kexec_kreach [OF s(1)] s(2)] by (auto simp del: kexec.simps)
qed

end
