(* ===== verification/KafkaClose.thy ===== *)
theory KafkaClose
  imports KafkaSink
begin

text \<open>
  Stopping the Kafka sink (\<open>Close\<close> and the stop branches of \<^verbatim>\<open>internal/sink/kafka.go\<close>): once the stop
  channel is closed, a worker takes what is left in its queue, decides to leave when it finds the
  queue empty, writes its last batch and returns; the notifier drains the prefix once more and
  returns. Emitters may still race with the stop. Ghost lists record which items were accepted
  before the stop and which after.
\<close>

section \<open>The system with its stop channel\<close>

record kclose =
  kc_sink :: KafkaSink
  kc_stop :: bool
  kc_leaving :: "nat set"
  kc_exited :: "nat set"
  kc_notifier :: bool
  kc_early :: "kafkaItem list"
  kc_late :: "kafkaItem list"

definition kc_start :: "KafkaSink \<Rightarrow> kclose" where
  "kc_start k = \<lparr>kc_sink = k, kc_stop = False, kc_leaving = {}, kc_exited = {}, kc_notifier = True, kc_early = [], kc_late = []\<rparr>"

definition active :: "kclose \<Rightarrow> nat \<Rightarrow> bool" where
  "active s g \<longleftrightarrow> g < length (k_workers (kc_sink s)) \<and> g \<notin> kc_exited s"

text \<open>An accepted item is noted as early or late, by whether the stop channel was closed already.\<close>

definition note_emit :: "KafkaSink \<Rightarrow> kafkaItem \<Rightarrow> kclose \<Rightarrow> kclose" where
  "note_emit k x s =
     (if kc_stop s then s\<lparr>kc_sink := k, kc_late := kc_late s @ [x]\<rparr> else s\<lparr>kc_sink := k, kc_early := kc_early s @ [x]\<rparr>)"

inductive cstep :: "kclose \<Rightarrow> kclose \<Rightarrow> bool" where
  c_emit: "kafka_Emit ev (kc_sink s) = KQueued k \<Longrightarrow>
    cstep s (note_emit k (emit_item (kc_sink s) ev) s)"
| c_cancelled: "kafka_Emit ev (kc_sink s) = KFull k \<Longrightarrow> cstep s (s\<lparr>kc_sink := k\<rparr>)"
| c_stopped: "kc_stop s \<Longrightarrow> kafka_Emit ev (kc_sink s) = KQueued k \<Longrightarrow>
    cstep s (s\<lparr>kc_sink := (kc_sink s)\<lparr>k_ring := snd (ring_Next (k_ring (kc_sink s)))\<rparr>\<rparr>)"
| c_take: "active s g \<Longrightarrow> g \<notin> kc_leaving s \<Longrightarrow> worker_take g (kc_sink s) = Some k \<Longrightarrow> cstep s (s\<lparr>kc_sink := k\<rparr>)"
| c_write: "active s g \<Longrightarrow> worker_write g ok (kc_sink s) = Some k \<Longrightarrow> cstep s (s\<lparr>kc_sink := k\<rparr>)"
| c_report: "active s g \<Longrightarrow> worker_report g (kc_sink s) = Some k \<Longrightarrow> cstep s (s\<lparr>kc_sink := k\<rparr>)"
| c_drain: "kc_notifier s \<Longrightarrow> cstep s (s\<lparr>kc_sink := drainPrefix (kc_sink s)\<rparr>)"
| c_close: "cstep s (s\<lparr>kc_stop := True\<rparr>)"
| c_leave: "kc_stop s \<Longrightarrow> active s g \<Longrightarrow> k_workers (kc_sink s) ! g = Collect batch \<Longrightarrow>
    k_queues (kc_sink s) ! (g div k_w (kc_sink s)) = [] \<Longrightarrow> cstep s (s\<lparr>kc_leaving := insert g (kc_leaving s)\<rparr>)"
| c_exit: "active s g \<Longrightarrow> g \<in> kc_leaving s \<Longrightarrow> k_workers (kc_sink s) ! g = Collect [] \<Longrightarrow>
    cstep s (s\<lparr>kc_exited := insert g (kc_exited s)\<rparr>)"
| c_notifier_exit: "kc_stop s \<Longrightarrow> kc_notifier s \<Longrightarrow> cstep s (s\<lparr>kc_sink := drainPrefix (kc_sink s), kc_notifier := False\<rparr>)"

inductive creach :: "kclose \<Rightarrow> kclose \<Rightarrow> bool" for s0 where
  creach_start: "creach s0 s0"
| creach_step: "creach s0 s \<Longrightarrow> cstep s t \<Longrightarrow> creach s0 t"

text \<open>\<open>Close\<close> waits for the workers and the notifier; then its result is the sink's error, or the writer's.\<close>

definition all_gone :: "kclose \<Rightarrow> bool" where
  "all_gone s \<longleftrightarrow> kc_stop s \<and> (\<forall>g < length (k_workers (kc_sink s)). g \<in> kc_exited s) \<and> \<not> kc_notifier s"

definition kafka_Close :: "bool \<Rightarrow> kclose \<Rightarrow> bool \<times> kclose" where
  "kafka_Close writer_closed s =
     (let k = (kc_sink s)\<lparr>k_ring := ring_Close (k_ring (kc_sink s))\<rparr> in (\<not> k_err k \<and> writer_closed, s\<lparr>kc_sink := k\<rparr>))"

section \<open>Nothing accepted before the stop is lost\<close>

definition accounted :: "KafkaSink \<Rightarrow> kafkaItem set" where
  "accounted k = set (k_written k) \<union> {x. \<exists>q < length (k_queues k). x \<in> set (k_queues k ! q)} \<union>
      {x. \<exists>g < length (k_workers k). \<exists>b. k_workers k ! g = Collect b \<and> x \<in> set b}"

text \<open>
  Every accepted item is written, queued or in a batch, unless a write failed; a worker that leaves
  has left only late items in its queue, and no item is both early and late.
\<close>

definition shape_ok :: "KafkaSink \<Rightarrow> bool" where
  "shape_ok k \<longleftrightarrow> 0 < k_w k \<and> k_w k < 2 ^ 32 \<and> 0 < k_parts k \<and> k_parts k < 2 ^ 32 \<and>
     length (k_queues k) = k_parts k * k_w k \<and> length (k_workers k) = k_parts k * k_w k * k_w k"

definition close_inv :: "kclose \<Rightarrow> bool" where
  "close_inv s \<longleftrightarrow>
     shape_ok (kc_sink s) \<and>
     (\<not> k_err (kc_sink s) \<longrightarrow> set (kc_early s) \<subseteq> accounted (kc_sink s)) \<and>
     (\<forall>g \<in> kc_leaving s. g < length (k_workers (kc_sink s)) \<and> kc_stop s \<and>
        set (k_queues (kc_sink s) ! (g div k_w (kc_sink s))) \<subseteq> set (kc_late s)) \<and>
     (\<forall>g \<in> kc_exited s. g \<in> kc_leaving s \<and> k_workers (kc_sink s) ! g = Collect []) \<and>
     set (kc_early s) \<inter> set (kc_late s) = {} \<and> (\<forall>x \<in> set (kc_early s @ kc_late s). km_ord x < ring_next (k_ring (kc_sink s)))"

lemma close_invD:
  assumes "close_inv s"
  shows "shape_ok (kc_sink s)" "\<not> k_err (kc_sink s) \<Longrightarrow> set (kc_early s) \<subseteq> accounted (kc_sink s)"
    "g \<in> kc_leaving s \<Longrightarrow> g < length (k_workers (kc_sink s)) \<and> kc_stop s \<and>
       set (k_queues (kc_sink s) ! (g div k_w (kc_sink s))) \<subseteq> set (kc_late s)"
    "g \<in> kc_exited s \<Longrightarrow> g \<in> kc_leaving s \<and> k_workers (kc_sink s) ! g = Collect []"
    "x \<in> set (kc_early s) \<Longrightarrow> x \<notin> set (kc_late s)"
    "x \<in> set (kc_early s) \<or> x \<in> set (kc_late s) \<Longrightarrow> km_ord x < ring_next (k_ring (kc_sink s))"
  using assms unfolding close_inv_def by (auto simp: disjoint_iff)

lemma close_invI:
  assumes "shape_ok (kc_sink s)" "\<not> k_err (kc_sink s) \<Longrightarrow> set (kc_early s) \<subseteq> accounted (kc_sink s)"
    "\<And>g. g \<in> kc_leaving s \<Longrightarrow> g < length (k_workers (kc_sink s)) \<and> kc_stop s \<and>
       set (k_queues (kc_sink s) ! (g div k_w (kc_sink s))) \<subseteq> set (kc_late s)"
    "\<And>g. g \<in> kc_exited s \<Longrightarrow> g \<in> kc_leaving s \<and> k_workers (kc_sink s) ! g = Collect []"
    "\<And>x. x \<in> set (kc_early s) \<Longrightarrow> x \<notin> set (kc_late s)"
    "\<And>x. x \<in> set (kc_early s) \<or> x \<in> set (kc_late s) \<Longrightarrow> km_ord x < ring_next (k_ring (kc_sink s))"
  shows "close_inv s"
  unfolding close_inv_def disjoint_iff using assms by (metis Un_iff set_append)

lemma advance_next: "ring_next (fst (advance_loop r adv lst)) = ring_next r"
  by (induction r adv lst rule: advance_loop.induct) (subst advance_loop.simps, auto split: option.splits)

lemma drain_frame: "k_queues (drainPrefix k) = k_queues k" "k_workers (drainPrefix k) = k_workers k" "k_written (drainPrefix k) = k_written k"
  "k_err (drainPrefix k) = k_err k" "k_parts (drainPrefix k) = k_parts k" "k_w (drainPrefix k) = k_w k"
  "ring_next (k_ring (drainPrefix k)) = ring_next (k_ring k)"
  using advance_next [of "k_ring k" False zero_pos]
  by (auto simp: drainPrefix_def Advance_def k_w_def split: prod.splits)

lemma accounted_cong: "k_queues k' = k_queues k \<Longrightarrow> k_workers k' = k_workers k \<Longrightarrow> k_written k' = k_written k \<Longrightarrow> accounted k' = accounted k"
  by (simp add: accounted_def)

lemma inv_same_sink:
  assumes "close_inv s" "k_queues k = k_queues (kc_sink s)" "k_workers k = k_workers (kc_sink s)" "k_written k = k_written (kc_sink s)"
    "k_err k = k_err (kc_sink s)" "k_parts k = k_parts (kc_sink s)" "k_w k = k_w (kc_sink s)"
    "ring_next (k_ring k) \<ge> ring_next (k_ring (kc_sink s))"
  shows "close_inv (s\<lparr>kc_sink := k\<rparr>)"
  using assms(1) unfolding close_inv_def shape_ok_def
  by (auto simp: assms(2-7) accounted_cong [OF assms(2-4)] intro: order_less_le_trans [OF _ assms(8)])

lemma emit_queued:
  assumes "kafka_Emit ev k = KQueued k'" "shape_ok k"
  shows "\<exists>i < length (k_queues k). k' = k\<lparr>k_ring := snd (ring_Next (k_ring k)), k_queues := (k_queues k)[i := k_queues k ! i @ [emit_item k ev]]\<rparr>"
proof -
  have "worker_of (k_parts k) (k_w k) (KafkaKey ev) < length (k_queues k)"
    using assms(2) worker_of_less by (simp add: shape_ok_def)
  then show ?thesis using assms(1) by (auto simp: kafka_Emit_def Let_def split: if_splits)
qed

lemma accounted_emit:
  assumes "i < length (k_queues k)"
  shows "insert x (accounted k) \<subseteq> accounted (k\<lparr>k_ring := r, k_queues := (k_queues k)[i := k_queues k ! i @ [x]]\<rparr>)"
  using assms by (auto simp: accounted_def nth_list_update)

lemma inv_emit:
  assumes "close_inv s" "kafka_Emit ev (kc_sink s) = KQueued k"
  shows "close_inv (note_emit k (emit_item (kc_sink s) ev) s)"
proof -
  let ?x = "emit_item (kc_sink s) ev"
  obtain i where i: "i < length (k_queues (kc_sink s))"
    "k = (kc_sink s)\<lparr>k_ring := snd (ring_Next (k_ring (kc_sink s))), k_queues := (k_queues (kc_sink s))[i := k_queues (kc_sink s) ! i @ [?x]]\<rparr>"
    using emit_queued [OF assms(2)] assms(1) by (auto simp: close_inv_def)
  have h: "insert ?x (accounted (kc_sink s)) \<subseteq> accounted k" unfolding i(2) by (rule accounted_emit [OF i(1)])
  have n: "ring_next (k_ring k) = Suc (km_ord ?x)" "km_ord ?x = ring_next (k_ring (kc_sink s))"
    by (simp_all add: i(2) ring_Next_def emit_item_def)
  have f: "k_workers k = k_workers (kc_sink s)" "k_err k = k_err (kc_sink s)" "k_w k = k_w (kc_sink s)" "shape_ok k"
    using assms(1) by (simp_all add: i(2) k_w_def close_inv_def shape_ok_def)
  have q: "set (k_queues k ! j) \<subseteq> insert ?x (set (k_queues (kc_sink s) ! j))" for j
    using i(1) by (cases "j = i") (auto simp: i(2))
  note D = close_invD [OF assms(1)]
  have new: "?x \<notin> set (kc_early s)" "?x \<notin> set (kc_late s)" using D(6) [of ?x] n(2) by auto
  show ?thesis
  proof (cases "kc_stop s")
    case True
    have "close_inv (s\<lparr>kc_sink := k, kc_late := kc_late s @ [?x]\<rparr>)"
    proof (rule close_invI)
      fix g assume "g \<in> kc_leaving (s\<lparr>kc_sink := k, kc_late := kc_late s @ [?x]\<rparr>)"
      then show "g < length (k_workers (kc_sink (s\<lparr>kc_sink := k, kc_late := kc_late s @ [?x]\<rparr>))) \<and>
          kc_stop (s\<lparr>kc_sink := k, kc_late := kc_late s @ [?x]\<rparr>) \<and>
          set (k_queues (kc_sink (s\<lparr>kc_sink := k, kc_late := kc_late s @ [?x]\<rparr>)) ! (g div k_w (kc_sink (s\<lparr>kc_sink := k, kc_late := kc_late s @ [?x]\<rparr>))))
            \<subseteq> set (kc_late (s\<lparr>kc_sink := k, kc_late := kc_late s @ [?x]\<rparr>))"
        using D(3) [of g] q [of "g div k_w (kc_sink s)"] f by auto
    qed (use D h f n new in \<open>auto simp: less_Suc_eq\<close>)
    then show ?thesis using True by (simp add: note_emit_def)
  next
    case False
    then have "kc_leaving s = {}" using D(3) by blast
    then have "close_inv (s\<lparr>kc_sink := k, kc_early := kc_early s @ [?x]\<rparr>)"
      using D h f n new by (intro close_invI) (auto simp: less_Suc_eq)
    then show ?thesis using False by (simp add: note_emit_def)
  qed
qed

text \<open>The workers' steps keep what is accounted, and move items only forward.\<close>

lemma accounted_take:
  assumes "worker_take g k = Some k'" "g < length (k_workers k)" "shape_ok k"
  shows "accounted k \<subseteq> accounted k'" "shape_ok k'" "k_err k' = k_err k" "k_w k' = k_w k" "ring_next (k_ring k') = ring_next (k_ring k)"
    "length (k_workers k') = length (k_workers k)" "set (k_queues k' ! j) \<subseteq> set (k_queues k ! j)" "h \<noteq> g \<Longrightarrow> k_workers k' ! h = k_workers k ! h"
proof -
  obtain batch item rest where w: "k_workers k ! g = Collect batch" "k_queues k ! (g div k_w k) = item # rest"
    and k': "k' = k\<lparr>k_workers := (k_workers k)[g := Collect (batch @ [item])], k_queues := (k_queues k)[g div k_w k := rest]\<rparr>"
    using assms(1) by (auto simp: worker_take_def split: worker.splits list.splits if_splits)
  have q: "g div k_w k < length (k_queues k)" using assms(2,3) by (simp add: shape_ok_def less_mult_imp_div_less)
  show "accounted k \<subseteq> accounted k'"
  proof
    fix x assume "x \<in> accounted k"
    then consider "x \<in> set (k_written k)" | j where "j < length (k_queues k)" "x \<in> set (k_queues k ! j)"
      | h b where "h < length (k_workers k)" "k_workers k ! h = Collect b" "x \<in> set b" by (auto simp: accounted_def)
    then show "x \<in> accounted k'"
    proof cases
      case 1
      then show ?thesis by (simp add: accounted_def k')
    next
      case (2 j)
      show ?thesis
      proof (cases "j = g div k_w k \<and> x = item")
        case True
        then show ?thesis using assms(2) by (fastforce simp: accounted_def k')
      next
        case False
        then have "x \<in> set (k_queues k' ! j)" using 2 w q by (auto simp: k' nth_list_update)
        then show ?thesis using 2 by (auto simp: accounted_def k')
      qed
    next
      case (3 h b)
      then have "\<exists>b'. k_workers k' ! h = Collect b' \<and> x \<in> set b'" using w by (cases "h = g") (auto simp: k')
      then show ?thesis using 3 by (auto simp: accounted_def k')
    qed
  qed
  show "set (k_queues k' ! j) \<subseteq> set (k_queues k ! j)" using w q by (cases "j = g div k_w k") (auto simp: k')
qed (use assms(1,3) in \<open>auto simp: worker_take_def shape_ok_def k_w_def split: worker.splits list.splits if_splits\<close>)

lemma accounted_write:
  assumes "worker_write g ok k = Some k'" "g < length (k_workers k)" "\<not> k_err k'"
  shows "accounted k \<subseteq> accounted k'"
proof -
  obtain batch where w: "k_workers k ! g = Collect batch"
    and k': "k' = k\<lparr>k_workers := (k_workers k)[g := Report batch (\<not> ok)], k_err := k_err k \<or> \<not> ok,
        k_written := k_written k @ (if ok then batch else [])\<rparr>"
    using assms(1) by (auto simp: worker_write_def split: worker.splits if_splits)
  have ok: "ok" using assms(3) by (simp add: k')
  have "x \<in> accounted k'" if "h < length (k_workers k)" "k_workers k ! h = Collect b" "x \<in> set b" for x h b
    using that w ok by (cases "h = g") (auto simp: accounted_def k' nth_list_update)
  then show ?thesis by (auto simp: accounted_def k')
qed

lemma accounted_report:
  assumes "worker_report g k = Some k'" "g < length (k_workers k)"
  shows "accounted k \<subseteq> accounted k'"
proof -
  have "k_queues k' = k_queues k" "k_written k' = k_written k" "\<exists>w. k_workers k' = (k_workers k)[g := w]" "\<exists>b e. k_workers k ! g = Report b e"
    using assms by (auto simp: worker_report_def split: worker.splits list.splits)
  then show ?thesis using assms(2) by (auto simp: accounted_def nth_list_update) (metis worker.distinct(1))
qed

lemma inv_worker:
  assumes inv: "close_inv s" and act: "active s g" and sh: "shape_ok k" and h: "\<not> k_err k \<Longrightarrow> accounted (kc_sink s) \<subseteq> accounted k"
    and e: "k_err (kc_sink s) \<Longrightarrow> k_err k" and w: "k_w k = k_w (kc_sink s)" "length (k_workers k) = length (k_workers (kc_sink s))"
    and r: "ring_next (k_ring k) = ring_next (k_ring (kc_sink s))"
    and q: "\<And>j. set (k_queues k ! j) \<subseteq> set (k_queues (kc_sink s) ! j)" and o: "\<And>h. h \<noteq> g \<Longrightarrow> k_workers k ! h = k_workers (kc_sink s) ! h"
  shows "close_inv (s\<lparr>kc_sink := k\<rparr>)"
proof -
  note D = close_invD [OF inv]
  have ex: "h \<noteq> g" if "h \<in> kc_exited s" for h using act that by (auto simp: active_def)
  have kept: "set (kc_early s) \<subseteq> accounted k" if "\<not> k_err k" using D(2) h e that by blast
  show ?thesis
  proof (rule close_invI)
    fix h assume "h \<in> kc_leaving (s\<lparr>kc_sink := k\<rparr>)"
    then show "h < length (k_workers (kc_sink (s\<lparr>kc_sink := k\<rparr>))) \<and> kc_stop (s\<lparr>kc_sink := k\<rparr>) \<and>
        set (k_queues (kc_sink (s\<lparr>kc_sink := k\<rparr>)) ! (h div k_w (kc_sink (s\<lparr>kc_sink := k\<rparr>)))) \<subseteq> set (kc_late (s\<lparr>kc_sink := k\<rparr>))"
      using D(3) [of h] q [of "h div k_w (kc_sink s)"] w by auto
  qed (use D sh kept r o ex in auto)
qed

lemma worker_frames:
  "worker_write g ok k = Some k' \<Longrightarrow> k_queues k' = k_queues k \<and> k_parts k' = k_parts k \<and> k_cfg k' = k_cfg k \<and> k_ring k' = k_ring k \<and>
     (k_err k \<longrightarrow> k_err k') \<and> (\<exists>w. k_workers k' = (k_workers k)[g := w])"
  "worker_report g k = Some k' \<Longrightarrow> k_queues k' = k_queues k \<and> k_parts k' = k_parts k \<and> k_cfg k' = k_cfg k \<and> k_err k' = k_err k \<and>
     ring_next (k_ring k') = ring_next (k_ring k) \<and> (\<exists>w. k_workers k' = (k_workers k)[g := w])"
  by (auto simp: worker_write_def worker_report_def ring_Done_def split: worker.splits list.splits if_splits)

lemma close_inv_step: "cstep s t \<Longrightarrow> close_inv s \<Longrightarrow> close_inv t"
proof (induction rule: cstep.induct)
  case (c_emit ev s k)
  then show ?case using inv_emit by blast
next
  case (c_cancelled ev s k)
  then have "k = (kc_sink s)\<lparr>k_ring := snd (ring_Next (k_ring (kc_sink s)))\<rparr>"
    by (auto simp: kafka_Emit_def Let_def split: if_splits)
  then show ?case using inv_same_sink [OF c_cancelled.prems, of k] by (simp add: k_w_def ring_Next_def)
next
  case (c_stopped s ev k)
  show ?case by (rule inv_same_sink [OF c_stopped.prems]) (simp_all add: k_w_def ring_Next_def)
next
  case (c_take s g k)
  then have g: "g < length (k_workers (kc_sink s))" by (simp add: active_def)
  note t = accounted_take [OF c_take.hyps(3) g close_invD(1) [OF c_take.prems]]
  show ?case by (rule inv_worker [OF c_take.prems c_take.hyps(1)]) (use t in auto)
next
  case (c_write s g ok k)
  then have g: "g < length (k_workers (kc_sink s))" by (simp add: active_def)
  note f = worker_frames(1) [OF c_write.hyps(2)]
  show ?case
    by (rule inv_worker [OF c_write.prems c_write.hyps(1)])
      (use f accounted_write [OF c_write.hyps(2) g] close_invD(1) [OF c_write.prems] in \<open>auto simp: shape_ok_def k_w_def\<close>)
next
  case (c_report s g k)
  then have g: "g < length (k_workers (kc_sink s))" by (simp add: active_def)
  note f = worker_frames(2) [OF c_report.hyps(2)]
  show ?case
    by (rule inv_worker [OF c_report.prems c_report.hyps(1)])
      (use f accounted_report [OF c_report.hyps(2) g] close_invD(1) [OF c_report.prems] in \<open>auto simp: shape_ok_def k_w_def\<close>)
next
  case (c_drain s)
  show ?case by (rule inv_same_sink [OF c_drain.prems]) (simp_all add: drain_frame)
next
  case (c_close s)
  show ?case by (rule close_invI) (use close_invD [OF c_close.prems] in auto)
next
  case (c_leave s g batch)
  show ?case by (rule close_invI) (use close_invD [OF c_leave.prems] c_leave.hyps in \<open>auto simp: active_def\<close>)
next
  case (c_exit s g)
  show ?case by (rule close_invI) (use close_invD [OF c_exit.prems] c_exit.hyps in auto)
next
  case (c_notifier_exit s)
  have "close_inv (s\<lparr>kc_sink := drainPrefix (kc_sink s)\<rparr>)" by (rule inv_same_sink [OF c_notifier_exit.prems]) (simp_all add: drain_frame)
  then show ?case by (simp add: close_inv_def)
qed

lemma close_inv_start:
  assumes "NewKafkaSink c dialed (Some n) = Inr k" "n < 2 ^ 32" "WorkersPerPart c < 2 ^ 32"
  shows "close_inv (kc_start k)"
proof -
  note D = NewKafkaSinkD [OF assms(1)]
  have "k_parts k = n" using assms(1) by (auto simp: NewKafkaSink_def Let_def split: if_splits)
  moreover have "k_w k < 2 ^ 32" using D(8) assms(3) by (simp split: if_splits)
  ultimately show ?thesis using D assms(2) by (simp add: close_inv_def kc_start_def shape_ok_def)
qed

text \<open>
  C9. A clean \<open>Close\<close> means everything was delivered: when all workers have left and \<open>Close\<close> reports no
  error, every item accepted before the stop has been written, whatever the interleaving of
  workers, notifier and late emitters.
\<close>
theorem kafka_close_flushes:
  assumes "NewKafkaSink c dialed (Some n) = Inr k" "n < 2 ^ 32" "WorkersPerPart c < 2 ^ 32"
    and "creach (kc_start k) s" "all_gone s" "fst (kafka_Close writer_closed s)"
  shows "set (kc_early s) \<subseteq> set (k_written (kc_sink s))"
proof
  fix x assume x: "x \<in> set (kc_early s)"
  have inv: "close_inv s"
    using assms(4) by (induction rule: creach.induct) (auto intro: close_inv_start [OF assms(1-3)] close_inv_step)
  note D = close_invD [OF inv]
  have "\<not> k_err (kc_sink s)" using assms(6) by (simp add: kafka_Close_def Let_def)
  then have h: "x \<in> accounted (kc_sink s)" using D(2) x by blast
  have left: "set (k_queues (kc_sink s) ! q) \<subseteq> set (kc_late s)" if "q < length (k_queues (kc_sink s))" for q
  proof -
    let ?w = "k_w (kc_sink s)"
    have w: "0 < ?w" "length (k_workers (kc_sink s)) = length (k_queues (kc_sink s)) * ?w" using D(1) by (simp_all add: shape_ok_def)
    then have "q * ?w < length (k_workers (kc_sink s))" using that by simp
    then show ?thesis using assms(5) D(3,4) [of "q * ?w"] w(1) by (simp add: all_gone_def)
  qed
  moreover have "k_workers (kc_sink s) ! g = Collect []" if "g < length (k_workers (kc_sink s))" for g
    using that assms(5) D(4) by (simp add: all_gone_def)
  ultimately show "x \<in> set (k_written (kc_sink s))" using h D(5) [OF x] by (fastforce simp: accounted_def)
qed

section \<open>Schedules\<close>

datatype cact = CSink kact | CClose | CLeave nat | CExit nat | CNotifierExit

fun cact_step :: "cact \<Rightarrow> kclose \<Rightarrow> kclose option" where
  "cact_step (CSink (AEmit ev)) s =
     (case kafka_Emit ev (kc_sink s) of
        KQueued k \<Rightarrow> Some (note_emit k (emit_item (kc_sink s) ev) s)
      | _ \<Rightarrow> None)"
| "cact_step (CSink (ATake g)) s =
     (if active s g \<and> g \<notin> kc_leaving s then map_option (\<lambda>k. s\<lparr>kc_sink := k\<rparr>) (worker_take g (kc_sink s)) else None)"
| "cact_step (CSink (AWrite g ok)) s =
     (if active s g then map_option (\<lambda>k. s\<lparr>kc_sink := k\<rparr>) (worker_write g ok (kc_sink s)) else None)"
| "cact_step (CSink (AReport g)) s =
     (if active s g then map_option (\<lambda>k. s\<lparr>kc_sink := k\<rparr>) (worker_report g (kc_sink s)) else None)"
| "cact_step (CSink ADrain) s = (if kc_notifier s then Some (s\<lparr>kc_sink := drainPrefix (kc_sink s)\<rparr>) else None)"
| "cact_step CClose s = Some (s\<lparr>kc_stop := True\<rparr>)"
| "cact_step (CLeave g) s =
     (if kc_stop s \<and> active s g \<and> k_queues (kc_sink s) ! (g div k_w (kc_sink s)) = []
      then (case k_workers (kc_sink s) ! g of Collect _ \<Rightarrow> Some (s\<lparr>kc_leaving := insert g (kc_leaving s)\<rparr>) | _ \<Rightarrow> None)
      else None)"
| "cact_step (CExit g) s =
     (if active s g \<and> g \<in> kc_leaving s \<and> k_workers (kc_sink s) ! g = Collect []
      then Some (s\<lparr>kc_exited := insert g (kc_exited s)\<rparr>) else None)"
| "cact_step CNotifierExit s =
     (if kc_stop s \<and> kc_notifier s then Some (s\<lparr>kc_sink := drainPrefix (kc_sink s), kc_notifier := False\<rparr>) else None)"

fun cexec :: "cact list \<Rightarrow> kclose \<Rightarrow> kclose option" where
  "cexec [] s = Some s"
| "cexec (a # as) s = (case cact_step a s of None \<Rightarrow> None | Some t \<Rightarrow> cexec as t)"

lemma cact_step_cstep: "cact_step a s = Some t \<Longrightarrow> cstep s t"
  by (induction a s rule: cact_step.induct)
    (auto split: kemit.splits if_splits worker.splits intro: cstep.intros)

lemma creach_trans: "creach s t \<Longrightarrow> creach t u \<Longrightarrow> creach s u"
  by (rotate_tac, induction rule: creach.induct) (auto intro: creach.intros)

lemma cexec_creach: "cexec as s = Some t \<Longrightarrow> creach s t"
proof (induction as arbitrary: s)
  case Nil
  then show ?case by (auto intro: creach_start)
next
  case (Cons a as)
  then obtain u where "cact_step a s = Some u" "cexec as u = Some t" by (auto split: option.splits)
  then show ?case using Cons.IH creach_trans creach_step [OF creach_start cact_step_cstep] by blast
qed

definition close_acts :: "cact list" where
  "close_acts = [CSink (AEmit (key_event 10)), CClose, CNotifierExit, CSink (ATake 0), CLeave 0, CSink (AWrite 0 True),
     CSink (AReport 0), CSink (AReport 0), CExit 0]"

lemma close_acts_run:
  "map_option (\<lambda>s. (all_gone s, fst (kafka_Close True s), length (kc_early s), k_notified (kc_sink s)))
     (cexec close_acts (kc_start (demo_sink 1))) = Some (True, True, 1, [])"
  by code_simp

theorem kafka_close_flushes_witness:
  "\<exists>s. cexec close_acts (kc_start (demo_sink 1)) = Some s \<and> kc_early s \<noteq> [] \<and> set (kc_early s) \<subseteq> set (k_written (kc_sink s))"
proof -
  obtain s where s: "cexec close_acts (kc_start (demo_sink 1)) = Some s" "all_gone s" "fst (kafka_Close True s)" "length (kc_early s) = 1"
    using close_acts_run by (cases "cexec close_acts (kc_start (demo_sink 1))") auto
  from kafka_close_flushes [OF demo_sink_eq _ _ cexec_creach [OF s(1)] s(2,3)] s(1,4)
  show ?thesis by (auto simp: demo_kafka_def)
qed

text \<open>
  Delivered is not checkpointed: the notifier watches the same stop channel as the workers and may
  drain the prefix for the last time before they write their last batches. A clean \<open>Close\<close> can then
  have written the last event without ever notifying its position, so a restart sends it again.
\<close>

theorem close_may_skip_last_notification:
  "\<exists>s. creach (kc_start (demo_sink 1)) s \<and> all_gone s \<and> fst (kafka_Close True s) \<and>
     map km_pos (k_written (kc_sink s)) = [\<lparr>Filenum = 1, Offset = 10\<rparr>] \<and> k_notified (kc_sink s) = []"
proof -
  have pos: "map_option (\<lambda>s. map km_pos (k_written (kc_sink s))) (cexec close_acts (kc_start (demo_sink 1))) = Some [\<lparr>Filenum = 1, Offset = 10\<rparr>]"
    by code_simp
  obtain s where s: "cexec close_acts (kc_start (demo_sink 1)) = Some s" "all_gone s" "fst (kafka_Close True s)" "k_notified (kc_sink s) = []"
    using close_acts_run by (cases "cexec close_acts (kc_start (demo_sink 1))") auto
  then show ?thesis using cexec_creach [OF s(1)] pos by auto
qed

end
