(* ===== verification/FileSink.thy ===== *)
theory FileSink
  imports KafkaSink
begin

text \<open>
  The file sink (\<^verbatim>\<open>internal/sink/file.go\<close>): one JSON line per event, written through a buffered writer
  and flushed by every \<open>Emit\<close>. The operating system is the environment: a write takes the whole line
  or fails after a prefix of it. The buffered writer keeps its first error for ever; as \<open>Emit\<close>
  flushes, its buffer is empty between calls unless it has failed.
\<close>

section \<open>State and operations\<close>

record FileSink =
  fs_content :: bytes
  fs_err :: bool
  heartbeat :: bool

definition NewFileSink :: "bytes option \<Rightarrow> FileSink option" where
  "NewFileSink opened = map_option (\<lambda>c. \<lparr>fs_content = c, fs_err = False, heartbeat = False\<rparr>) opened"

definition file_IncludeHeartbeats :: "bool \<Rightarrow> FileSink \<Rightarrow> FileSink" where
  "file_IncludeHeartbeats v s = s\<lparr>heartbeat := v\<rparr>"

definition event_line :: "Event \<Rightarrow> bytes" where
  "event_line ev = json_Marshal ev @ [CHR 0x0A]"

text \<open>The fault of a write is the number of bytes that reached the file before it failed.\<close>

definition file_Emit :: "nat option \<Rightarrow> Event \<Rightarrow> FileSink \<Rightarrow> bool \<times> FileSink" where
  "file_Emit fault ev s =
     (if \<not> heartbeat s \<and> EvPhase ev = PhaseHeartbeat then (True, s)
      else if fs_err s then (False, s)
      else case fault of
             None \<Rightarrow> (True, s\<lparr>fs_content := fs_content s @ event_line ev\<rparr>)
           | Some n \<Rightarrow> (False, s\<lparr>fs_content := fs_content s @ take n (event_line ev), fs_err := True\<rparr>))"

definition file_Close :: "bool \<Rightarrow> FileSink \<Rightarrow> bool" where
  "file_Close closed s = (\<not> fs_err s \<and> closed)"

fun file_run :: "(nat option \<times> Event) list \<Rightarrow> FileSink \<Rightarrow> Event list \<times> FileSink" where
  "file_run [] s = ([], s)"
| "file_run ((fault, ev) # as) s =
     (let (ok, t) = file_Emit fault ev s; (evs, u) = file_run as t
      in (if ok \<and> (heartbeat s \<or> EvPhase ev \<noteq> PhaseHeartbeat) then ev # evs else evs, u))"

section \<open>An event is one line\<close>

lemma jsonEscape_no_nl [simp]: "nl \<notin> set (jsonEscape s)"
  by (induction s) (auto simp: jsonEscape_eq byte_escape_def split: if_splits)

lemma b64_no_nl [simp]: "nl \<notin> set (b64_encode s)"
  using b64_encode_no_newline [of s] unfolding filter_id_conv by blast

lemma join_no_nl: "nl \<notin> set sep \<Longrightarrow> list_all (\<lambda>x. nl \<notin> set x) xs \<Longrightarrow> nl \<notin> set (join sep xs)"
  by (induction sep xs rule: join.induct) auto

lemma args_no_nl [simp]: "nl \<notin> set (join '','' (map (marshal_arg enc) args))"
  by (rule join_no_nl) (auto simp: list_all_iff marshal_arg_def writeRawJSONStr_def)

lemma MarshalJSON_no_nl: "nl \<notin> set (MarshalJSON e)"
  by (simp add: MarshalJSON_def Let_def writeJSONStr_def writeRawJSONStr_def quoted_field_def digits_one_line SchemaVersion_def format_int_def)

lemma html_escape_no_nl: "nl \<notin> set s \<Longrightarrow> nl \<notin> set (html_escape s)"
proof (induction s rule: html_escape.induct)
  case (2 c cs)
  have "hex_digit (byte_val (cs ! 1) mod 16) \<noteq> nl" by (rule hex_digit_no_nl) simp
  with 2 show ?case by (auto dest: in_set_dropD)
qed simp

lemma json_Marshal_no_nl [simp]: "nl \<notin> set (json_Marshal e)"
  by (simp add: json_Marshal_def html_escape_no_nl MarshalJSON_no_nl)

lemma split_event_lines: "split_lines (concat (map event_line evs) @ rest) = map json_Marshal evs @ split_lines rest"
  using split_lines_concat [of "map json_Marshal evs" rest] by (simp add: list_all_iff event_line_def [abs_def] comp_def)

section \<open>What the file holds\<close>

text \<open>The file holds what it held, the lines of the acknowledged events in order and, after a failure only, a torn line.\<close>

lemma file_run_content:
  "file_run as s = (evs, t) \<Longrightarrow> \<exists>torn. fs_content t = fs_content s @ concat (map event_line evs) @ torn \<and>
     (fs_err s \<longrightarrow> torn = [] \<and> evs = [] \<and> fs_err t) \<and> (\<not> fs_err t \<longrightarrow> torn = [])"
proof (induction as s arbitrary: evs t rule: file_run.induct)
  case (2 fault ev as s)
  obtain ok u evs' where f: "file_Emit fault ev s = (ok, u)" "file_run as u = (evs', t)"
    "evs = (if ok \<and> (heartbeat s \<or> EvPhase ev \<noteq> PhaseHeartbeat) then ev # evs' else evs')"
    using "2.prems" by (auto split: prod.splits)
  obtain torn where t: "fs_content t = fs_content u @ concat (map event_line evs') @ torn"
    "fs_err u \<longrightarrow> torn = [] \<and> evs' = [] \<and> fs_err t" "\<not> fs_err t \<longrightarrow> torn = []"
    using "2.IH" [OF f(1) [symmetric] refl f(2)] by auto
  show ?case
  proof (cases fault)
    case None
    then show ?thesis using f t by (auto simp: file_Emit_def split: if_splits)
  next
    case (Some n)
    then show ?thesis using f t by (auto simp: file_Emit_def split: if_splits)
  qed
qed simp

text \<open>
  C29. A new file that closes without an error is the list of the acknowledged events: cut at its
  newlines it gives back the JSON text of every event that \<open>Emit\<close> accepted, in order, each on a line
  of its own whatever bytes its key and arguments have.
\<close>
theorem file_lines_are_events:
  assumes "NewFileSink (Some []) = Some s" "file_run acts s = (evs, t)" "file_Close closed t"
  shows "split_lines (fs_content t) = map json_Marshal evs @ [[]]"
proof -
  have "fs_content t = concat (map event_line evs) @ []"
    using assms file_run_content [OF assms(2)] by (auto simp: NewFileSink_def file_Close_def)
  then show ?thesis using split_event_lines [of evs "[]"] by simp
qed

theorem file_lines_are_events_witness:
  "\<exists>evs t. file_run [(None, key_event 10), (None, key_event 20)] \<lparr>fs_content = [], fs_err = False, heartbeat = False\<rparr> = (evs, t) \<and>
     length evs = 2 \<and> split_lines (fs_content t) = map json_Marshal evs @ [[]]"
proof -
  let ?s = "\<lparr>fs_content = [], fs_err = False, heartbeat = False\<rparr>"
  obtain evs t where r: "file_run [(None, key_event 10), (None, key_event 20)] ?s = (evs, t)" "file_Close True t" "length evs = 2"
    by (simp add: file_Emit_def key_event_def file_Close_def)
  from file_lines_are_events [OF _ r(1,2)] r(1,3) show ?thesis by (simp add: NewFileSink_def)
qed

text \<open>
  After a failed write the next process appends to the torn line: the first event it acknowledges
  shares its line with the rest of the event that failed.
\<close>

theorem torn_line_swallows_next_event:
  assumes "file_Emit (Some n) ev s = (False, t)" "\<not> fs_err s" "n \<le> length (json_Marshal ev)"
    and "NewFileSink (Some (fs_content t)) = Some s'" "file_Emit None ev' s' = (True, t')" "EvPhase ev' \<noteq> PhaseHeartbeat"
    and "fs_content s = concat (map event_line evs)"
  shows "split_lines (fs_content t') = map json_Marshal evs @ [take n (json_Marshal ev) @ json_Marshal ev', []]"
proof -
  have "fs_content t' = concat (map event_line evs) @ (take n (json_Marshal ev) @ json_Marshal ev') @ nl # []"
    using assms by (auto simp: file_Emit_def NewFileSink_def event_line_def split: if_splits)
  moreover have "nl \<notin> set (take n (json_Marshal ev) @ json_Marshal ev')"
    using json_Marshal_no_nl in_set_takeD by fastforce
  ultimately show ?thesis using split_lines_cons [of "take n (json_Marshal ev) @ json_Marshal ev'" "[]"] by (simp add: split_event_lines)
qed

end
