(* ===== verification/Metrics.thy ===== *)
theory Metrics
  imports Envelope
begin

text \<open>
  The metrics registry (\<^verbatim>\<open>internal/metrics/metrics.go\<close>). The registry hands out pointers to counters and
  gauges, so the model has a store of cells and the registry holds addresses: asking twice for one
  name gives the same cell. The uptime, the runtime's version and the table of printable runes are
  arguments.
\<close>

section \<open>Quoting\<close>

text \<open>\<^verbatim>\<open>strconv.Quote\<close>, the format \<^verbatim>\<open>%q\<close> of a label.\<close>

fun hex_fixed :: "nat \<Rightarrow> nat \<Rightarrow> bytes" where
  "hex_fixed 0 v = []"
| "hex_fixed (Suc k) v = hex_fixed k (v div 16) @ [hex_digit (v mod 16)]"

definition quote_ascii :: "byte \<Rightarrow> bytes" where
  "quote_ascii c =
     (if c = CHR 0x22 \<or> c = CHR 0x5C then [CHR 0x5C, c]
      else if 0x20 \<le> byte_val c \<and> byte_val c < 0x7F then [c]
      else case map_of (zip [7, 8, 12, 10, 13, 9, 11] ''abfnrtv'') (byte_val c) of
             Some e \<Rightarrow> [CHR 0x5C, e]
           | None \<Rightarrow> [CHR 0x5C, CHR ''x''] @ hex c)"

definition rune_val :: "bytes \<Rightarrow> nat" where
  "rune_val bs = foldl (\<lambda>v c. v * 64 + byte_val c mod 64) (byte_val (hd bs) mod 2 ^ (7 - length bs)) (tl bs)"

definition quote_rune :: "(bytes \<Rightarrow> bool) \<Rightarrow> bytes \<Rightarrow> bytes" where
  "quote_rune is_print bs =
     (if is_print bs then bs
      else if rune_val bs < 0x10000 then [CHR 0x5C, CHR ''u''] @ hex_fixed 4 (rune_val bs)
      else [CHR 0x5C, CHR ''U''] @ hex_fixed 8 (rune_val bs))"

definition rune_tail :: "byte \<Rightarrow> bytes \<Rightarrow> nat option" where
  "rune_tail a r =
     (case utf8_head (byte_val a) of
        None \<Rightarrow> None
      | Some (n, lo, hi) \<Rightarrow>
          if n \<le> length r \<and> lo \<le> byte_val (r ! 0) \<and> byte_val (r ! 0) \<le> hi \<and> list_all utf8_cont (take n r) then Some n else None)"

function quote_body :: "(bytes \<Rightarrow> bool) \<Rightarrow> bytes \<Rightarrow> bytes" where
  "quote_body is_print [] = []"
| "quote_body is_print (a # r) =
     (if byte_val a < 0x80 then quote_ascii a @ quote_body is_print r
      else case rune_tail a r of
             None \<Rightarrow> [CHR 0x5C, CHR ''x''] @ hex a @ quote_body is_print r
           | Some n \<Rightarrow> quote_rune is_print (a # take n r) @ quote_body is_print (drop n r))"
  by pat_completeness auto
termination
  by (relation "measure (\<lambda>(p, s). length s)") auto

definition Quote :: "(bytes \<Rightarrow> bool) \<Rightarrow> bytes \<Rightarrow> bytes" where
  "Quote is_print s = [CHR 0x22] @ quote_body is_print s @ [CHR 0x22]"

section \<open>The registry\<close>

record Labeled =
  lb_name :: bytes
  lb_help :: bytes
  lb_vals :: "(bytes \<times> nat) list"

record Registry =
  r_counters :: "(bytes \<times> bytes \<times> nat) list"
  r_gauges :: "(bytes \<times> bytes \<times> nat) list"
  r_labeled :: "Labeled list"
  r_version :: bytes
  r_cells :: "64 word list"
  r_gcells :: "64 word list"

definition metrics_New :: "bytes \<Rightarrow> Registry" where
  "metrics_New version = \<lparr>r_counters = [], r_gauges = [], r_labeled = [], r_version = version, r_cells = [], r_gcells = []\<rparr>"

definition Counter_Add :: "nat \<Rightarrow> 64 word \<Rightarrow> Registry \<Rightarrow> Registry" where
  "Counter_Add c n r = r\<lparr>r_cells := (r_cells r)[c := r_cells r ! c + n]\<rparr>"

definition Gauge_Set :: "nat \<Rightarrow> 64 word \<Rightarrow> Registry \<Rightarrow> Registry" where
  "Gauge_Set g v r = r\<lparr>r_gcells := (r_gcells r)[g := v]\<rparr>"

definition reg_Counter :: "bytes \<Rightarrow> bytes \<Rightarrow> Registry \<Rightarrow> nat \<times> Registry" where
  "reg_Counter name help r =
     (case find (\<lambda>e. fst e = name) (r_counters r) of
        Some (_, _, c) \<Rightarrow> (c, r)
      | None \<Rightarrow> let c = length (r_cells r)
                in (c, r\<lparr>r_counters := r_counters r @ [(name, help, c)], r_cells := r_cells r @ [0]\<rparr>))"

definition reg_Gauge :: "bytes \<Rightarrow> bytes \<Rightarrow> Registry \<Rightarrow> nat \<times> Registry" where
  "reg_Gauge name help r =
     (case find (\<lambda>e. fst e = name) (r_gauges r) of
        Some (_, _, g) \<Rightarrow> (g, r)
      | None \<Rightarrow> let g = length (r_gcells r)
                in (g, r\<lparr>r_gauges := r_gauges r @ [(name, help, g)], r_gcells := r_gcells r @ [0]\<rparr>))"

definition NewLabeled :: "bytes \<Rightarrow> bytes \<Rightarrow> Labeled" where
  "NewLabeled name help = \<lparr>lb_name = name, lb_help = help, lb_vals = []\<rparr>"

definition reg_Labeled :: "bytes \<Rightarrow> bytes \<Rightarrow> Registry \<Rightarrow> nat \<times> Registry" where
  "reg_Labeled name help r = (length (r_labeled r), r\<lparr>r_labeled := r_labeled r @ [NewLabeled name help]\<rparr>)"

definition Labeled_With :: "nat \<Rightarrow> bytes \<Rightarrow> Registry \<Rightarrow> nat \<times> Registry" where
  "Labeled_With i label r =
     (let l = r_labeled r ! i
      in case map_of (lb_vals l) label of
           Some c \<Rightarrow> (c, r)
         | None \<Rightarrow> let c = length (r_cells r)
                   in (c, r\<lparr>r_labeled := (r_labeled r)[i := l\<lparr>lb_vals := lb_vals l @ [(label, c)]\<rparr>], r_cells := r_cells r @ [0]\<rparr>))"

section \<open>The text endpoint\<close>

definition head_lines :: "bytes \<Rightarrow> bytes \<Rightarrow> bytes \<Rightarrow> bytes list" where
  "head_lines name help kind = [''# HELP '' @ name @ '' '' @ help, ''# TYPE '' @ name @ '' '' @ kind]"

definition counter_lines :: "Registry \<Rightarrow> bytes \<times> bytes \<times> nat \<Rightarrow> bytes list" where
  "counter_lines r e = (case e of (name, help, c) \<Rightarrow>
     head_lines name help ''counter'' @ [name @ '' '' @ format_uint (unat (r_cells r ! c))])"

definition gauge_lines :: "Registry \<Rightarrow> bytes \<times> bytes \<times> nat \<Rightarrow> bytes list" where
  "gauge_lines r e = (case e of (name, help, g) \<Rightarrow>
     head_lines name help ''gauge'' @ [name @ '' '' @ format_int (sint (r_gcells r ! g))])"

definition label_line :: "(bytes \<Rightarrow> bool) \<Rightarrow> Registry \<Rightarrow> Labeled \<Rightarrow> bytes \<Rightarrow> bytes" where
  "label_line is_print r l k =
     lb_name l @ ''{label='' @ Quote is_print k @ ''} '' @ format_uint (unat (r_cells r ! the (map_of (lb_vals l) k)))"

text \<open>Keys are sorted as byte strings; the keys of the map come in some order.\<close>

definition labeled_lines :: "(bytes \<Rightarrow> bool) \<Rightarrow> Registry \<Rightarrow> Labeled \<Rightarrow> bytes list" where
  "labeled_lines is_print r l =
     head_lines (lb_name l) (lb_help l) ''counter'' @ map (label_line is_print r l) (sort (map fst (lb_vals l)))"

definition build_line :: "bytes \<Rightarrow> Registry \<Rightarrow> bytes" where
  "build_line gov r = ''pikawire_build_info{version='' @ [CHR 0x22] @ r_version r @ [CHR 0x22] @ '',go='' @ [CHR 0x22] @ gov @ [CHR 0x22] @ ''} 1''"

definition metric_lines :: "(bytes \<Rightarrow> bool) \<Rightarrow> int \<Rightarrow> bytes \<Rightarrow> Registry \<Rightarrow> bytes list" where
  "metric_lines is_print uptime gov r =
     head_lines ''pikawire_uptime_seconds'' ''process uptime'' ''gauge'' @ [''pikawire_uptime_seconds '' @ format_int uptime] @
     head_lines ''pikawire_build_info'' ''build metadata'' ''gauge'' @ [build_line gov r] @
     concat (map (counter_lines r) (r_counters r)) @ concat (map (gauge_lines r) (r_gauges r)) @
     concat (map (labeled_lines is_print r) (r_labeled r))"

definition serveMetrics :: "(bytes \<Rightarrow> bool) \<Rightarrow> int \<Rightarrow> bytes \<Rightarrow> Registry \<Rightarrow> bytes" where
  "serveMetrics is_print uptime gov r = concat (map (\<lambda>l. l @ [CHR 0x0A]) (metric_lines is_print uptime gov r))"

section \<open>Handles\<close>

text \<open>A cell belongs to one counter name, or to one label of one family.\<close>

type_synonym metric_key = "bytes + nat \<times> bytes"

fun cell_of :: "Registry \<Rightarrow> metric_key \<Rightarrow> nat option" where
  "cell_of r (Inl name) = map_of (map (\<lambda>(n, h, c). (n, c)) (r_counters r)) name"
| "cell_of r (Inr (i, label)) = (if i < length (r_labeled r) then map_of (lb_vals (r_labeled r ! i)) label else None)"

definition metric_value :: "Registry \<Rightarrow> metric_key \<Rightarrow> 64 word" where
  "metric_value r k = (case cell_of r k of None \<Rightarrow> 0 | Some c \<Rightarrow> r_cells r ! c)"

definition cells_ok :: "Registry \<Rightarrow> bool" where
  "cells_ok r \<longleftrightarrow> (\<forall>k c. cell_of r k = Some c \<longrightarrow> c < length (r_cells r)) \<and>
     (\<forall>k k' c. cell_of r k = Some c \<longrightarrow> cell_of r k' = Some c \<longrightarrow> k = k')"

text \<open>What asking for a metric does: the cell it has already, or a new one.\<close>

definition acquires :: "Registry \<Rightarrow> metric_key \<Rightarrow> nat \<times> Registry \<Rightarrow> bool" where
  "acquires r k x \<longleftrightarrow> (case x of (c, r') \<Rightarrow>
     cell_of r k = Some c \<and> r' = r \<or>
     cell_of r k = None \<and> c = length (r_cells r) \<and> cell_of r' = (cell_of r)(k \<mapsto> c) \<and> r_cells r' = r_cells r @ [0])"

lemma find_counter: "map_option (\<lambda>(n, h, c). c) (find (\<lambda>e. fst e = name) cs) = map_of (map (\<lambda>(n, h, c). (n, c)) cs) name"
  by (induction cs) auto

lemma acquires_Counter: "acquires r (Inl name) (reg_Counter name help r)"
proof (cases "find (\<lambda>e. fst e = name) (r_counters r)")
  case None
  then have n: "cell_of r (Inl name) = None" using find_counter [of name "r_counters r"] by simp
  have "cell_of (r\<lparr>r_counters := r_counters r @ [(name, help, length (r_cells r))], r_cells := r_cells r @ [0]\<rparr>) k =
      ((cell_of r)(Inl name \<mapsto> length (r_cells r))) k" for k
    using n by (cases "(r, k)" rule: cell_of.cases) (auto simp: map_add_def split: option.splits)
  then show ?thesis using None n by (auto simp: acquires_def reg_Counter_def Let_def)
next
  case (Some e)
  then show ?thesis using find_counter [of name "r_counters r"] by (auto simp: acquires_def reg_Counter_def split: prod.splits)
qed

lemma acquires_With:
  assumes "i < length (r_labeled r)"
  shows "acquires r (Inr (i, label)) (Labeled_With i label r)"
proof (cases "map_of (lb_vals (r_labeled r ! i)) label")
  case None
  let ?l = "(r_labeled r ! i)\<lparr>lb_vals := lb_vals (r_labeled r ! i) @ [(label, length (r_cells r))]\<rparr>"
  have "cell_of (r\<lparr>r_labeled := (r_labeled r)[i := ?l], r_cells := r_cells r @ [0]\<rparr>) k =
      ((cell_of r)(Inr (i, label) \<mapsto> length (r_cells r))) k" for k
    using None assms by (cases "(r, k)" rule: cell_of.cases) (auto simp: map_add_def nth_list_update split: option.splits)
  then show ?thesis using None assms by (auto simp: acquires_def Labeled_With_def Let_def)
qed (use assms in \<open>auto simp: acquires_def Labeled_With_def\<close>)

lemma Add_simps [simp]: "cell_of (Counter_Add c n r) = cell_of r" "r_cells (Counter_Add c n r) = (r_cells r)[c := r_cells r ! c + n]"
  by (rule ext, case_tac "(r, x)" rule: cell_of.cases) (auto simp: Counter_Add_def)

lemma cells_okD:
  "cells_ok r \<Longrightarrow> cell_of r k = Some c \<Longrightarrow> c < length (r_cells r)"
  "cells_ok r \<Longrightarrow> cell_of r k = Some c \<Longrightarrow> cell_of r k' = Some c \<Longrightarrow> k = k'"
  by (auto simp: cells_ok_def)

lemma acquired_ok:
  assumes "acquires r k (c, r')" "cells_ok r"
  shows "cells_ok r'" "cell_of r' k = Some c" "metric_value r' k' = metric_value r k'"
proof -
  from assms(1) consider "r' = r" "cell_of r k = Some c"
    | "cell_of r k = None" "c = length (r_cells r)" "cell_of r' = (cell_of r)(k \<mapsto> c)" "r_cells r' = r_cells r @ [0]"
    by (auto simp: acquires_def)
  then have "cells_ok r' \<and> cell_of r' k = Some c \<and> metric_value r' k' = metric_value r k'"
  proof cases
    case 1
    then show ?thesis using assms(2) by simp
  next
    case 2
    then have "cells_ok r'" using assms(2) unfolding cells_ok_def by (fastforce split: if_splits)
    then show ?thesis using 2 cells_okD(1) [OF assms(2)] by (auto simp: metric_value_def nth_append split: option.splits)
  qed
  then show "cells_ok r'" "cell_of r' k = Some c" "metric_value r' k' = metric_value r k'" by blast+
qed

lemma add_acquired:
  assumes "acquires r k (c, r')" "cells_ok r"
  shows "cells_ok (Counter_Add c n r')" "metric_value (Counter_Add c n r') k' = metric_value r k' + (if k' = k then n else 0)"
proof -
  note a = acquired_ok [OF assms]
  show "cells_ok (Counter_Add c n r')" using a(1) by (simp add: cells_ok_def)
  have "metric_value (Counter_Add c n r') k' = metric_value r' k' + (if k' = k then n else 0)"
  proof (cases "cell_of r' k'")
    case None
    then show ?thesis using a(2) by (auto simp: metric_value_def)
  next
    case (Some c')
    then have "c = c' \<longleftrightarrow> k = k'" "c' < length (r_cells r')" using a(1,2) cells_okD by auto
    then show ?thesis using Some by (auto simp: metric_value_def nth_list_update)
  qed
  then show "metric_value (Counter_Add c n r') k' = metric_value r k' + (if k' = k then n else 0)" using a(3) by simp
qed

section \<open>Runs of the program's updates\<close>

datatype mact = Bump bytes bytes "64 word" | SetGauge bytes bytes "64 word" | Family bytes bytes | BumpLabel nat bytes "64 word"

fun metric_step :: "mact \<Rightarrow> Registry \<Rightarrow> Registry" where
  "metric_step (Bump name help n) r = (case reg_Counter name help r of (c, r') \<Rightarrow> Counter_Add c n r')"
| "metric_step (SetGauge name help v) r = (case reg_Gauge name help r of (g, r') \<Rightarrow> Gauge_Set g v r')"
| "metric_step (Family name help) r = snd (reg_Labeled name help r)"
| "metric_step (BumpLabel i label n) r = (case Labeled_With i label r of (c, r') \<Rightarrow> Counter_Add c n r')"

text \<open>A label is bumped through a family that exists; the first \<open>m\<close> families do from the start.\<close>

fun act_ok :: "nat \<Rightarrow> mact \<Rightarrow> bool" where
  "act_ok m (BumpLabel i label n) \<longleftrightarrow> i < m"
| "act_ok m _ \<longleftrightarrow> True"

fun act_amount :: "mact \<Rightarrow> metric_key \<Rightarrow> 64 word" where
  "act_amount (Bump name help n) k = (if k = Inl name then n else 0)"
| "act_amount (BumpLabel i label n) k = (if k = Inr (i, label) then n else 0)"
| "act_amount _ k = 0"

text \<open>The contract of a family of totals: every action adds its amount to every key.\<close>

locale tally =
  fixes act :: "'a \<Rightarrow> 's \<Rightarrow> 's" and allowed :: "'a \<Rightarrow> bool" and total :: "'s \<Rightarrow> 'k \<Rightarrow> 64 word"
    and amount :: "'a \<Rightarrow> 'k \<Rightarrow> 64 word" and inv :: "'s \<Rightarrow> bool"
  assumes act_inv: "inv s \<Longrightarrow> allowed a \<Longrightarrow> inv (act a s)"
    and act_total: "inv s \<Longrightarrow> allowed a \<Longrightarrow> total (act a s) k = total s k + amount a k"
begin

lemma run_totals:
  "inv s \<Longrightarrow> list_all allowed as \<Longrightarrow> inv (fold act as s) \<and> total (fold act as s) k = total s k + (\<Sum>a\<leftarrow>as. amount a k)"
  by (induction as arbitrary: s) (auto simp: act_inv act_total add.assoc)

end

lemma gauge_cells: "cell_of (r\<lparr>r_gauges := gs, r_gcells := vs\<rparr>) = cell_of r"
  by (rule ext, case_tac "(r, x)" rule: cell_of.cases) auto

lemma other_updates:
  "metric_value (r\<lparr>r_gauges := gs, r_gcells := vs\<rparr>) k = metric_value r k"
  "cells_ok (r\<lparr>r_gauges := gs, r_gcells := vs\<rparr>) = cells_ok r"
  by (simp_all add: metric_value_def cells_ok_def gauge_cells split: option.split)

lemma family_cells: "cell_of (snd (reg_Labeled name help r)) = cell_of r"
  by (rule ext, case_tac "(r, x)" rule: cell_of.cases) (auto simp: reg_Labeled_def NewLabeled_def nth_append)

lemma gauge_step: "\<exists>gs vs. metric_step (SetGauge name help v) r = r\<lparr>r_gauges := gs, r_gcells := vs\<rparr>"
proof (cases "find (\<lambda>e. fst e = name) (r_gauges r)")
  case (Some e)
  have "\<exists>gs ws. r\<lparr>r_gcells := vs\<rparr> = r\<lparr>r_gauges := gs, r_gcells := ws\<rparr>" for vs
    by (rule exI [of _ "r_gauges r"], rule exI [of _ vs]) simp
  then show ?thesis using Some by (cases e) (simp add: reg_Gauge_def Gauge_Set_def)
qed (auto simp: reg_Gauge_def Gauge_Set_def Let_def)

definition reg_inv :: "nat \<Rightarrow> Registry \<Rightarrow> bool" where
  "reg_inv m r \<longleftrightarrow> cells_ok r \<and> m \<le> length (r_labeled r)"

lemma step_families: "length (r_labeled r) \<le> length (r_labeled (metric_step a r))"
  by (cases a) (auto simp: reg_Counter_def reg_Gauge_def reg_Labeled_def Labeled_With_def Counter_Add_def Gauge_Set_def Let_def
      split: option.splits prod.splits)

lemma step_tally:
  assumes "reg_inv m r" "act_ok m a"
  shows "cells_ok (metric_step a r) \<and> metric_value (metric_step a r) k = metric_value r k + act_amount a k"
proof (cases a)
  case (Bump name doc n)
  then show ?thesis
    using acquires_Counter [of r name doc] add_acquired assms by (auto simp: reg_inv_def split: prod.splits)
next
  case (SetGauge name doc v)
  then show ?thesis using gauge_step [of name doc v r] assms(1) by (auto simp: other_updates reg_inv_def)
next
  case (Family name doc)
  have "r_cells (snd (reg_Labeled name doc r)) = r_cells r" by (simp add: reg_Labeled_def)
  then show ?thesis using Family assms(1) by (simp add: reg_inv_def cells_ok_def metric_value_def family_cells split: option.split)
next
  case (BumpLabel i label n)
  then have "i < length (r_labeled r)" using assms by (simp add: reg_inv_def)
  then show ?thesis
    using BumpLabel acquires_With [of i r label] add_acquired assms(1) by (auto simp: reg_inv_def split: prod.splits)
qed

interpretation metrics: tally metric_step "act_ok m" metric_value act_amount "reg_inv m" for m
  by unfold_locales (use step_tally step_families in \<open>auto simp: reg_inv_def intro: order_trans\<close>)

section \<open>What the endpoint shows\<close>

text \<open>A scrape reads the lines that are neither empty nor comments.\<close>

definition sample_lines :: "bytes \<Rightarrow> bytes list" where
  "sample_lines txt = filter (\<lambda>l. l \<noteq> [] \<and> hd l \<noteq> CHR ''#'') (split_lines txt)"

definition name_ok :: "bytes \<Rightarrow> bool" where
  "name_ok s \<longleftrightarrow> s \<noteq> [] \<and> hd s \<noteq> CHR ''#'' \<and> nl \<notin> set s"

definition text_ok :: "bytes \<Rightarrow> Registry \<Rightarrow> bool" where
  "text_ok gov r \<longleftrightarrow> nl \<notin> set gov \<and> nl \<notin> set (r_version r) \<and>
     list_all (\<lambda>(n, h, c). name_ok n \<and> nl \<notin> set h) (r_counters r @ r_gauges r) \<and>
     list_all (\<lambda>l. name_ok (lb_name l) \<and> nl \<notin> set (lb_help l)) (r_labeled r)"

lemma hex_fixed_no_nl: "nl \<notin> set (hex_fixed k v)"
  by (induction k arbitrary: v) (auto simp: hex_digit_no_nl [THEN not_sym])

lemma cont_no_nl: "list_all utf8_cont bs \<Longrightarrow> nl \<notin> set bs"
  by (auto simp: list_all_iff utf8_cont_def)

lemma quote_ascii_no_nl: "nl \<notin> set (quote_ascii c)"
proof (cases "c = nl")
  case True
  show ?thesis unfolding True by code_simp
next
  case False
  have "e \<noteq> nl" if "map_of (zip [7, 8, 12, 10, 13, 9, 11] ''abfnrtv'') (byte_val c :: nat) = Some e" for e
    using map_of_SomeD [OF that] by auto
  then show ?thesis using False by (auto simp: quote_ascii_def split: option.splits)
qed

lemma quote_body_no_nl: "nl \<notin> set (quote_body is_print s)"
proof (induction is_print s rule: quote_body.induct)
  case (2 is_print a r)
  have "nl \<notin> set (a # take n r)" if "rune_tail a r = Some n" "\<not> byte_val a < 0x80" for n
    using that cont_no_nl [of "take n r"] by (auto simp: rune_tail_def split: option.splits if_splits)
  then show ?case using 2 by (auto simp: quote_ascii_no_nl quote_rune_def hex_fixed_no_nl split: option.splits if_splits)
qed simp

lemma format_int_no_nl: "nl \<notin> set (format_int i)"
  by (simp add: format_int_def digits_one_line)

lemma metric_lines_no_nl:
  assumes "text_ok gov r"
  shows "list_all (\<lambda>l. nl \<notin> set l) (metric_lines is_print uptime gov r)"
proof -
  have "list_all (\<lambda>l. nl \<notin> set l) (counter_lines r e)" if "e \<in> set (r_counters r)" for e
    using that assms by (fastforce simp: counter_lines_def head_lines_def text_ok_def name_ok_def list_all_iff digits_one_line split: prod.splits)
  moreover have "list_all (\<lambda>l. nl \<notin> set l) (gauge_lines r e)" if "e \<in> set (r_gauges r)" for e
    using that assms by (fastforce simp: gauge_lines_def head_lines_def text_ok_def name_ok_def list_all_iff format_int_no_nl split: prod.splits)
  moreover have "list_all (\<lambda>l. nl \<notin> set l) (labeled_lines is_print r l)" if "l \<in> set (r_labeled r)" for l
    using that assms by (auto simp: labeled_lines_def label_line_def Quote_def head_lines_def text_ok_def name_ok_def list_all_iff
        digits_one_line quote_body_no_nl)
  ultimately show ?thesis
    using assms by (auto simp: metric_lines_def head_lines_def build_line_def text_ok_def list_all_iff format_int_no_nl)
qed

lemma hd_sample: "name_ok n \<Longrightarrow> n @ x \<noteq> [] \<and> hd (n @ x) \<noteq> CHR ''#''"
  by (simp add: name_ok_def)

lemma filter_concat_map: "(\<And>x. x \<in> set xs \<Longrightarrow> filter P (f x) = g x) \<Longrightarrow> filter P (concat (map f xs)) = concat (map g xs)"
  by (induction xs) auto

definition counter_sample :: "Registry \<Rightarrow> bytes \<times> bytes \<times> nat \<Rightarrow> bytes" where
  "counter_sample r e = (case e of (n, h, c) \<Rightarrow> n @ '' '' @ format_uint (unat (r_cells r ! c)))"

definition gauge_sample :: "Registry \<Rightarrow> bytes \<times> bytes \<times> nat \<Rightarrow> bytes" where
  "gauge_sample r e = (case e of (n, h, c) \<Rightarrow> n @ '' '' @ format_int (sint (r_gcells r ! c)))"

lemma metric_samples:
  assumes "text_ok gov r"
  shows "sample_lines (serveMetrics is_print uptime gov r) =
    [''pikawire_uptime_seconds '' @ format_int uptime, build_line gov r] @ map (counter_sample r) (r_counters r) @
    map (gauge_sample r) (r_gauges r) @
    concat (map (\<lambda>l. map (label_line is_print r l) (sort (map fst (lb_vals l)))) (r_labeled r))"
proof -
  let ?P = "\<lambda>l :: bytes. l \<noteq> [] \<and> hd l \<noteq> CHR ''#''"
  have head: "filter ?P (head_lines n h k) = []" for n h k by (simp add: head_lines_def)
  have c: "filter ?P (counter_lines r e) = [counter_sample r e]" if "e \<in> set (r_counters r)" for e
    using that assms hd_sample by (fastforce simp: counter_lines_def counter_sample_def head text_ok_def list_all_iff split: prod.splits)
  have g: "filter ?P (gauge_lines r e) = [gauge_sample r e]" if "e \<in> set (r_gauges r)" for e
    using that assms hd_sample by (fastforce simp: gauge_lines_def gauge_sample_def head text_ok_def list_all_iff split: prod.splits)
  have l: "filter ?P (labeled_lines is_print r l) = map (label_line is_print r l) (sort (map fst (lb_vals l)))"
    if "l \<in> set (r_labeled r)" for l
  proof -
    have "name_ok (lb_name l)" using that assms by (auto simp: text_ok_def list_all_iff)
    then have "?P (label_line is_print r l k)" for k unfolding label_line_def by (rule hd_sample)
    then have "filter ?P (map (label_line is_print r l) ks) = map (label_line is_print r l) ks" for ks by (induction ks) auto
    then show ?thesis by (simp only: labeled_lines_def head filter_append append_Nil)
  qed
  note fc = filter_concat_map [of "r_counters r" ?P "counter_lines r", OF c]
  note fg = filter_concat_map [of "r_gauges r" ?P "gauge_lines r", OF g]
  note fl = filter_concat_map [of "r_labeled r" ?P "labeled_lines is_print r", OF l]
  have sp: "split_lines (serveMetrics is_print uptime gov r) = metric_lines is_print uptime gov r @ [[]]"
    using split_lines_concat [where rest = "[]", OF metric_lines_no_nl [OF assms]] by (simp add: serveMetrics_def)
  have "sample_lines (serveMetrics is_print uptime gov r) =
      filter ?P (metric_lines is_print uptime gov r)" by (simp add: sample_lines_def sp)
  also have "\<dots> = [''pikawire_uptime_seconds '' @ format_int uptime, build_line gov r] @
      concat (map (\<lambda>e. [counter_sample r e]) (r_counters r)) @ concat (map (\<lambda>e. [gauge_sample r e]) (r_gauges r)) @
      concat (map (\<lambda>l. map (label_line is_print r l) (sort (map fst (lb_vals l)))) (r_labeled r))"
    by (simp only: metric_lines_def filter_append head fc fg fl) (simp add: build_line_def)
  finally show ?thesis by (simp add: concat_map_singleton)
qed

text \<open>The key an update is for, and the text before the value of a key.\<close>

fun act_key :: "mact \<Rightarrow> metric_key option" where
  "act_key (Bump name help n) = Some (Inl name)"
| "act_key (BumpLabel i label n) = Some (Inr (i, label))"
| "act_key _ = None"

fun metric_text :: "(bytes \<Rightarrow> bool) \<Rightarrow> Registry \<Rightarrow> metric_key \<Rightarrow> bytes" where
  "metric_text is_print r (Inl name) = name @ '' ''"
| "metric_text is_print r (Inr (i, label)) = lb_name (r_labeled r ! i) @ ''{label='' @ Quote is_print label @ ''} ''"

definition registry_with :: "bytes \<Rightarrow> (bytes \<times> bytes) list \<Rightarrow> Registry" where
  "registry_with version fams = fold (\<lambda>(n, h) r. snd (reg_Labeled n h r)) fams (metrics_New version)"

lemma registry_with_inv: "reg_inv (length fams) (registry_with version fams) \<and> metric_value (registry_with version fams) k = 0"
proof (induction fams rule: rev_induct)
  case Nil
  have "cell_of (metrics_New version) k = None" for k by (cases "(metrics_New version, k)" rule: cell_of.cases) (auto simp: metrics_New_def)
  then show ?case by (simp add: registry_with_def reg_inv_def cells_ok_def metric_value_def)
next
  case (snoc x xs)
  let ?r = "registry_with version xs"
  have r: "registry_with version (xs @ [x]) = snd (reg_Labeled (fst x) (snd x) ?r)" by (simp add: registry_with_def split: prod.splits)
  have "r_cells (snd (reg_Labeled (fst x) (snd x) ?r)) = r_cells ?r" "length (r_labeled (snd (reg_Labeled (fst x) (snd x) ?r))) = Suc (length (r_labeled ?r))"
    by (simp_all add: reg_Labeled_def)
  then show ?case using snoc unfolding r by (auto simp: reg_inv_def cells_ok_def metric_value_def family_cells split: option.splits)
qed

lemma acquired_cell: "acquires r k x \<Longrightarrow> cell_of r k' \<noteq> None \<or> Some k = Some k' \<Longrightarrow> cell_of (Counter_Add (fst x) n (snd x)) k' \<noteq> None"
  by (cases x) (auto simp: acquires_def)

lemma step_cells:
  assumes "reg_inv m r" "act_ok m a" "cell_of r k \<noteq> None \<or> act_key a = Some k"
  shows "cell_of (metric_step a r) k \<noteq> None"
proof (cases a)
  case (Bump name doc n)
  then show ?thesis
    using acquired_cell [OF acquires_Counter [of r name doc]] assms(3) by (simp only: metric_step.simps act_key.simps case_prod_beta not_False_eq_True)
next
  case (SetGauge name doc v)
  then show ?thesis using gauge_step [of name doc v r] assms(3) by (auto simp: gauge_cells)
next
  case (Family name doc)
  then show ?thesis using assms(3) by (simp add: family_cells)
next
  case (BumpLabel i label n)
  then have "i < length (r_labeled r)" using assms(1,2) by (simp add: reg_inv_def)
  then show ?thesis
    using BumpLabel acquired_cell [OF acquires_With [of i r label]] assms(3) by (simp only: metric_step.simps act_key.simps case_prod_beta not_False_eq_True)
qed

lemma run_cells:
  "reg_inv m r \<Longrightarrow> list_all (act_ok m) acts \<Longrightarrow> cell_of r k \<noteq> None \<or> (\<exists>a \<in> set acts. act_key a = Some k) \<Longrightarrow>
     cell_of (fold metric_step acts r) k \<noteq> None"
proof (induction acts arbitrary: r)
  case (Cons a acts)
  then have ok: "act_ok m a" "list_all (act_ok m) acts" by simp_all
  have "cell_of (metric_step a r) k \<noteq> None \<or> (\<exists>a \<in> set acts. act_key a = Some k)"
    using step_cells [OF Cons.prems(1) ok(1)] Cons.prems(3) by auto
  then have "cell_of (fold metric_step acts (metric_step a r)) k \<noteq> None"
    by (rule Cons.IH [OF metrics.act_inv [OF Cons.prems(1) ok(1)] ok(2)])
  then show ?case by simp
qed simp

lemma cell_shown:
  assumes "cell_of r k = Some c" "text_ok gov r"
  shows "metric_text is_print r k @ format_uint (unat (r_cells r ! c)) \<in> set (sample_lines (serveMetrics is_print uptime gov r))"
proof (cases "(r, k)" rule: cell_of.cases)
  case (1 r' name)
  then obtain h where "(name, h, c) \<in> set (r_counters r)" using assms(1) by (auto dest!: map_of_SomeD)
  then have "counter_sample r (name, h, c) \<in> set (map (counter_sample r) (r_counters r))" by auto
  then show ?thesis using 1 unfolding metric_samples [OF assms(2)] by (simp add: counter_sample_def)
next
  case (2 r' i label)
  then have l: "r_labeled r ! i \<in> set (r_labeled r)" "map_of (lb_vals (r_labeled r ! i)) label = Some c" using assms(1) by (auto split: if_splits)
  then have "label \<in> set (sort (map fst (lb_vals (r_labeled r ! i))))" by (force dest: map_of_SomeD)
  then have "label_line is_print r (r_labeled r ! i) label \<in>
      set (concat (map (\<lambda>l. map (label_line is_print r l) (sort (map fst (lb_vals l)))) (r_labeled r)))" using l(1) by auto
  then have "label_line is_print r (r_labeled r ! i) label \<in> set (sample_lines (serveMetrics is_print uptime gov r))"
    unfolding metric_samples [OF assms(2)] set_append by blast
  then show ?thesis using 2 l(2) by (simp add: label_line_def)
qed

text \<open>
  A scrape shows the totals: after any updates of counters and labels, through whatever handles, the
  endpoint has a sample line for every metric that was updated, and its value is the sum of the
  amounts added to that metric and to no other, modulo \<open>2^64\<close>.
\<close>
theorem scrape_shows_totals:
  assumes "list_all (act_ok (length fams)) acts" "r = fold metric_step acts (registry_with version fams)" "text_ok gov r"
    and "a \<in> set acts" "act_key a = Some k"
  shows "metric_text is_print r k @ format_uint (unat (\<Sum>a\<leftarrow>acts. act_amount a k))
    \<in> set (sample_lines (serveMetrics is_print uptime gov r))"
proof -
  have inv: "reg_inv (length fams) (registry_with version fams)" "metric_value (registry_with version fams) k = 0"
    using registry_with_inv by auto
  obtain c where c: "cell_of r k = Some c" using run_cells [OF inv(1) assms(1)] assms(2,4,5) by blast
  have "metric_value r k = (\<Sum>a\<leftarrow>acts. act_amount a k)"
    using metrics.run_totals [OF inv(1) assms(1), of k] inv(2) assms(2) by simp
  then show ?thesis using cell_shown [OF c assms(3), of is_print uptime] c by (simp add: metric_value_def)
qed

definition demo_acts_m :: "mact list" where
  "demo_acts_m = [Bump ''a_total'' ''as'' 2, BumpLabel 0 ''x'' 5, SetGauge ''g'' ''gs'' 7, Bump ''a_total'' ''as'' 3]"

lemma demo_metrics_text: "text_ok ''go1'' (fold metric_step demo_acts_m (registry_with ''v1'' [(''l_total'', ''ls'')]))"
  by code_simp

theorem scrape_shows_totals_witness:
  "''a_total 5'' \<in> set (sample_lines (serveMetrics (\<lambda>_. True) 9 ''go1'' (fold metric_step demo_acts_m (registry_with ''v1'' [(''l_total'', ''ls'')]))))"
proof -
  have "format_uint 5 = ''5''" by code_simp
  then show ?thesis
    using scrape_shows_totals [of "[(''l_total'', ''ls'')]" demo_acts_m _ "''v1''", OF _ refl demo_metrics_text,
        of "Bump ''a_total'' ''as'' 2" "Inl ''a_total''" "\<lambda>_. True" 9]
    by (simp add: demo_acts_m_def)
qed

end
