(* ===== verification/SqlMapping.thy ===== *)
theory SqlMapping
  imports Envelope GoStd "HOL-Library.AList" "HOL-Library.Multiset"
begin

text \<open>
  The mapping of events to rows (\<^verbatim>\<open>internal/sqlsink/mapping.go\<close>): rules, their compiled key patterns,
  key extraction and the row of an event. A Go map is an association list with distinct keys; the
  code only reads it by key or through its sorted keys. The JSON decoder of Go's library is a
  parameter: \<open>obj\<close> splits an object into its raw members, \<open>str\<close> decodes a JSON string.
\<close>

section \<open>Rules\<close>

record patternSeg =
  seg_lit :: bytes
  seg_field :: bytes

type_synonym strmap = "(bytes \<times> bytes) list"

record RuleConfig =
  DataTypes :: "bytes list"
  KeyGlob :: bytes
  Table :: bytes
  PrimaryKey :: "bytes list"
  KeyColumns :: "bytes list"
  FieldColumns :: strmap
  ValueColumn :: bytes
  ValueJSON :: bool
  JSONColumns :: "bytes list"
  DeleteMode :: bytes
  patternParts :: "patternSeg list"

datatype map_error = ETableOrPk | EUnbalanced | EEmptyCapture | EAdjacentCaptures | ErrNoMatch
  | EFillPk bytes bytes | EValueNotJSON

definition Lit :: "bytes \<Rightarrow> patternSeg" where
  "Lit l = \<lparr>seg_lit = l, seg_field = []\<rparr>"

definition Cap :: "bytes \<Rightarrow> patternSeg" where
  "Cap f = \<lparr>seg_lit = [], seg_field = f\<rparr>"

definition add_lit :: "bytes \<Rightarrow> patternSeg list \<Rightarrow> patternSeg list" where
  "add_lit cur segs = (if cur = [] then segs else segs @ [Lit cur])"

text \<open>The scan of \<open>compileKey\<close> over the rest of the pattern, with the literal collected so far.\<close>

function compile_loop :: "bytes \<Rightarrow> bytes \<Rightarrow> patternSeg list \<Rightarrow> map_error + patternSeg list" where
  "compile_loop [] cur segs = Inr (add_lit cur segs)"
| "compile_loop (c # rest) cur segs =
     (if c = CHR ''{'' then
        let name = takeWhile (\<lambda>x. x \<noteq> CHR ''}'') rest
        in if CHR ''}'' \<notin> set rest then Inl EUnbalanced
           else if name = [] then Inl EEmptyCapture
           else compile_loop (drop (Suc (length name)) rest) [] (add_lit cur segs @ [Cap name])
      else compile_loop rest (cur @ [c]) segs)"
  by pat_completeness auto
termination
  by (relation "measure (\<lambda>(p, cur, segs). length p)") auto

fun adjacent_caps :: "patternSeg list \<Rightarrow> bool" where
  "adjacent_caps (a # b # rest) = ((seg_field a \<noteq> [] \<and> seg_field b \<noteq> []) \<or> adjacent_caps (b # rest))"
| "adjacent_caps _ = False"

definition compileKey :: "bytes \<Rightarrow> RuleConfig \<Rightarrow> map_error + RuleConfig" where
  "compileKey pat r =
     (case compile_loop pat [] [] of
        Inl e \<Rightarrow> Inl e
      | Inr segs \<Rightarrow>
          if adjacent_caps segs then Inl EAdjacentCaptures
          else Inr (r\<lparr>patternParts := segs,
                      KeyColumns := KeyColumns r @ map seg_field (filter (\<lambda>s. seg_field s \<noteq> []) segs)\<rparr>))"

definition Compile :: "RuleConfig \<Rightarrow> map_error + RuleConfig" where
  "Compile r =
     (if Table r = [] \<or> PrimaryKey r = [] then Inl ETableOrPk
      else let r1 = (if DataTypes r = [] then r\<lparr>DataTypes := [''hash'', ''string'']\<rparr> else r);
               r2 = (if DeleteMode r1 = [] then r1\<lparr>DeleteMode := ''row''\<rparr> else r1)
           in if KeyGlob r2 \<noteq> [] then compileKey (KeyGlob r2) r2 else Inr r2)"

section \<open>Keys\<close>

fun extract_loop :: "patternSeg list \<Rightarrow> bytes \<Rightarrow> strmap \<Rightarrow> strmap option" where
  "extract_loop [] s out = (if s \<noteq> [] then None else Some out)"
| "extract_loop (p # parts) s out =
     (if seg_lit p \<noteq> [] then
        if \<not> has_prefix s (seg_lit p) then None
        else extract_loop parts (drop (length (seg_lit p)) s) out
      else case parts of
             [] \<Rightarrow> extract_loop parts [] (AList.update (seg_field p) s out)
           | nx # _ \<Rightarrow>
               if seg_lit nx = [] then None
               else case str_index s (seg_lit nx) of
                      None \<Rightarrow> None
                    | Some idx \<Rightarrow> extract_loop parts (drop idx s) (AList.update (seg_field p) (take idx s) out))"

definition extractKey :: "RuleConfig \<Rightarrow> bytes \<Rightarrow> strmap option" where
  "extractKey r key = (if patternParts r = [] then Some [] else extract_loop (patternParts r) key [])"

section \<open>Rows\<close>

record Row =
  row_Table :: bytes
  row_PK :: strmap
  row_Cols :: strmap
  row_Del :: bool
  row_Source :: Source

function sift :: "nat \<Rightarrow> ('a :: linorder) list \<Rightarrow> 'a list" where
  "sift j s = (if j > 0 \<and> s ! j < s ! (j - 1) then sift (j - 1) (s[j := s ! (j - 1), j - 1 := s ! j]) else s)"
  by pat_completeness auto
termination
  by (relation "measure fst") auto

declare sift.simps [simp del]

definition sortStrings :: "('a :: linorder) list \<Rightarrow> 'a list" where
  "sortStrings s = fold sift [1..<length s] s"

definition PKValues :: "Row \<Rightarrow> bytes list \<Rightarrow> bytes list" where
  "PKValues r order = map (\<lambda>c. case map_of (row_PK r) c of None \<Rightarrow> [] | Some v \<Rightarrow> v) order"

definition ColNames :: "Row \<Rightarrow> bytes list" where
  "ColNames r = sortStrings (map fst (row_Cols r))"

definition colAllowed :: "bytes list \<Rightarrow> bytes \<Rightarrow> bool" where
  "colAllowed lst name \<longleftrightarrow> lst = [] \<or> name \<in> set lst"

definition typeMatches :: "RuleConfig \<Rightarrow> bytes \<Rightarrow> bool" where
  "typeMatches r typ \<longleftrightarrow> typ \<in> set (DataTypes r)"

text \<open>The field/value pairs of a hash command: \<^verbatim>\<open>args[2:]\<close> two by two, an odd rest ignored.\<close>

fun arg_pairs :: "bytes list \<Rightarrow> strmap" where
  "arg_pairs (f # v # rest) = (f, v) # arg_pairs rest"
| "arg_pairs _ = []"

definition hashField :: "Event \<Rightarrow> bytes \<Rightarrow> bytes option" where
  "hashField ev field = (if EvType ev \<noteq> ''hash'' then None else map_of (arg_pairs (drop 2 (EvArgs ev))) field)"

fun fill_pk :: "RuleConfig \<Rightarrow> Event \<Rightarrow> strmap \<Rightarrow> bytes list \<Rightarrow> strmap \<Rightarrow> map_error + strmap" where
  "fill_pk r ev cap [] pk = Inr pk"
| "fill_pk r ev cap (c # cs) pk =
     (case (case map_of cap c of Some v \<Rightarrow> Some v | None \<Rightarrow> hashField ev c) of
        None \<Rightarrow> Inl (EFillPk c (EvKey ev))
      | Some v \<Rightarrow> fill_pk r ev cap cs (AList.update c v pk))"

definition hash_cols :: "RuleConfig \<Rightarrow> Event \<Rightarrow> strmap" where
  "hash_cols r ev =
     (let pairs = fold (\<lambda>(f, v) cols.
                     case map_of (FieldColumns r) f of
                       Some col \<Rightarrow> AList.update col v cols
                     | None \<Rightarrow> if FieldColumns r = [] then AList.update f v cols else cols)
                   (arg_pairs (drop 2 (EvArgs ev))) []
      in if EvCommand ev = ''HDEL''
         then fold (\<lambda>f cols. case map_of (FieldColumns r) f of Some col \<Rightarrow> AList.update col [] cols | None \<Rightarrow> cols)
                (drop 2 (EvArgs ev)) pairs
         else pairs)"

definition json_cols :: "(bytes \<Rightarrow> bytes option) \<Rightarrow> RuleConfig \<Rightarrow> strmap \<Rightarrow> strmap" where
  "json_cols str r m =
     fold (\<lambda>(k, rawv) cols.
        if \<not> colAllowed (JSONColumns r) k then cols
        else AList.update k (case str rawv of None \<Rightarrow> rawv | Some s \<Rightarrow> s) cols) m []"

definition json_pk :: "RuleConfig \<Rightarrow> Row \<Rightarrow> Row" where
  "json_pk r row =
     fold (\<lambda>c row.
        if (case map_of (row_PK row) c of Some v \<Rightarrow> v \<noteq> [] | None \<Rightarrow> False) then row
        else case map_of (row_Cols row) c of
               Some v \<Rightarrow> row\<lparr>row_PK := AList.update c v (row_PK row), row_Cols := AList.delete c (row_Cols row)\<rparr>
             | None \<Rightarrow> row) (PrimaryKey r) row"

text \<open>What one rule makes of an event: \<open>RNext\<close> continues with the next rule.\<close>

datatype rule_result = RNext | RErr map_error | RRow Row

definition rule_row :: "(bytes \<Rightarrow> strmap option) \<Rightarrow> (bytes \<Rightarrow> bytes option) \<Rightarrow> RuleConfig \<Rightarrow> Event \<Rightarrow> rule_result" where
  "rule_row obj str r ev =
     (let isDelete = (EvOp ev = OpDelete)
      in if \<not> typeMatches r (EvType ev) \<and> \<not> isDelete then RNext
         else case extractKey r (EvKey ev) of
                None \<Rightarrow> RNext
              | Some cap \<Rightarrow>
                  (case fill_pk r ev cap (PrimaryKey r) [] of
                     Inl e \<Rightarrow> RErr e
                   | Inr pk \<Rightarrow>
                       let row = \<lparr>row_Table = Table r, row_PK = pk, row_Cols = [], row_Del = False, row_Source = EvSource ev\<rparr>
                       in if isDelete then
                            if DeleteMode r = ''ignore'' then RErr ErrNoMatch else RRow (row\<lparr>row_Del := True\<rparr>)
                          else if EvType ev = ''hash'' then
                            let cols = hash_cols r ev
                            in if cols = [] then RErr ErrNoMatch else RRow (row\<lparr>row_Cols := cols\<rparr>)
                          else if EvType ev = ''string'' then
                            if EvCommand ev = ''DEL'' then RNext
                            else if length (EvArgs ev) < 3 then RErr ErrNoMatch
                            else if ValueJSON r then
                              (case obj (EvArgs ev ! 2) of
                                 None \<Rightarrow> RErr EValueNotJSON
                               | Some m \<Rightarrow> RRow (json_pk r (row\<lparr>row_Cols := json_cols str r m\<rparr>)))
                            else RRow (row\<lparr>row_Cols := [(if ValueColumn r = [] then ''value'' else ValueColumn r, EvArgs ev ! 2)]\<rparr>)
                          else RNext))"

fun RowForEvent :: "(bytes \<Rightarrow> strmap option) \<Rightarrow> (bytes \<Rightarrow> bytes option) \<Rightarrow> RuleConfig list \<Rightarrow> Event \<Rightarrow> map_error + Row" where
  "RowForEvent obj str [] ev = Inl ErrNoMatch"
| "RowForEvent obj str (r # rs) ev =
     (case rule_row obj str r ev of RNext \<Rightarrow> RowForEvent obj str rs ev | RErr e \<Rightarrow> Inl e | RRow row \<Rightarrow> Inr row)"


section \<open>Key patterns\<close>

text \<open>The pattern text of a segment, the segments a pattern can compile to, and a key with given captures.\<close>

definition seg_text :: "patternSeg \<Rightarrow> bytes" where
  "seg_text p = (if seg_lit p \<noteq> [] then seg_lit p else ''{'' @ seg_field p @ ''}'')"

definition valid_seg :: "patternSeg \<Rightarrow> bool" where
  "valid_seg p \<longleftrightarrow> (seg_lit p \<noteq> [] \<and> seg_field p = [] \<and> CHR ''{'' \<notin> set (seg_lit p)) \<or>
     (seg_lit p = [] \<and> seg_field p \<noteq> [] \<and> CHR ''}'' \<notin> set (seg_field p))"

fun lits_apart :: "patternSeg list \<Rightarrow> bool" where
  "lits_apart (a # b # rest) \<longleftrightarrow> (seg_lit a = [] \<or> seg_lit b = []) \<and> lits_apart (b # rest)"
| "lits_apart _ \<longleftrightarrow> True"

definition pattern_text :: "patternSeg list \<Rightarrow> bytes" where
  "pattern_text segs = concat (map seg_text segs)"

definition captures :: "patternSeg list \<Rightarrow> bytes list" where
  "captures segs = map seg_field (filter (\<lambda>s. seg_field s \<noteq> []) segs)"

definition render :: "(bytes \<Rightarrow> bytes) \<Rightarrow> patternSeg list \<Rightarrow> bytes" where
  "render vals segs = concat (map (\<lambda>p. if seg_lit p \<noteq> [] then seg_lit p else vals (seg_field p)) segs)"

lemma pattern_text_simps [simp]:
  "pattern_text [] = []" "pattern_text (p # segs) = seg_text p @ pattern_text segs"
  "pattern_text (xs @ ys) = pattern_text xs @ pattern_text ys"
  by (simp_all add: pattern_text_def)

lemma captures_simps [simp]:
  "captures [] = []" "captures (p # segs) = (if seg_field p = [] then captures segs else seg_field p # captures segs)"
  by (simp_all add: captures_def)

lemma render_simps [simp]:
  "render vals [] = []"
  "render vals (p # segs) = (if seg_lit p \<noteq> [] then seg_lit p else vals (seg_field p)) @ render vals segs"
  by (simp_all add: render_def)

lemma seg_simps [simp]:
  "seg_lit (Lit l) = l" "seg_field (Lit l) = []" "seg_lit (Cap f) = []" "seg_field (Cap f) = f"
  by (simp_all add: Lit_def Cap_def)

lemma lit_cases:
  assumes "valid_seg p"
  obtains l where "p = Lit l" "l \<noteq> []" "CHR ''{'' \<notin> set l" | f where "p = Cap f" "f \<noteq> []" "CHR ''}'' \<notin> set f"
  using assms unfolding valid_seg_def Lit_def Cap_def by (cases p) auto

lemma valid_simps [simp]:
  "valid_seg (Lit l) \<longleftrightarrow> l \<noteq> [] \<and> CHR ''{'' \<notin> set l" "valid_seg (Cap f) \<longleftrightarrow> f \<noteq> [] \<and> CHR ''}'' \<notin> set f"
  by (auto simp: valid_seg_def)

lemma split_at_close:
  assumes "CHR ''}'' \<in> set rest"
  shows "takeWhile (\<lambda>x. x \<noteq> CHR ''}'') rest @ CHR ''}'' # drop (Suc (length (takeWhile (\<lambda>x. x \<noteq> CHR ''}'') rest))) rest = rest"
proof -
  let ?n = "takeWhile (\<lambda>x. x \<noteq> CHR ''}'') rest"
  have "dropWhile (\<lambda>x. x \<noteq> CHR ''}'') rest \<noteq> []" using assms by (auto simp: dropWhile_eq_Nil_conv)
  then obtain c tl where d: "dropWhile (\<lambda>x. x \<noteq> CHR ''}'') rest = c # tl" by (meson list.exhaust)
  moreover have "c = CHR ''}''" using d hd_dropWhile [of "\<lambda>x. x \<noteq> CHR ''}''" rest] by auto
  ultimately have "rest = ?n @ CHR ''}'' # tl" using takeWhile_dropWhile_id [of "\<lambda>x. x \<noteq> CHR ''}''" rest] by simp
  then show ?thesis by (metis append_eq_conv_conj drop_Suc_Cons length_append_singleton append.assoc append_Cons append_Nil)
qed

lemma compile_loop_sound:
  assumes "compile_loop p cur segs = Inr out" "CHR ''{'' \<notin> set cur"
  shows "\<exists>rest. out = segs @ rest \<and> pattern_text rest = cur @ p \<and> list_all valid_seg rest \<and> lits_apart rest"
  using assms
proof (induction p cur segs rule: compile_loop.induct)
  case (1 cur segs)
  then show ?case by (intro exI [of _ "if cur = [] then [] else [Lit cur]"]) (auto simp: add_lit_def seg_text_def)
next
  case (2 c rest cur segs)
  let ?name = "takeWhile (\<lambda>x. x \<noteq> CHR ''}'') rest"
  show ?case
  proof (cases "c = CHR ''{''")
    case True
    with 2(3) have close: "CHR ''}'' \<in> set rest" and ne: "?name \<noteq> []"
      and go: "compile_loop (drop (Suc (length ?name)) rest) [] (add_lit cur segs @ [Cap ?name]) = Inr out"
      by (auto simp: Let_def split: if_splits)
    obtain r where r: "out = (add_lit cur segs @ [Cap ?name]) @ r" "pattern_text r = drop (Suc (length ?name)) rest"
      "list_all valid_seg r" "lits_apart r"
      using 2(1) [OF True refl _ ne go] close by auto
    have "CHR ''}'' \<notin> set ?name" using set_takeWhileD by fastforce
    moreover have "lits_apart (Cap ?name # r)" using r(4) by (cases r) auto
    ultimately show ?thesis
      using r ne True 2(4) split_at_close [OF close]
      by (intro exI [of _ "(if cur = [] then [] else [Lit cur]) @ Cap ?name # r"]) (auto simp: add_lit_def seg_text_def)
  next
    case False
    then show ?thesis using 2(2) 2(3,4) by auto
  qed
qed

lemma compile_loop_lit: "CHR ''{'' \<notin> set l \<Longrightarrow> compile_loop (l @ p) cur segs = compile_loop p (cur @ l) segs"
  by (induction l arbitrary: cur) auto

lemma compile_loop_complete:
  assumes "list_all valid_seg segs" "lits_apart segs" "cur = [] \<or> (\<forall>p rest. segs = p # rest \<longrightarrow> seg_lit p = [])"
  shows "compile_loop (pattern_text segs) cur acc = Inr (add_lit cur acc @ segs)"
  using assms
proof (induction segs arbitrary: cur acc)
  case (Cons p rest)
  have "valid_seg p" using Cons.prems by simp
  then show ?case
  proof (cases rule: lit_cases)
    case (1 l)
    then have "lits_apart rest \<and> (\<forall>p' rest'. rest = p' # rest' \<longrightarrow> seg_lit p' = [])"
      using Cons.prems(2) by (cases rest) auto
    then show ?thesis using 1 Cons.prems Cons.IH [of l acc]
      by (auto simp: seg_text_def compile_loop_lit add_lit_def)
  next
    case (2 f)
    have "lits_apart rest" using Cons.prems(2) by (cases rest) auto
    moreover have "takeWhile (\<lambda>x. x \<noteq> CHR ''}'') (f @ CHR ''}'' # pattern_text rest) = f"
      using 2(3) by (subst takeWhile_append2) auto
    ultimately show ?thesis
      using 2 Cons.prems Cons.IH [of "[]" "add_lit cur acc @ [Cap f]"] by (auto simp: seg_text_def Let_def add_lit_def)
  qed
qed (simp add: add_lit_def)

lemma compileKey_segs:
  "(\<exists>r'. compileKey pat r = Inr r' \<and> patternParts r' = segs) \<longleftrightarrow> compile_loop pat [] [] = Inr segs \<and> \<not> adjacent_caps segs"
  by (auto simp: compileKey_def split: sum.splits if_splits)

lemma compileKeyD:
  assumes "compileKey pat r = Inr r'"
  shows "pattern_text (patternParts r') = pat" "list_all valid_seg (patternParts r')" "lits_apart (patternParts r')"
    "\<not> adjacent_caps (patternParts r')"
  using assms compile_loop_sound [of pat "[]" "[]" "patternParts r'"]
  by (auto simp: compileKey_def split: sum.splits if_splits)

text \<open>
  A key pattern compiles to a list of segments exactly when the list is the one way to read it:
  non-empty literals and non-empty captures in strict alternation whose text is the pattern.
\<close>
theorem compileKey_iff:
  "(\<exists>r'. compileKey pat r = Inr r' \<and> patternParts r' = segs) \<longleftrightarrow>
     pattern_text segs = pat \<and> list_all valid_seg segs \<and> lits_apart segs \<and> \<not> adjacent_caps segs"
proof
  assume "\<exists>r'. compileKey pat r = Inr r' \<and> patternParts r' = segs"
  then show "pattern_text segs = pat \<and> list_all valid_seg segs \<and> lits_apart segs \<and> \<not> adjacent_caps segs"
    using compileKeyD by blast
next
  assume a: "pattern_text segs = pat \<and> list_all valid_seg segs \<and> lits_apart segs \<and> \<not> adjacent_caps segs"
  then have "compile_loop pat [] [] = Inr segs"
    using compile_loop_complete [of segs "[]" "[]"] by (auto simp: add_lit_def)
  then show "\<exists>r'. compileKey pat r = Inr r' \<and> patternParts r' = segs" using a by (simp add: compileKey_segs)
qed

section \<open>Key extraction\<close>

abbreviation cap_val :: "strmap \<Rightarrow> bytes \<Rightarrow> bytes" where
  "cap_val m f \<equiv> (case map_of m f of None \<Rightarrow> [] | Some v \<Rightarrow> v)"

lemma extract_loop_sound:
  assumes "extract_loop parts s out = Some m" "list_all valid_seg parts" "distinct (captures parts)"
  shows "render (cap_val m) parts = s \<and> (\<forall>f. f \<notin> set (captures parts) \<longrightarrow> map_of m f = map_of out f) \<and>
    set (captures parts) \<subseteq> dom (map_of m)"
  using assms
proof (induction parts s out rule: extract_loop.induct)
  case (2 p parts s out)
  have "valid_seg p" using "2.prems" by simp
  then show ?case
  proof (cases rule: lit_cases)
    case (1 l)
    then have "has_prefix s l" "extract_loop parts (drop (length l) s) out = Some m"
      using "2.prems" by (auto split: if_splits)
    then show ?thesis using 1 "2.IH"(1) "2.prems" by (auto dest: has_prefixD)
  next
    case (2 f)
    show ?thesis
    proof (cases parts)
      case Nil
      then show ?thesis using 2 "2.prems" by auto
    next
      case (Cons nx rest)
      then obtain idx where idx: "seg_lit nx \<noteq> []" "str_index s (seg_lit nx) = Some idx"
        "extract_loop parts (drop idx s) (AList.update f (take idx s) out) = Some m"
        using 2 "2.prems" by (auto split: if_splits option.splits)
      have f: "f \<notin> set (captures parts)" using 2 "2.prems" by simp
      have "render (cap_val m) parts = drop idx s \<and>
         (\<forall>g. g \<notin> set (captures parts) \<longrightarrow> map_of m g = map_of (AList.update f (take idx s) out) g) \<and>
         set (captures parts) \<subseteq> dom (map_of m)"
        using "2.IH"(3) [OF _ Cons _ idx(2)] idx 2 "2.prems" by simp
      then show ?thesis using 2 f by auto
    qed
  qed
qed (auto split: if_splits)

lemma extractKey_sound:
  assumes "extractKey r key = Some m" "patternParts r \<noteq> []" "list_all valid_seg (patternParts r)" "distinct (captures (patternParts r))"
  shows "render (cap_val m) (patternParts r) = key \<and> set (captures (patternParts r)) \<subseteq> dom (map_of m)"
  using assms extract_loop_sound [of "patternParts r" key "[]" m] by (auto simp: extractKey_def)

text \<open>No captured value contains the first byte of the literal that ends it.\<close>

fun delimited :: "(bytes \<Rightarrow> bytes) \<Rightarrow> patternSeg list \<Rightarrow> bool" where
  "delimited vals (a # b # rest) \<longleftrightarrow>
     (seg_lit a \<noteq> [] \<or> seg_lit b = [] \<or> hd (seg_lit b) \<notin> set (vals (seg_field a))) \<and> delimited vals (b # rest)"
| "delimited vals _ \<longleftrightarrow> True"

lemma str_index_delimited:
  "l \<noteq> [] \<Longrightarrow> hd l \<notin> set v \<Longrightarrow> str_index (v @ l @ rest) l = Some (length v)"
proof (induction v)
  case Nil
  then show ?case by (cases l) (simp_all add: has_prefix_def)
next
  case (Cons c v)
  then have "\<not> has_prefix (c # v @ l @ rest) l" by (cases l) (auto simp: has_prefix_def)
  then show ?case using Cons by simp
qed

lemma extract_loop_complete:
  assumes "list_all valid_seg parts" "\<not> adjacent_caps parts" "delimited vals parts" "distinct (captures parts)"
  shows "\<exists>m. extract_loop parts (render vals parts) out = Some m \<and>
    (\<forall>f. map_of m f = (if f \<in> set (captures parts) then Some (vals f) else map_of out f))"
  using assms
proof (induction parts arbitrary: out)
  case (Cons p parts)
  have rest: "\<not> adjacent_caps parts" "delimited vals parts"
    using Cons.prems by (cases parts; simp)+
  have "valid_seg p" using Cons.prems by simp
  then show ?case
  proof (cases rule: lit_cases)
    case (1 l)
    then show ?thesis using Cons.IH [of out] Cons.prems rest by simp
  next
    case (2 f)
    then have f: "f \<notin> set (captures parts)" using Cons.prems by simp
    show ?thesis
    proof (cases parts)
      case Nil
      then show ?thesis using 2 by auto
    next
      case (Cons nx rest')
      have "seg_lit nx \<noteq> []"
        using Cons 2 Cons.prems(1,2) by (auto simp: valid_seg_def)
      moreover from this have "str_index (vals f @ render vals parts) (seg_lit nx) = Some (length (vals f))"
        using str_index_delimited [of "seg_lit nx" "vals f"] Cons 2 Cons.prems(3) by simp
      moreover obtain m where "extract_loop parts (render vals parts) (AList.update f (vals f) out) = Some m"
        "\<forall>g. map_of m g = (if g \<in> set (captures parts) then Some (vals g) else map_of (AList.update f (vals f) out) g)"
        using Cons.IH [of "AList.update f (vals f) out"] Cons.prems rest 2 by auto
      ultimately show ?thesis using Cons 2 f by auto
    qed
  qed
qed simp



section \<open>Sorting\<close>

lemma insort_snoc: "y < x \<Longrightarrow> insort y (xs @ [x]) = insort y xs @ [x]" for y :: "'a :: linorder"
  by (induction xs) auto

lemma sift_insort:
  "sorted xs \<Longrightarrow> sift (length xs) (xs @ y # zs) = insort y xs @ zs" for y :: "'a :: linorder"
proof (induction xs arbitrary: zs rule: rev_induct)
  case Nil
  then show ?case by (simp add: sift.simps)
next
  case (snoc x xs)
  have at: "(xs @ [x]) @ y # zs = xs @ x # y # zs" by simp
  show ?case
  proof (cases "y < x")
    case True
    have "sift (length (xs @ [x])) ((xs @ [x]) @ y # zs) = sift (length xs) (xs @ y # x # zs)"
      using True by (subst sift.simps) (simp add: nth_append list_update_append)
    then show ?thesis using snoc True by (simp add: insort_snoc sorted_append)
  next
    case False
    then have "insort y (xs @ [x]) = (xs @ [x]) @ [y]"
      using snoc.prems by (intro sorted_insort_is_snoc) (auto simp: sorted_append)
    then show ?thesis using False by (subst sift.simps) (simp add: nth_append)
  qed
qed

lemma sort_snoc: "sort (xs @ [y]) = insort y (sort xs)" for y :: "'a :: linorder"
  by (intro properties_for_sort) (simp_all add: sorted_insort)

lemma sortStrings_sort: "sortStrings s = sort s" for s :: "('a :: linorder) list"
proof -
  have "fold sift [1..<Suc n] s = sort (take (Suc n) s) @ drop (Suc n) s" if "Suc n \<le> length s" for n
    using that
  proof (induction n)
    case 0
    then show ?case by (cases s) auto
  next
    case (Suc n)
    have d: "drop (Suc n) s = s ! Suc n # drop (Suc (Suc n)) s" using Suc.prems by (simp add: Cons_nth_drop_Suc)
    have l: "length (sort (take (Suc n) s)) = Suc n" using Suc.prems by simp
    have "fold sift [1..<Suc (Suc n)] s = sift (Suc n) (fold sift [1..<Suc n] s)" by simp
    also have "\<dots> = sift (length (sort (take (Suc n) s))) (sort (take (Suc n) s) @ s ! Suc n # drop (Suc (Suc n)) s)"
      using Suc d l by simp
    also have "\<dots> = insort (s ! Suc n) (sort (take (Suc n) s)) @ drop (Suc (Suc n)) s"
      by (simp add: sift_insort del: length_sort)
    also have "\<dots> = sort (take (Suc (Suc n)) s) @ drop (Suc (Suc n)) s"
      using Suc.prems by (simp add: take_Suc_conv_app_nth [of "Suc n"] sort_snoc)
    finally show ?case .
  qed
  from this [of "length s - 1"] show ?thesis by (cases s) (simp_all add: sortStrings_def)
qed

text \<open>The hand-written insertion sort that fixes the order of columns is the library's sort.\<close>
theorem sortStrings_is_sort: "sortStrings s = sort s" for s :: "bytes list"
  by (rule sortStrings_sort)

section \<open>Rows\<close>

lemma fill_pk_dom:
  assumes "fill_pk r ev cap cs pk = Inr pk'"
  shows "dom (map_of pk') = dom (map_of pk) \<union> set cs \<and>
    (\<forall>c \<in> set cs. \<forall>v. map_of cap c = Some v \<longrightarrow> map_of pk' c = Some v) \<and>
    (\<forall>c. c \<notin> set cs \<longrightarrow> map_of pk' c = map_of pk c)"
  using assms
proof (induction cs arbitrary: pk)
  case (Cons c cs)
  obtain v where v: "(case map_of cap c of Some v \<Rightarrow> Some v | None \<Rightarrow> hashField ev c) = Some v"
    "fill_pk r ev cap cs (AList.update c v pk) = Inr pk'"
    using Cons.prems by (auto split: option.splits)
  note ih = Cons.IH [OF v(2)]
  have "map_of pk' c = Some w" if "map_of cap c = Some w" for w
  proof (cases "c \<in> set cs")
    case True
    then show ?thesis using ih that by blast
  next
    case False
    then show ?thesis using ih that v(1) by simp
  qed
  moreover have "dom (map_of pk') = dom (map_of pk) \<union> set (c # cs)" using ih by auto
  ultimately show ?case using ih by auto
qed simp

lemma rule_rowD:
  assumes "rule_row obj str r ev = RRow row" "\<not> ValueJSON r"
  shows "\<exists>cap. extractKey r (EvKey ev) = Some cap \<and> fill_pk r ev cap (PrimaryKey r) [] = Inr (row_PK row)"
  using assms by (auto simp: rule_row_def Let_def split: if_splits option.splits sum.splits)

lemma render_cong: "\<forall>f \<in> set (captures ps). u f = v f \<Longrightarrow> list_all valid_seg ps \<Longrightarrow> render u ps = render v ps"
  by (induction ps) (auto simp: valid_seg_def)


text \<open>
  A delete stops a pipeline whose first rule takes its primary key from hash fields: every
  deletion of a key, of whatever entity, is matched against the rule although it carries no
  fields, and the mapping fails with an error that the sink does not treat as no match.
\<close>
theorem delete_without_pattern_fails:
  assumes "EvOp ev = OpDelete" "EvType ev \<noteq> ''hash''" "patternParts r = []" "PrimaryKey r \<noteq> []"
  shows "RowForEvent obj str (r # rs) ev = Inl (EFillPk (hd (PrimaryKey r)) (EvKey ev))"
  using assms by (cases "PrimaryKey r") (simp_all add: rule_row_def extractKey_def hashField_def Let_def)


section \<open>Witnesses\<close>

definition user_rule :: RuleConfig where
  "user_rule = \<lparr>DataTypes = [], KeyGlob = ''u:{uid}:p'', Table = ''users'', PrimaryKey = [''uid''], KeyColumns = [],
     FieldColumns = [(''name'', ''n'')], ValueColumn = [], ValueJSON = False, JSONColumns = [], DeleteMode = [], patternParts = []\<rparr>"

definition user_event :: "bytes \<Rightarrow> Event" where
  "user_event k = \<lparr>EvSchemaVersion = SchemaVersion, EvPhase = PhaseIncremental, EvOp = OpUpdate, EvDB = ''db0'', EvType = ''hash'', EvKey = k,
     EvCommand = ''HSET'', EvArgs = [''HSET'', k, ''name'', ''Ada''],
     EvSource = \<lparr>SrcID = ''s'', SrcDB = ''db0'', SrcFilenum = 1, SrcOffset = 10, Seq = 0, ExecTimeSec = 0\<rparr>\<rparr>"

definition user_compiled :: RuleConfig where
  "user_compiled = user_rule\<lparr>DataTypes := [''hash'', ''string''], DeleteMode := ''row'',
     patternParts := [Lit ''u:'', Cap ''uid'', Lit '':p''], KeyColumns := [''uid'']\<rparr>"

lemma user_compile: "compileKey ''u:{uid}:p'' (user_rule\<lparr>DataTypes := [''hash'', ''string''], DeleteMode := ''row''\<rparr>) = Inr user_compiled"
  by (simp add: compileKey_def user_rule_def user_compiled_def add_lit_def Let_def)


lemma user_row:
  "rule_row (\<lambda>_. None) (\<lambda>_. None) user_compiled (user_event ''u:42:p'') =
     RRow \<lparr>row_Table = ''users'', row_PK = [(''uid'', ''42'')], row_Cols = [(''n'', ''Ada'')], row_Del = False,
            row_Source = EvSource (user_event ''u:42:p'')\<rparr>"
  by (simp add: rule_row_def user_compiled_def user_rule_def user_event_def typeMatches_def extractKey_def has_prefix_def
      hash_cols_def Let_def)

lemma user_Compile: "Compile user_rule = Inr user_compiled"
  using user_compile by (simp add: Compile_def user_rule_def)

lemma user_row_again:
  "rule_row (\<lambda>_. None) (\<lambda>_. None) user_compiled ((user_event ''u:42:p'')\<lparr>EvCommand := ''HMSET''\<rparr>) =
     RRow \<lparr>row_Table = ''users'', row_PK = [(''uid'', ''42'')], row_Cols = [(''n'', ''Ada'')], row_Del = False,
            row_Source = EvSource (user_event ''u:42:p'')\<rparr>"
  by (simp add: rule_row_def user_compiled_def user_rule_def user_event_def typeMatches_def extractKey_def has_prefix_def
      hash_cols_def Let_def)


theorem delete_without_pattern_fails_witness:
  "RowForEvent (\<lambda>_. None) (\<lambda>_. None) [user_rule\<lparr>KeyGlob := []\<rparr>] ((user_event ''x'')\<lparr>EvOp := OpDelete, EvType := ''none''\<rparr>) =
     Inl (EFillPk ''uid'' ''x'')"
  using delete_without_pattern_fails [of "(user_event ''x'')\<lparr>EvOp := OpDelete, EvType := ''none''\<rparr>" "user_rule\<lparr>KeyGlob := []\<rparr>"]
  by (simp add: user_rule_def user_event_def)

end
