(* ===== verification/SqlSink.thy ===== *)
theory SqlSink
  imports SqlMapping
begin

text \<open>
  The SQL sink (\<^verbatim>\<open>internal/sqlsink/sink.go\<close>, \<^verbatim>\<open>dialect.go\<close>): statement texts of the two dialects, the
  coalescing of a batch, the transaction that writes it and the answers to the waiting emitters.
  The database is a parameter \<open>exec\<close>, the effect of a statement text with its arguments; where a
  property depends on it, its documented effect is a hypothesis on the rows written.
\<close>

section \<open>Dialects\<close>

datatype Dialect = pgDialect | myDialect

definition NewDialect :: "bytes \<Rightarrow> Dialect option" where
  "NewDialect driver =
     (if driver \<in> {''postgres'', ''pgx''} then Some pgDialect else if driver = ''mysql'' then Some myDialect else None)"

definition quote :: "bytes \<Rightarrow> bytes" where
  "quote ident = [CHR 0x22] @ concat (map (\<lambda>c. if c = CHR 0x22 then [CHR 0x22, CHR 0x22] else [c]) ident) @ [CHR 0x22]"

definition backtick :: "bytes \<Rightarrow> bytes" where
  "backtick ident = [CHR 0x60] @ ident @ [CHR 0x60]"

definition joinQuoted :: "bytes list \<Rightarrow> bytes" where
  "joinQuoted cols = join '', '' (map quote cols)"

definition joinBackticked :: "bytes list \<Rightarrow> bytes" where
  "joinBackticked cols = join '', '' (map backtick cols)"

fun dedupe_loop :: "bytes list \<Rightarrow> bytes list \<Rightarrow> bytes list" where
  "dedupe_loop seen [] = []"
| "dedupe_loop seen (v # vs) = (if v \<in> set seen then dedupe_loop seen vs else v # dedupe_loop (v # seen) vs)"

definition dedupe :: "bytes list \<Rightarrow> bytes list" where
  "dedupe s = dedupe_loop [] s"

definition pg_Upsert :: "bytes \<Rightarrow> bytes list \<Rightarrow> bytes list \<Rightarrow> bytes \<times> nat" where
  "pg_Upsert table pk cols0 =
     (let cols = dedupe cols0; n = length pk + length cols
      in (''INSERT INTO '' @ table @ '' ('' @ joinQuoted (pk @ cols) @ '') VALUES ('' @
            join '', '' (map (\<lambda>i. ''$'' @ format_uint (i + 1)) [0..<n]) @
          '') ON CONFLICT ('' @ joinQuoted pk @ '') DO UPDATE SET '' @
            join '', '' (map (\<lambda>c. quote c @ '' = EXCLUDED.'' @ quote c) cols), n))"

definition pg_Delete :: "bytes \<Rightarrow> bytes list \<Rightarrow> bytes \<times> nat" where
  "pg_Delete table pk =
     (''DELETE FROM '' @ table @ '' WHERE '' @
        join '' AND '' (map (\<lambda>(i, c). quote c @ '' = $'' @ format_uint (i + 1)) (enumerate 0 pk)), length pk)"

definition my_Upsert :: "bytes \<Rightarrow> bytes list \<Rightarrow> bytes list \<Rightarrow> bytes \<times> nat" where
  "my_Upsert table pk cols0 =
     (let cols = dedupe cols0; n = length pk + length cols
      in (''INSERT INTO '' @ table @ '' ('' @ joinBackticked (pk @ cols) @ '') VALUES ('' @
            join '', '' (replicate n ''?'') @ '') ON DUPLICATE KEY UPDATE '' @
            join '', '' (map (\<lambda>c. backtick c @ '' = VALUES('' @ backtick c @ '')'') cols), n))"

definition my_Delete :: "bytes \<Rightarrow> bytes list \<Rightarrow> bytes \<times> nat" where
  "my_Delete table pk =
     (''DELETE FROM '' @ table @ '' WHERE '' @ join '' AND '' (map (\<lambda>c. backtick c @ '' = ?'') pk), length pk)"

definition Upsert :: "Dialect \<Rightarrow> bytes \<Rightarrow> bytes list \<Rightarrow> bytes list \<Rightarrow> bytes \<times> nat" where
  "Upsert d table pk cols = (case d of pgDialect \<Rightarrow> pg_Upsert table pk cols | myDialect \<Rightarrow> my_Upsert table pk cols)"

definition Delete :: "Dialect \<Rightarrow> bytes \<Rightarrow> bytes list \<Rightarrow> bytes \<times> nat" where
  "Delete d table pk = (case d of pgDialect \<Rightarrow> pg_Delete table pk | myDialect \<Rightarrow> my_Delete table pk)"

section \<open>Coalescing\<close>

text \<open>A pending row and the channel its \<open>Emit\<close> waits on, which is only an identity here.\<close>

record PendingRow =
  pr_Row :: Row
  pr_Done :: nat

definition pk_names :: "Row \<Rightarrow> bytes list" where
  "pk_names r = sortStrings (map fst (row_PK r))"

definition toArgs :: "bytes list \<Rightarrow> strmap \<Rightarrow> bytes list" where
  "toArgs order m = map (\<lambda>c. case map_of m c of None \<Rightarrow> [] | Some v \<Rightarrow> v) order"

definition pkKey :: "Row \<Rightarrow> bytes list" where
  "pkKey r = toArgs (pk_names r) (row_PK r)"

definition coalesce_key :: "Row \<Rightarrow> bytes" where
  "coalesce_key r = row_Table r @ [CHR 0x00] @ join [CHR 0x00] (pkKey r)"

definition merge_rows :: "Row \<Rightarrow> Row \<Rightarrow> Row" where
  "merge_rows old p =
     \<lparr>row_Table = row_Table p, row_PK = row_PK p,
      row_Cols = fold (\<lambda>(c, v) m. AList.update c v m) (row_Cols p) (row_Cols old), row_Del = False, row_Source = row_Source p\<rparr>"

definition coalesce_step :: "PendingRow \<Rightarrow> (bytes \<times> nat) list \<times> PendingRow list \<Rightarrow> (bytes \<times> nat) list \<times> PendingRow list" where
  "coalesce_step p st =
     (let (index, out) = st; k = coalesce_key (pr_Row p)
      in case map_of index k of
           Some prev \<Rightarrow>
             let old = pr_Row (out ! prev)
             in if row_Del (pr_Row p) then (index, out[prev := p])
                else if \<not> row_Del old then (index, out[prev := (out ! prev)\<lparr>pr_Row := merge_rows old (pr_Row p)\<rparr>])
                else (index, out[prev := p])
         | None \<Rightarrow> (AList.update k (length out) index, out @ [p]))"

definition Coalesce :: "PendingRow list \<Rightarrow> PendingRow list" where
  "Coalesce batch = snd (fold coalesce_step batch ([], []))"

section \<open>The sink\<close>

type_synonym 'db sql_exec = "bytes \<times> bytes list \<Rightarrow> 'db \<Rightarrow> 'db option"

definition execRow :: "Dialect \<Rightarrow> Row \<Rightarrow> bytes \<times> bytes list" where
  "execRow d r =
     (let pkCols = pk_names r
      in if row_Del r then (fst (Delete d (row_Table r) pkCols), toArgs pkCols (row_PK r))
         else let cols = ColNames r
              in (fst (Upsert d (row_Table r) pkCols cols), toArgs pkCols (row_PK r) @ toArgs cols (row_Cols r)))"

fun exec_rows :: "'db sql_exec \<Rightarrow> Dialect \<Rightarrow> Row list \<Rightarrow> 'db \<Rightarrow> 'db option" where
  "exec_rows exec d [] db = Some db"
| "exec_rows exec d (r # rs) db = (case exec (execRow d r) db of None \<Rightarrow> None | Some db' \<Rightarrow> exec_rows exec d rs db')"

text \<open>
  A transaction: \<open>begin_ok\<close> and \<open>commit_ok\<close> are the results of the two driver calls; a failed
  transaction is rolled back.
\<close>

definition commit :: "'db sql_exec \<Rightarrow> Dialect \<Rightarrow> bool \<Rightarrow> bool \<Rightarrow> PendingRow list \<Rightarrow> 'db \<Rightarrow> bool \<times> 'db" where
  "commit exec d begin_ok commit_ok batch db =
     (if \<not> begin_ok then (False, db)
      else case exec_rows exec d (map pr_Row batch) db of
             None \<Rightarrow> (False, db)
           | Some db' \<Rightarrow> if commit_ok then (True, db') else (False, db))"

record SqlConfig =
  sq_MaxBatchRows :: int
  sq_FlushEvery :: int

record 'db Sink =
  sq_cfg :: SqlConfig
  sq_dial :: Dialect
  sq_rules :: "RuleConfig list"
  sq_queue :: "PendingRow list"
  sq_wake :: bool
  sq_closed :: bool
  sq_db :: 'db
  sq_answers :: "(nat \<times> bool) list"

datatype sql_new_error = ERule map_error | EDriver | EOpen

fun compile_all :: "RuleConfig list \<Rightarrow> map_error + RuleConfig list" where
  "compile_all [] = Inr []"
| "compile_all (r # rs) =
     (case Compile r of Inl e \<Rightarrow> Inl e
      | Inr r' \<Rightarrow> (case compile_all rs of Inl e \<Rightarrow> Inl e | Inr rs' \<Rightarrow> Inr (r' # rs')))"

definition sql_New :: "SqlConfig \<Rightarrow> bytes \<Rightarrow> RuleConfig list \<Rightarrow> 'db option \<Rightarrow> sql_new_error + 'db Sink" where
  "sql_New c driver rules opened =
     (case compile_all rules of
        Inl e \<Rightarrow> Inl (ERule e)
      | Inr rs \<Rightarrow>
          (case NewDialect driver of
             None \<Rightarrow> Inl EDriver
           | Some d \<Rightarrow>
               (case opened of
                  None \<Rightarrow> Inl EOpen
                | Some db \<Rightarrow>
                    Inr \<lparr>sq_cfg = \<lparr>sq_MaxBatchRows = (if sq_MaxBatchRows c \<le> 0 then 500 else sq_MaxBatchRows c),
                                  sq_FlushEvery = (if sq_FlushEvery c \<le> 0 then 200000000 else sq_FlushEvery c)\<rparr>,
                         sq_dial = d, sq_rules = rs, sq_queue = [], sq_wake = False, sq_closed = False, sq_db = db,
                         sq_answers = []\<rparr>)))"

text \<open>\<open>Emit\<close> up to its wait: nothing to do, an error, or a queued row that waits under its identity.\<close>

datatype emit_result = EmitNil | EmitErr map_error | EmitClosed | EmitWait nat

definition sql_Emit :: "(bytes \<Rightarrow> strmap option) \<Rightarrow> (bytes \<Rightarrow> bytes option) \<Rightarrow> nat \<Rightarrow> Event \<Rightarrow> 'db Sink \<Rightarrow> emit_result \<times> 'db Sink" where
  "sql_Emit obj str ch ev s =
     (if EvPhase ev = PhaseHeartbeat then (EmitNil, s)
      else case RowForEvent obj str (sq_rules s) ev of
             Inl e \<Rightarrow> (if e = ErrNoMatch then EmitNil else EmitErr e, s)
           | Inr row \<Rightarrow>
               if sq_closed s then (EmitClosed, s)
               else (EmitWait ch,
                     s\<lparr>sq_queue := sq_queue s @ [\<lparr>pr_Row = row, pr_Done = ch\<rparr>],
                       sq_wake := sq_wake s \<or> int (length (sq_queue s)) \<ge> sq_MaxBatchRows (sq_cfg s)\<rparr>))"

definition flushBatch :: "'db sql_exec \<Rightarrow> bool \<Rightarrow> bool \<Rightarrow> 'db Sink \<Rightarrow> 'db Sink" where
  "flushBatch exec begin_ok commit_ok s =
     (if sq_queue s = [] then s
      else let batch = Coalesce (sq_queue s);
               (ok, db') = commit exec (sq_dial s) begin_ok commit_ok batch (sq_db s)
           in s\<lparr>sq_queue := [], sq_db := db', sq_answers := sq_answers s @ map (\<lambda>p. (pr_Done p, ok)) batch\<rparr>)"

text \<open>One turn of \<open>commitLoop\<close> on its wake channel.\<close>

definition commit_turn :: "'db sql_exec \<Rightarrow> bool \<Rightarrow> bool \<Rightarrow> 'db Sink \<Rightarrow> 'db Sink" where
  "commit_turn exec begin_ok commit_ok s = flushBatch exec begin_ok commit_ok (s\<lparr>sq_wake := False\<rparr>)"

definition sql_Close :: "'db sql_exec \<Rightarrow> bool \<Rightarrow> bool \<Rightarrow> 'db Sink \<Rightarrow> 'db Sink" where
  "sql_Close exec begin_ok commit_ok s =
     (if sq_closed s then s else flushBatch exec begin_ok commit_ok (s\<lparr>sq_closed := True\<rparr>))"


section \<open>Row identities\<close>

definition row_id :: "Row \<Rightarrow> bytes \<times> strmap" where
  "row_id r = (row_Table r, zip (pk_names r) (pkKey r))"

text \<open>
  Well-formed batches: no \<^verbatim>\<open>NUL\<close> in table names and primary keys, and one set of primary-key columns
  per table, as when every table is written by one rule.
\<close>

definition row_ok :: "Row \<Rightarrow> bool" where
  "row_ok r \<longleftrightarrow> CHR 0x00 \<notin> set (row_Table r) \<and> list_all (\<lambda>(c, v). CHR 0x00 \<notin> set v) (row_PK r) \<and>
     row_PK r \<noteq> [] \<and> distinct (map fst (row_Cols r))"

definition same_schema :: "Row \<Rightarrow> Row \<Rightarrow> bool" where
  "same_schema r1 r2 \<longleftrightarrow> (row_Table r1 = row_Table r2 \<longrightarrow> pk_names r1 = pk_names r2)"

definition rows_ok :: "Row list \<Rightarrow> bool" where
  "rows_ok rs \<longleftrightarrow> list_all row_ok rs \<and> (\<forall>r1 \<in> set rs. \<forall>r2 \<in> set rs. same_schema r1 r2)"

lemma sep_split_unique:
  "c \<notin> set a \<Longrightarrow> c \<notin> set b \<Longrightarrow> a @ c # x = b @ c # y \<Longrightarrow> a = b \<and> x = y"
proof (induction a arbitrary: b)
  case Nil
  then show ?case by (cases b) auto
next
  case (Cons d a)
  then obtain b' where "b = d # b'" by (cases b) auto
  then show ?case using Cons by auto
qed

lemma join_inj:
  assumes "length xs = length ys" "\<forall>x \<in> set xs. c \<notin> set x" "\<forall>y \<in> set ys. c \<notin> set y" "join [c] xs = join [c] ys"
  shows "xs = ys"
  using assms
proof (induction xs ys rule: list_induct2)
  case (Cons x xs y ys)
  show ?case
  proof (cases xs)
    case Nil
    then show ?thesis using Cons by (cases ys) auto
  next
    case (Cons a as)
    then obtain b bs where ys: "ys = b # bs" using Cons.hyps by (cases ys) auto
    have "x @ c # join [c] xs = y @ c # join [c] ys" using Cons.prems(3) ys \<open>xs = a # as\<close> by simp
    then have "x = y \<and> join [c] xs = join [c] ys" using Cons.prems by (intro sep_split_unique) auto
    then show ?thesis using Cons.IH Cons.prems by simp
  qed
qed simp

lemma length_pkKey: "length (pkKey r) = length (pk_names r)"
  by (simp add: pkKey_def toArgs_def)

lemma pkKey_no_nul: "row_ok r \<Longrightarrow> v \<in> set (pkKey r) \<Longrightarrow> CHR 0x00 \<notin> set v"
  by (auto simp: row_ok_def pkKey_def toArgs_def list_all_iff split: option.splits dest!: map_of_SomeD)

lemma coalesce_key_eq:
  assumes "row_ok r1" "row_ok r2" "same_schema r1 r2"
  shows "coalesce_key r1 = coalesce_key r2 \<longleftrightarrow> row_id r1 = row_id r2"
proof
  assume "coalesce_key r1 = coalesce_key r2"
  then have e: "row_Table r1 = row_Table r2 \<and> join [CHR 0x00] (pkKey r1) = join [CHR 0x00] (pkKey r2)"
    using assms by (intro sep_split_unique) (auto simp: coalesce_key_def row_ok_def)
  then have n: "pk_names r1 = pk_names r2" using assms(3) by (simp add: same_schema_def)
  have "pkKey r1 = pkKey r2"
    using e n pkKey_no_nul [OF assms(1)] pkKey_no_nul [OF assms(2)] by (intro join_inj) (auto simp: length_pkKey)
  then show "row_id r1 = row_id r2" using e n by (simp add: row_id_def)
next
  assume "row_id r1 = row_id r2"
  then have "row_Table r1 = row_Table r2" "zip (pk_names r1) (pkKey r1) = zip (pk_names r2) (pkKey r2)"
    by (simp_all add: row_id_def)
  moreover have "map snd (zip (pk_names r) (pkKey r)) = pkKey r" for r by (simp add: length_pkKey)
  ultimately show "coalesce_key r1 = coalesce_key r2" unfolding coalesce_key_def by metis
qed

section \<open>The index of a batch\<close>

text \<open>No row is written again after it was deleted in the same batch.\<close>

definition no_revive :: "Row list \<Rightarrow> bool" where
  "no_revive rs \<longleftrightarrow> sorted_wrt (\<lambda>a b. row_id a = row_id b \<and> row_Del a \<longrightarrow> row_Del b) rs"

text \<open>
  The index maps the key of every output row to its place and nothing else, and every output row
  stands for a row of the batch.
\<close>

definition coal_inv :: "PendingRow list \<Rightarrow> (bytes \<times> nat) list \<Rightarrow> PendingRow list \<Rightarrow> bool" where
  "coal_inv batch index out \<longleftrightarrow>
     (\<forall>k i. map_of index k = Some i \<longleftrightarrow> i < length out \<and> coalesce_key (pr_Row (out ! i)) = k) \<and>
     (\<forall>q \<in> set out. row_ok (pr_Row q) \<and>
        (\<exists>p \<in> set batch. row_Table (pr_Row q) = row_Table (pr_Row p) \<and> row_PK (pr_Row q) = row_PK (pr_Row p) \<and>
            (row_Del (pr_Row q) \<longrightarrow> row_Del (pr_Row p))))"

lemma same_pk_simps:
  assumes "row_Table a = row_Table b" "row_PK a = row_PK b"
  shows "pk_names a = pk_names b" "row_id a = row_id b" "coalesce_key a = coalesce_key b" "same_schema a c = same_schema b c"
  using assms by (simp_all add: pk_names_def row_id_def pkKey_def coalesce_key_def same_schema_def)

lemma merge_simps [simp]:
  "row_Table (merge_rows a b) = row_Table b" "row_PK (merge_rows a b) = row_PK b" "row_Del (merge_rows a b) = False"
  by (simp_all add: merge_rows_def)

lemma distinct_fold_update: "distinct (map fst m) \<Longrightarrow> distinct (map fst (fold (\<lambda>(c, v) m. AList.update c v m) xs m))"
  by (induction xs arbitrary: m) (auto simp: distinct_update)

lemma row_ok_merge: "row_ok a \<Longrightarrow> row_ok b \<Longrightarrow> row_ok (merge_rows a b)"
  by (simp add: row_ok_def merge_rows_def distinct_fold_update)

lemma rows_ok_butlast: "rows_ok (map pr_Row (batch @ [p])) \<Longrightarrow> rows_ok (map pr_Row batch)"
  by (auto simp: rows_ok_def)

text \<open>A hit in the index: the place of the one output row with the identity of the new row.\<close>

lemma coal_inv_hit:
  assumes inv: "coal_inv batch index out" and ok: "rows_ok (map pr_Row (batch @ [p]))"
    and hit: "map_of index (coalesce_key (pr_Row p)) = Some prev"
  shows "prev < length out" "row_id (pr_Row (out ! prev)) = row_id (pr_Row p)"
    "\<forall>i < length out. i \<noteq> prev \<longrightarrow> row_id (pr_Row (out ! i)) \<noteq> row_id (pr_Row p)"
    "row_Del (pr_Row (out ! prev)) \<longrightarrow> (\<exists>q \<in> set batch. row_id (pr_Row q) = row_id (pr_Row p) \<and> row_Del (pr_Row q))"
    "row_ok (pr_Row (out ! prev))"
proof -
  have idx: "map_of index k = Some i \<longleftrightarrow> i < length out \<and> coalesce_key (pr_Row (out ! i)) = k" for k i
    using inv by (simp add: coal_inv_def)
  show l: "prev < length out" using hit idx by blast
  have key: "coalesce_key (pr_Row (out ! i)) = coalesce_key (pr_Row p) \<longleftrightarrow> row_id (pr_Row (out ! i)) = row_id (pr_Row p)"
    if "i < length out" for i
  proof (rule coalesce_key_eq)
    have "out ! i \<in> set out" using that by simp
    then obtain q where q: "q \<in> set batch" "row_Table (pr_Row (out ! i)) = row_Table (pr_Row q)" "row_PK (pr_Row (out ! i)) = row_PK (pr_Row q)"
      and o: "row_ok (pr_Row (out ! i))"
      using inv by (auto simp: coal_inv_def)
    show "row_ok (pr_Row (out ! i))" by (rule o)
    show "row_ok (pr_Row p)" using ok by (simp add: rows_ok_def)
    show "same_schema (pr_Row (out ! i)) (pr_Row p)" using q ok by (simp add: same_pk_simps(4) [OF q(2,3)] rows_ok_def)
  qed
  show "row_id (pr_Row (out ! prev)) = row_id (pr_Row p)" using hit idx key l by blast
  show "\<forall>i < length out. i \<noteq> prev \<longrightarrow> row_id (pr_Row (out ! i)) \<noteq> row_id (pr_Row p)"
    using hit idx key by (metis option.inject)
  have m: "out ! prev \<in> set out" using l by simp
  then show "row_ok (pr_Row (out ! prev))" using inv by (simp add: coal_inv_def)
  show "row_Del (pr_Row (out ! prev)) \<longrightarrow> (\<exists>q \<in> set batch. row_id (pr_Row q) = row_id (pr_Row p) \<and> row_Del (pr_Row q))"
    using m inv \<open>row_id (pr_Row (out ! prev)) = row_id (pr_Row p)\<close> unfolding coal_inv_def by (metis same_pk_simps(2))
qed

lemma coal_inv_step:
  assumes inv: "coal_inv batch index out" and ok: "rows_ok (map pr_Row (batch @ [p]))"
    and st: "coalesce_step p (index, out) = (index', out')"
  shows "coal_inv (batch @ [p]) index' out'"
proof (cases "map_of index (coalesce_key (pr_Row p))")
  case None
  then have "index' = AList.update (coalesce_key (pr_Row p)) (length out) index" "out' = out @ [p]"
    using st by (auto simp: coalesce_step_def Let_def)
  moreover have "coalesce_key (pr_Row (out ! i)) \<noteq> coalesce_key (pr_Row p)" if "i < length out" for i
    using inv None that unfolding coal_inv_def by (metis option.distinct(1))
  ultimately show ?thesis using inv ok None
    by (auto simp: coal_inv_def nth_append rows_ok_def less_Suc_eq split: if_splits)
next
  case (Some prev)
  note h = coal_inv_hit [OF inv ok Some]
  have p: "row_ok (pr_Row p)" using ok by (simp add: rows_ok_def)
  obtain new where new: "index' = index" "out' = out[prev := new]" "row_Table (pr_Row new) = row_Table (pr_Row p)"
    "row_PK (pr_Row new) = row_PK (pr_Row p)" "row_Del (pr_Row new) \<longrightarrow> row_Del (pr_Row p)" "row_ok (pr_Row new)"
    using st Some p h(5) by (auto simp: coalesce_step_def Let_def row_ok_merge split: if_splits)
  have "coalesce_key (pr_Row new) = coalesce_key (pr_Row (out ! prev))"
    using inv Some same_pk_simps(3) [OF new(3,4)] by (simp add: coal_inv_def)
  then show ?thesis using inv new h(1)
    by (auto simp: coal_inv_def nth_list_update dest!: set_update_subset_insert [THEN subsetD])
qed

lemma coal_inv_fold:
  "rows_ok (map pr_Row batch) \<Longrightarrow> coal_inv batch (fst (fold coalesce_step batch ([], []))) (snd (fold coalesce_step batch ([], [])))"
proof (induction batch rule: rev_induct)
  case Nil
  then show ?case by (simp add: coal_inv_def)
next
  case (snoc p batch)
  then show ?case using coal_inv_step [OF snoc.IH [OF rows_ok_butlast [OF snoc.prems]] snoc.prems] by simp
qed

section \<open>What a batch does to the database\<close>

text \<open>
  The laws of a table store that coalescing relies on: writes to different rows commute, a delete
  makes earlier writes of its row irrelevant, and two upserts of a row are one upsert of the
  merged columns.
\<close>

locale row_store =
  fixes run :: "Row \<Rightarrow> 'db \<Rightarrow> 'db"
  assumes run_commute: "row_id a \<noteq> row_id b \<Longrightarrow> run b (run a db) = run a (run b db)"
    and run_delete: "row_id a = row_id b \<Longrightarrow> row_Del b \<Longrightarrow> run b (run a db) = run b db"
    and run_merge: "row_id a = row_id b \<Longrightarrow> \<not> row_Del a \<Longrightarrow> \<not> row_Del b \<Longrightarrow> distinct (map fst (row_Cols b)) \<Longrightarrow>
      run b (run a db) = run (merge_rows a b) db"
begin

lemma run_past: "\<forall>q \<in> set ys. row_id (pr_Row q) \<noteq> row_id b \<Longrightarrow>
    run b (fold (\<lambda>q. run (pr_Row q)) ys db) = fold (\<lambda>q. run (pr_Row q)) ys (run b db)"
  by (induction ys arbitrary: db) (auto simp: run_commute)

text \<open>Rewriting one row of a batch in place of appending to it.\<close>

lemma run_in_place:
  assumes "prev < length out" "\<forall>i < length out. i \<noteq> prev \<longrightarrow> row_id (pr_Row (out ! i)) \<noteq> row_id b"
    and "\<And>db. run (pr_Row new) db = run b (run (pr_Row (out ! prev)) db)"
  shows "fold (\<lambda>q. run (pr_Row q)) (out[prev := new]) db = run b (fold (\<lambda>q. run (pr_Row q)) out db)"
proof -
  have "\<forall>q \<in> set (drop (Suc prev) out). row_id (pr_Row q) \<noteq> row_id b"
    using assms(1,2) by (auto simp: in_set_conv_nth)
  note past = run_past [OF this]
  show ?thesis
    using assms(1,3) by (subst (2) id_take_nth_drop [OF assms(1)]) (simp add: upd_conv_take_nth_drop past)
qed

lemma coalesce_step_run:
  assumes inv: "coal_inv batch index out" and ok: "rows_ok (map pr_Row (batch @ [p]))"
    and live: "\<forall>q \<in> set batch. row_id (pr_Row q) = row_id (pr_Row p) \<and> row_Del (pr_Row q) \<longrightarrow> row_Del (pr_Row p)"
    and st: "coalesce_step p (index, out) = (index', out')"
  shows "fold (\<lambda>q. run (pr_Row q)) out' db = run (pr_Row p) (fold (\<lambda>q. run (pr_Row q)) out db)"
proof (cases "map_of index (coalesce_key (pr_Row p))")
  case None
  then show ?thesis using st by (auto simp: coalesce_step_def Let_def)
next
  case (Some prev)
  note h = coal_inv_hit [OF inv ok Some]
  let ?old = "pr_Row (out ! prev)"
  define new where "new = (if row_Del (pr_Row p) then p
     else if \<not> row_Del ?old then (out ! prev)\<lparr>pr_Row := merge_rows ?old (pr_Row p)\<rparr> else p)"
  have out': "out' = out[prev := new]" using st Some by (auto simp: coalesce_step_def Let_def new_def split: if_splits)
  have "\<not> (row_Del ?old \<and> \<not> row_Del (pr_Row p))" using h(4) live by (auto simp: h(2))
  moreover have "distinct (map fst (row_Cols (pr_Row p)))" using ok by (simp add: rows_ok_def row_ok_def)
  ultimately have "run (pr_Row new) db = run (pr_Row p) (run ?old db)" for db
    using run_delete [OF h(2)] run_merge [OF h(2)] by (auto simp: new_def)
  then show ?thesis unfolding out' by (intro run_in_place) (use h in auto)
qed

text \<open>Coalescing does not change what a batch does.\<close>

lemma coalesce_run:
  assumes "rows_ok (map pr_Row batch)" "no_revive (map pr_Row batch)"
  shows "fold (\<lambda>q. run (pr_Row q)) (Coalesce batch) db = fold (\<lambda>q. run (pr_Row q)) batch db"
proof -
  have "\<forall>db. fold (\<lambda>q. run (pr_Row q)) (snd (fold coalesce_step batch ([], []))) db = fold (\<lambda>q. run (pr_Row q)) batch db"
    using assms
  proof (induction batch rule: rev_induct)
    case (snoc p batch)
    obtain index out where io: "fold coalesce_step batch ([], []) = (index, out)" by fastforce
    have inv: "coal_inv batch index out" using coal_inv_fold [OF rows_ok_butlast [OF snoc.prems(1)]] io by simp
    have "fold (\<lambda>q. run (pr_Row q)) (snd (coalesce_step p (index, out))) db = run (pr_Row p) (fold (\<lambda>q. run (pr_Row q)) out db)" for db
      using snoc.prems(2)
      by (intro coalesce_step_run [OF inv snoc.prems(1) _ prod.collapse [symmetric]])
        (auto simp: no_revive_def sorted_wrt_append)
    moreover have "no_revive (map pr_Row batch)" using snoc.prems(2) by (simp add: no_revive_def sorted_wrt_append)
    ultimately show ?case using snoc.IH [OF rows_ok_butlast [OF snoc.prems(1)]] io by simp
  qed simp
  then show ?thesis by (simp add: Coalesce_def)
qed

end


text \<open>
  The documented effect of the statements: an upsert inserts the row or overwrites the columns it
  names, a delete removes the row.
\<close>

type_synonym table_db = "bytes \<times> strmap \<Rightarrow> (bytes \<rightharpoonup> bytes) option"

definition apply_row :: "Row \<Rightarrow> table_db \<Rightarrow> table_db" where
  "apply_row r db =
     db(row_id r := (if row_Del r then None
                     else Some ((case db (row_id r) of None \<Rightarrow> Map.empty | Some old \<Rightarrow> old) ++ map_of (row_Cols r))))"

lemma map_of_fold_update:
  "distinct (map fst xs) \<Longrightarrow> map_of (fold (\<lambda>(c, v) m. AList.update c v m) xs m) = map_of m ++ map_of xs"
proof (induction xs arbitrary: m)
  case (Cons x xs)
  obtain c v where x: "x = (c, v)" by fastforce
  have "map_of xs c = None" using Cons.prems x by (simp add: map_of_eq_None_iff)
  have ih: "map_of (fold (\<lambda>(c, v) m. AList.update c v m) xs (AList.update c v m)) = (map_of m)(c \<mapsto> v) ++ map_of xs"
    using Cons.IH [of "AList.update c v m"] Cons.prems by (simp add: map_of_update del: fun_upd_apply)
  show ?case
    using \<open>map_of xs c = None\<close> by (auto simp: x ih fun_eq_iff map_add_def split: option.split)
qed simp

lemma row_id_merge: "row_id (merge_rows a b) = row_id b"
  by (rule same_pk_simps) simp_all

interpretation tables: row_store apply_row
proof unfold_locales
  show "row_id a \<noteq> row_id b \<Longrightarrow> apply_row b (apply_row a db) = apply_row a (apply_row b db)" for a b db
    by (simp add: apply_row_def fun_upd_twist)
  show "row_id a = row_id b \<Longrightarrow> row_Del b \<Longrightarrow> apply_row b (apply_row a db) = apply_row b db" for a b db
    by (simp add: apply_row_def)
  show "row_id a = row_id b \<Longrightarrow> \<not> row_Del a \<Longrightarrow> \<not> row_Del b \<Longrightarrow> distinct (map fst (row_Cols b)) \<Longrightarrow>
      apply_row b (apply_row a db) = apply_row (merge_rows a b) db" for a b db
    by (simp add: apply_row_def row_id_merge) (simp add: merge_rows_def map_of_fold_update)
qed

lemma exec_rows_documented:
  "\<forall>p \<in> set ps. \<forall>db. exec (execRow d (pr_Row p)) db = Some (apply_row (pr_Row p) db) \<Longrightarrow>
     exec_rows exec d (map pr_Row ps) db = Some (fold (\<lambda>p. apply_row (pr_Row p)) ps db)"
  by (induction ps arbitrary: db) auto


section \<open>Who is answered\<close>

lemma row_id_key: "row_id a = row_id b \<Longrightarrow> coalesce_key a = coalesce_key b"
proof -
  assume "row_id a = row_id b"
  then have "row_Table a = row_Table b" "map snd (zip (pk_names a) (pkKey a)) = map snd (zip (pk_names b) (pkKey b))"
    by (simp_all add: row_id_def)
  then show ?thesis by (simp add: coalesce_key_def length_pkKey)
qed

lemma coal_inv_distinct: "coal_inv batch index out \<Longrightarrow> distinct (map (\<lambda>q. row_id (pr_Row q)) out)"
  unfolding distinct_conv_nth coal_inv_def by (metis length_map nth_map option.inject row_id_key)

lemma coalesce_step_ids:
  assumes inv: "coal_inv batch index out" and ok: "rows_ok (map pr_Row (batch @ [p]))"
  shows "set (map (\<lambda>q. row_id (pr_Row q)) (snd (coalesce_step p (index, out)))) =
    insert (row_id (pr_Row p)) (set (map (\<lambda>q. row_id (pr_Row q)) out)) \<and>
    set (map pr_Done (snd (coalesce_step p (index, out)))) \<subseteq> insert (pr_Done p) (set (map pr_Done out))"
proof (cases "map_of index (coalesce_key (pr_Row p))")
  case None
  then show ?thesis by (simp add: coalesce_step_def Let_def)
next
  case (Some prev)
  note h = coal_inv_hit [OF inv ok Some]
  obtain new where new: "snd (coalesce_step p (index, out)) = out[prev := new]" "row_id (pr_Row new) = row_id (pr_Row p)"
    "pr_Done new \<in> {pr_Done p, pr_Done (out ! prev)}"
    using Some by (cases "row_Del (pr_Row p) \<or> row_Del (pr_Row (out ! prev))")
      (force simp: coalesce_step_def Let_def, simp add: coalesce_step_def Let_def row_id_merge)
  have "map (\<lambda>q. row_id (pr_Row q)) (out[prev := new]) = map (\<lambda>q. row_id (pr_Row q)) out"
    using new(2) h(1,2) by (simp add: map_update list_update_same_conv)
  moreover have "row_id (pr_Row p) \<in> set (map (\<lambda>q. row_id (pr_Row q)) out)"
    using h(1) h(2) [symmetric] by simp
  moreover have "set (map pr_Done (out[prev := new])) \<subseteq> insert (pr_Done new) (set (map pr_Done out))"
    by (metis map_update set_update_subset_insert)
  moreover have "pr_Done (out ! prev) \<in> set (map pr_Done out)" using h(1) by simp
  ultimately show ?thesis using new(3) unfolding new(1) by (metis (no_types, lifting) insertE insert_absorb insert_subset singletonD subset_insertI subset_trans insert_mono insert_iff)
qed

lemma Coalesce_ids:
  assumes "rows_ok (map pr_Row batch)"
  shows "distinct (map (\<lambda>q. row_id (pr_Row q)) (Coalesce batch))"
    "set (map (\<lambda>q. row_id (pr_Row q)) (Coalesce batch)) = set (map (\<lambda>q. row_id (pr_Row q)) batch)"
    "set (map pr_Done (Coalesce batch)) \<subseteq> set (map pr_Done batch)"
proof -
  show "distinct (map (\<lambda>q. row_id (pr_Row q)) (Coalesce batch))"
    using coal_inv_distinct [OF coal_inv_fold [OF assms]] by (simp add: Coalesce_def)
  have "set (map (\<lambda>q. row_id (pr_Row q)) (Coalesce batch)) = set (map (\<lambda>q. row_id (pr_Row q)) batch) \<and>
     set (map pr_Done (Coalesce batch)) \<subseteq> set (map pr_Done batch)"
    using assms
  proof (induction batch rule: rev_induct)
    case (snoc p batch)
    note st = coalesce_step_ids [OF coal_inv_fold [OF rows_ok_butlast [OF snoc.prems]] snoc.prems, unfolded prod.collapse]
    note ih = snoc.IH [OF rows_ok_butlast [OF snoc.prems], unfolded Coalesce_def]
    have c: "Coalesce (batch @ [p]) = snd (coalesce_step p (fold coalesce_step batch ([], [])))" by (simp add: Coalesce_def)
    have "set (map (\<lambda>q. row_id (pr_Row q)) (Coalesce (batch @ [p]))) = set (map (\<lambda>q. row_id (pr_Row q)) (batch @ [p]))"
      unfolding c using st ih by (simp del: set_map add: set_append)
    moreover have "set (map pr_Done (Coalesce (batch @ [p]))) \<subseteq> set (map pr_Done (batch @ [p]))"
      unfolding c using st ih by (simp del: set_map) (meson insert_mono subset_trans)
    ultimately show ?case ..
  qed (simp add: Coalesce_def)
  then show "set (map (\<lambda>q. row_id (pr_Row q)) (Coalesce batch)) = set (map (\<lambda>q. row_id (pr_Row q)) batch)"
    "set (map pr_Done (Coalesce batch)) \<subseteq> set (map pr_Done batch)" by auto
qed


lemma Coalesce_distinct:
  assumes "rows_ok (map pr_Row batch)" "distinct (map (\<lambda>q. row_id (pr_Row q)) batch)"
  shows "Coalesce batch = batch"
  using assms
proof (induction batch rule: rev_induct)
  case (snoc p batch)
  obtain index out where io: "fold coalesce_step batch ([], []) = (index, out)" by fastforce
  have out: "out = batch" using snoc io by (simp add: Coalesce_def rows_ok_butlast)
  have inv: "coal_inv batch index out" using coal_inv_fold [OF rows_ok_butlast [OF snoc.prems(1)]] io by simp
  have "map_of index (coalesce_key (pr_Row p)) = None"
  proof (rule ccontr)
    assume "map_of index (coalesce_key (pr_Row p)) \<noteq> None"
    then obtain prev where "map_of index (coalesce_key (pr_Row p)) = Some prev" by auto
    note h = coal_inv_hit [OF inv snoc.prems(1) this]
    then have "row_id (pr_Row p) \<in> set (map (\<lambda>q. row_id (pr_Row q)) batch)" using out by (metis length_map nth_map nth_mem)
    then show False using snoc.prems(2) by simp
  qed
  then show ?case using io out by (simp add: Coalesce_def coalesce_step_def)
qed (simp add: Coalesce_def)

text \<open>
  Every waiting emitter is answered exactly when the batch has no two rows of one identity: the
  channel of a merged or replaced row is dropped, so with a repeated key some \<open>Emit\<close> call is never
  answered and ends only with its context.
\<close>
theorem all_answered_iff_distinct:
  assumes "rows_ok (map pr_Row (sq_queue s))" "distinct (map pr_Done (sq_queue s))" "sq_queue s \<noteq> []" "sq_answers s = []"
  shows "set (map pr_Done (sq_queue s)) \<subseteq> set (map fst (sq_answers (flushBatch exec begin_ok commit_ok s))) \<longleftrightarrow>
    distinct (map (\<lambda>q. row_id (pr_Row q)) (sq_queue s))"
proof -
  let ?q = "sq_queue s"
  have ans: "map fst (sq_answers (flushBatch exec begin_ok commit_ok s)) = map pr_Done (Coalesce ?q)"
    using assms(3,4) by (simp add: flushBatch_def Let_def split: prod.split)
  show ?thesis unfolding ans
  proof
    assume a: "set (map pr_Done ?q) \<subseteq> set (map pr_Done (Coalesce ?q))"
    have "length ?q = card (set (map pr_Done ?q))" using distinct_card [OF assms(2)] by simp
    also have "\<dots> \<le> length (Coalesce ?q)" using card_mono [OF _ a] card_length [of "map pr_Done (Coalesce ?q)"] by simp
    also have "\<dots> = card (set (map (\<lambda>q. row_id (pr_Row q)) (Coalesce ?q)))"
      using distinct_card [OF Coalesce_ids(1) [OF assms(1)]] by simp
    also have "\<dots> = card (set (map (\<lambda>q. row_id (pr_Row q)) ?q))" by (simp only: Coalesce_ids(2) [OF assms(1)])
    finally have "length (map (\<lambda>q. row_id (pr_Row q)) ?q) \<le> card (set (map (\<lambda>q. row_id (pr_Row q)) ?q))" by simp
    then show "distinct (map (\<lambda>q. row_id (pr_Row q)) ?q)" using card_distinct card_length le_antisym by blast
  next
    assume "distinct (map (\<lambda>q. row_id (pr_Row q)) ?q)"
    then show "set (map pr_Done ?q) \<subseteq> set (map pr_Done (Coalesce ?q))" using Coalesce_distinct [OF assms(1)] by simp
  qed
qed

text \<open>
  A row that is deleted and written again within one batch keeps its old columns: coalescing
  replaces the delete by the upsert, so a column the upsert does not name survives, where the
  statements one by one would have removed it.
\<close>
theorem recreated_row_keeps_stale_columns:
  assumes "rows_ok [pr_Row del, pr_Row up]" "row_id (pr_Row del) = row_id (pr_Row up)" "row_Del (pr_Row del)" "\<not> row_Del (pr_Row up)"
    and "db (row_id (pr_Row up)) = Some old" "old c = Some v" "c \<notin> set (map fst (row_Cols (pr_Row up)))"
  shows "\<exists>kept fresh. fold (\<lambda>p. apply_row (pr_Row p)) (Coalesce [del, up]) db (row_id (pr_Row up)) = Some kept \<and> kept c = Some v \<and>
    fold (\<lambda>p. apply_row (pr_Row p)) [del, up] db (row_id (pr_Row up)) = Some fresh \<and> fresh c = None"
proof -
  have "coalesce_key (pr_Row del) = coalesce_key (pr_Row up)" using assms(2) by (rule row_id_key)
  then have "Coalesce [del, up] = [up]" using assms(3,4) by (simp add: Coalesce_def coalesce_step_def Let_def)
  moreover have "map_of (row_Cols (pr_Row up)) c = None" using assms(7) by (simp add: map_of_eq_None_iff)
  ultimately show ?thesis using assms by (simp add: apply_row_def map_add_def)
qed

section \<open>Statements\<close>

lemma dedupe_loop_distinct: "distinct vs \<Longrightarrow> set vs \<inter> set seen = {} \<Longrightarrow> dedupe_loop seen vs = vs"
  by (induction vs arbitrary: seen) auto

lemma dedupe_distinct: "distinct vs \<Longrightarrow> dedupe vs = vs"
  by (simp add: dedupe_def dedupe_loop_distinct)

text \<open>
  Every statement gets as many arguments as it has placeholders, the values of its columns in the
  order the statement names them: the key columns first, then the others.
\<close>
theorem execRow_arguments:
  assumes "distinct (map fst (row_Cols r))"
  shows "length (snd (execRow d r)) =
      snd (if row_Del r then Delete d (row_Table r) (pk_names r) else Upsert d (row_Table r) (pk_names r) (ColNames r)) \<and>
    snd (execRow d r) = map (\<lambda>c. case map_of (row_PK r) c of None \<Rightarrow> [] | Some v \<Rightarrow> v) (pk_names r) @
      (if row_Del r then [] else map (\<lambda>c. case map_of (row_Cols r) c of None \<Rightarrow> [] | Some v \<Rightarrow> v) (dedupe (ColNames r)))"
proof -
  have "dedupe (ColNames r) = ColNames r" using assms by (simp add: dedupe_distinct ColNames_def sortStrings_sort)
  then show ?thesis
    by (cases d) (simp_all add: execRow_def Delete_def Upsert_def pg_Delete_def my_Delete_def pg_Upsert_def my_Upsert_def
        toArgs_def Let_def)
qed

lemma quote_body_unique:
  assumes "concat (map (\<lambda>c. if c = CHR 0x22 then [CHR 0x22, CHR 0x22] else [c]) x) @ CHR 0x22 # r =
      concat (map (\<lambda>c. if c = CHR 0x22 then [CHR 0x22, CHR 0x22] else [c]) y) @ CHR 0x22 # s"
    and "take 1 r \<noteq> [CHR 0x22]" "take 1 s \<noteq> [CHR 0x22]"
  shows "x = y \<and> r = s"
  using assms
proof (induction x arbitrary: y)
  case Nil
  then show ?case by (cases y) (auto split: if_splits)
next
  case (Cons c x)
  then show ?case
  proof (cases y)
    case Nil
    then show ?thesis using Cons.prems by (auto split: if_splits)
  next
    case (Cons d y')
    then show ?thesis using Cons.prems Cons.IH [of y'] by (auto split: if_splits)
  qed
qed

lemma quote_unique:
  "quote x @ r = quote y @ s \<Longrightarrow> take 1 r \<noteq> [CHR 0x22] \<Longrightarrow> take 1 s \<noteq> [CHR 0x22] \<Longrightarrow> x = y \<and> r = s"
  using quote_body_unique [of x r y s] by (simp add: quote_def)

lemma joinQuoted_unique:
  assumes "joinQuoted xs @ CHR '')'' # r = joinQuoted ys @ CHR '')'' # s"
  shows "xs = ys \<and> r = s"
  using assms
proof (induction xs arbitrary: ys)
  case Nil
  then show ?case by (cases ys; cases "tl ys") (auto simp: joinQuoted_def quote_def)
next
  case (Cons x xs)
  obtain y ys' where y: "ys = y # ys'" using Cons.prems by (cases ys; cases xs) (auto simp: joinQuoted_def quote_def)
  let ?t = "\<lambda>zs u. (if zs = [] then [] else '', '' @ joinQuoted zs) @ CHR '')'' # u"
  have j: "joinQuoted (z # zs) @ CHR '')'' # u = quote z @ ?t zs u" for z zs u
    by (cases zs) (simp_all add: joinQuoted_def)
  have "quote x @ ?t xs r = quote y @ ?t ys' s" using Cons.prems unfolding y j .
  then have "x = y \<and> ?t xs r = ?t ys' s" by (intro quote_unique) auto
  then show ?case using Cons.IH [of ys'] y by (auto split: if_splits)
qed


text \<open>
  Postgres statements are unambiguous: two upserts into a table have the same text exactly when
  they have the same key columns and the same other columns, whatever bytes the names hold.
\<close>
theorem pg_Upsert_unambiguous:
  "fst (pg_Upsert table pk cols) = fst (pg_Upsert table pk' cols') \<longleftrightarrow> pk = pk' \<and> dedupe cols = dedupe cols'"
proof
  let ?c = "dedupe cols" and ?c' = "dedupe cols'"
  assume a: "fst (pg_Upsert table pk cols) = fst (pg_Upsert table pk' cols')"
  have cat: "pk @ ?c = pk' @ ?c'"
    using a joinQuoted_unique [of "pk @ ?c" _ "pk' @ ?c'"] by (simp add: pg_Upsert_def Let_def)
  then have len: "length pk + length ?c = length pk' + length ?c'" by (metis length_append)
  have "pk = pk'"
    using a joinQuoted_unique [of pk _ pk'] by (simp add: pg_Upsert_def Let_def cat len)
  then show "pk = pk' \<and> ?c = ?c'" using cat by simp
qed (auto simp: pg_Upsert_def Let_def)

text \<open>
  MySQL statements are not: a column name with a backtick, such as the field name of a hash,
  closes the identifier, and the text is that of a condition on two columns.
\<close>
theorem my_Delete_ambiguous:
  "fst (my_Delete table [''a'' @ [CHR 0x60] @ '' = ? AND '' @ [CHR 0x60] @ ''b'']) = fst (my_Delete table [''a'', ''b''])"
  by (simp add: my_Delete_def backtick_def)

definition nul_row :: "bytes \<Rightarrow> bytes \<Rightarrow> Row" where
  "nul_row a b = \<lparr>row_Table = ''t'', row_PK = [(''a'', a), (''b'', b)], row_Cols = [(''c'', ''1'')], row_Del = False,
     row_Source = \<lparr>SrcID = ''s'', SrcDB = ''db0'', SrcFilenum = 1, SrcOffset = 1, Seq = 0, ExecTimeSec = 0\<rparr>\<rparr>"

text \<open>
  Key values with a \<^verbatim>\<open>NUL\<close> byte make different rows collide: the two rows below have different
  primary keys, and a batch of both writes only the second.
\<close>
theorem nul_values_collide:
  "row_id (nul_row [CHR ''x'', CHR 0x00] ''y'') \<noteq> row_id (nul_row ''x'' [CHR 0x00, CHR ''y'']) \<and>
   map (row_id \<circ> pr_Row) (Coalesce [\<lparr>pr_Row = nul_row [CHR ''x'', CHR 0x00] ''y'', pr_Done = 0\<rparr>,
      \<lparr>pr_Row = nul_row ''x'' [CHR 0x00, CHR ''y''], pr_Done = 1\<rparr>]) = [row_id (nul_row ''x'' [CHR 0x00, CHR ''y''])]"
  by (simp add: row_id_def pk_names_def pkKey_def toArgs_def sortStrings_sort nul_row_def Coalesce_def coalesce_step_def
      coalesce_key_def Let_def merge_rows_def)

section \<open>Witnesses\<close>

definition demo_row :: "bytes \<Rightarrow> bytes \<Rightarrow> bool \<Rightarrow> Row" where
  "demo_row k v del = \<lparr>row_Table = ''t'', row_PK = [(''id'', k)], row_Cols = (if del then [] else [(''c'', v)]), row_Del = del,
     row_Source = \<lparr>SrcID = ''s'', SrcDB = ''db0'', SrcFilenum = 1, SrcOffset = 1, Seq = 0, ExecTimeSec = 0\<rparr>\<rparr>"

definition demo_queue :: "PendingRow list" where
  "demo_queue = [\<lparr>pr_Row = demo_row ''k'' ''1'' False, pr_Done = 0\<rparr>, \<lparr>pr_Row = demo_row ''k'' ''2'' False, pr_Done = 1\<rparr>]"

definition demo_sql :: "table_db Sink" where
  "demo_sql = \<lparr>sq_cfg = \<lparr>sq_MaxBatchRows = 500, sq_FlushEvery = 1\<rparr>, sq_dial = pgDialect, sq_rules = [], sq_queue = demo_queue,
     sq_wake = False, sq_closed = False, sq_db = (\<lambda>_. None), sq_answers = []\<rparr>"

text \<open>A database that knows the one statement of the example.\<close>

definition demo_exec :: "table_db sql_exec" where
  "demo_exec st db = (if st = execRow pgDialect (demo_row ''k'' ''2'' False) then Some (apply_row (demo_row ''k'' ''2'' False) db) else None)"

lemma demo_ids: "row_id (demo_row k v del) = (''t'', [(''id'', k)])" "pk_names (demo_row k v del) = [''id'']"
  by (simp_all add: row_id_def pk_names_def pkKey_def toArgs_def sortStrings_sort demo_row_def)

lemma demo_key: "coalesce_key (demo_row k v del) = ''t'' @ [CHR 0x00] @ k"
  by (simp add: coalesce_key_def pkKey_def toArgs_def demo_ids(2)) (simp add: demo_row_def)

lemma demo_coalesce: "Coalesce demo_queue = [\<lparr>pr_Row = demo_row ''k'' ''2'' False, pr_Done = 0\<rparr>]"
  by (simp add: Coalesce_def coalesce_step_def demo_queue_def Let_def demo_key) (simp add: merge_rows_def demo_row_def)

lemma demo_ok: "rows_ok (map pr_Row demo_queue)" "no_revive (map pr_Row demo_queue)"
  by (simp_all add: rows_ok_def demo_queue_def same_schema_def demo_ids no_revive_def) (simp_all add: row_ok_def demo_row_def)


theorem all_answered_iff_distinct_witness:
  "\<not> set (map pr_Done demo_queue) \<subseteq> set (map fst (sq_answers (flushBatch demo_exec True True demo_sql)))"
  using all_answered_iff_distinct [of demo_sql demo_exec True True] demo_ok(1)
  by (simp add: demo_sql_def demo_queue_def demo_ids)

theorem recreated_row_keeps_stale_columns_witness:
  "\<exists>kept fresh. fold (\<lambda>p. apply_row (pr_Row p))
      (Coalesce [\<lparr>pr_Row = demo_row ''k'' [] True, pr_Done = 0\<rparr>, \<lparr>pr_Row = demo_row ''k'' ''2'' False, pr_Done = 1\<rparr>])
      (\<lambda>_. Some [''old'' \<mapsto> ''x'']) (''t'', [(''id'', ''k'')]) = Some kept \<and> kept ''old'' = Some ''x'' \<and>
    fold (\<lambda>p. apply_row (pr_Row p)) [\<lparr>pr_Row = demo_row ''k'' [] True, pr_Done = 0\<rparr>, \<lparr>pr_Row = demo_row ''k'' ''2'' False, pr_Done = 1\<rparr>]
      (\<lambda>_. Some [''old'' \<mapsto> ''x'']) (''t'', [(''id'', ''k'')]) = Some fresh \<and> fresh ''old'' = None"
proof -
  have "rows_ok [demo_row ''k'' [] True, demo_row ''k'' ''2'' False]"
    by (simp add: rows_ok_def same_schema_def demo_ids) (simp add: row_ok_def demo_row_def)
  moreover have "row_Del (demo_row ''k'' [] True)" "\<not> row_Del (demo_row ''k'' ''2'' False)"
    "''old'' \<notin> set (map fst (row_Cols (demo_row ''k'' ''2'' False)))" by (simp_all add: demo_row_def)
  ultimately show ?thesis
    using recreated_row_keeps_stale_columns [of "\<lparr>pr_Row = demo_row ''k'' [] True, pr_Done = 0\<rparr>" "\<lparr>pr_Row = demo_row ''k'' ''2'' False, pr_Done = 1\<rparr>"
        "\<lambda>_. Some [''old'' \<mapsto> ''x'']" "[''old'' \<mapsto> ''x'']" "''old''" "''x''"]
    by (simp add: demo_ids)
qed

theorem execRow_arguments_witness:
  "snd (execRow pgDialect (demo_row ''k'' ''2'' False)) = [''k'', ''2''] \<and>
   length (snd (execRow pgDialect (demo_row ''k'' ''2'' False))) =
     snd (Upsert pgDialect ''t'' [''id''] (ColNames (demo_row ''k'' ''2'' False)))"
proof -
  have "distinct (map fst (row_Cols (demo_row ''k'' ''2'' False)))" by (simp add: demo_row_def)
  moreover have "ColNames (demo_row ''k'' ''2'' False) = [''c'']" by (simp add: ColNames_def sortStrings_sort demo_row_def)
  moreover have "row_Table (demo_row ''k'' ''2'' False) = ''t''" "row_PK (demo_row ''k'' ''2'' False) = [(''id'', ''k'')]"
    "row_Cols (demo_row ''k'' ''2'' False) = [(''c'', ''2'')]" "\<not> row_Del (demo_row ''k'' ''2'' False)" by (simp_all add: demo_row_def)
  ultimately show ?thesis
    using execRow_arguments [of "demo_row ''k'' ''2'' False" pgDialect] by (auto simp: demo_ids dedupe_distinct)
qed

end
