(* ===== verification/DorisSink.thy ===== *)
theory DorisSink
  imports SqlSink Position "HOL-Library.Product_Lexorder"
begin

text \<open>
  The Doris sink (\<^verbatim>\<open>internal/dorissink/sink.go\<close>): admission with backpressure, the sequence column,
  the flush that coalesces a batch, groups it by table and column shape and loads every group,
  and the notifications that move the checkpoint. A load request is modelled up to its JSON and
  HTTP encoding; the answer of the frontend is a parameter. What was accepted and what was loaded
  is recorded in fields of their own for the properties.
\<close>

unbundle bit_operations_syntax

section \<open>Configuration and state\<close>

record DorisConfig =
  ds_Fenodes :: "bytes list"
  ds_User :: bytes
  ds_Password :: bytes
  ds_MaxBatchRows :: int
  ds_MaxQueueRows :: int
  ds_FlushEvery :: int
  ds_HTTPTimeout :: int
  ds_SequenceColumn :: bytes

record entry =
  e_pr :: PendingRow
  e_pos :: position

record DorisSink =
  ds_cfg :: DorisConfig
  ds_rules :: "RuleConfig list"
  ds_queue :: "entry list"
  ds_room :: nat
  ds_wake :: bool
  ds_termErr :: bool
  ds_closed :: bool
  ds_labelSeq :: nat
  ds_nextTable :: nat
  ds_notified :: "position list"
  ds_accepted :: "entry list"
  ds_loaded :: "PendingRow list"
  ds_batches :: "entry list list"

datatype doris_new_error = EDorisRule map_error | ENoFenodes

definition doris_defaults :: "DorisConfig \<Rightarrow> DorisConfig" where
  "doris_defaults c =
     (let batch = (if ds_MaxBatchRows c \<le> 0 then 1000 else ds_MaxBatchRows c)
      in c\<lparr>ds_MaxBatchRows := batch,
           ds_MaxQueueRows := (if ds_MaxQueueRows c \<le> 0 then 4 * batch else ds_MaxQueueRows c),
           ds_FlushEvery := (if ds_FlushEvery c \<le> 0 then 500000000 else ds_FlushEvery c),
           ds_HTTPTimeout := (if ds_HTTPTimeout c \<le> 0 then 60000000000 else ds_HTTPTimeout c)\<rparr>)"

definition doris_New :: "DorisConfig \<Rightarrow> RuleConfig list \<Rightarrow> doris_new_error + DorisSink" where
  "doris_New c rules =
     (case compile_all rules of
        Inl e \<Rightarrow> Inl (EDorisRule e)
      | Inr rs \<Rightarrow>
          if ds_Fenodes c = [] then Inl ENoFenodes
          else Inr \<lparr>ds_cfg = doris_defaults c, ds_rules = rs, ds_queue = [], ds_room = 0, ds_wake = False, ds_termErr = False,
                    ds_closed = False, ds_labelSeq = 0, ds_nextTable = 0, ds_notified = [], ds_accepted = [], ds_loaded = [],
                    ds_batches = []\<rparr>)"

section \<open>Emitting\<close>

text \<open>The value of the sequence column: file number and offset in one signed 64-bit integer.\<close>

definition seq_value :: "position \<Rightarrow> int" where
  "seq_value p = sint (push_bit 40 (ucast (Filenum p)) OR Offset p :: 64 word)"

datatype doris_admit = DNil | DErr map_error | DBlocked | DAdmitted PendingRow position DorisSink

text \<open>
  \<open>Emit\<close> up to its lock: the mapping, and a slot of the room channel, on which a full sink blocks;
  then the locked region, which gives the slot back when the sink is closed or has failed.
\<close>

definition emit_admit :: "(bytes \<Rightarrow> strmap option) \<Rightarrow> (bytes \<Rightarrow> bytes option) \<Rightarrow> Event \<Rightarrow> DorisSink \<Rightarrow> doris_admit" where
  "emit_admit obj str ev s =
     (if EvPhase ev = PhaseHeartbeat then DNil
      else case RowForEvent obj str (ds_rules s) ev of
             Inl e \<Rightarrow> if e = ErrNoMatch then DNil else DErr e
           | Inr row \<Rightarrow>
               if int (ds_room s) \<ge> ds_MaxQueueRows (ds_cfg s) then DBlocked
               else let pos = \<lparr>Filenum = SrcFilenum (EvSource ev), Offset = SrcOffset (EvSource ev)\<rparr>;
                        row' = (if ds_SequenceColumn (ds_cfg s) \<noteq> []
                                then row\<lparr>row_Cols := AList.update (ds_SequenceColumn (ds_cfg s)) (format_int (seq_value pos)) (row_Cols row)\<rparr>
                                else row)
                    in DAdmitted \<lparr>pr_Row = row', pr_Done = 0\<rparr> pos (s\<lparr>ds_room := ds_room s + 1\<rparr>))"

definition emit_enqueue :: "PendingRow \<Rightarrow> position \<Rightarrow> DorisSink \<Rightarrow> bool \<times> DorisSink" where
  "emit_enqueue pr pos s =
     (if ds_closed s \<or> ds_termErr s then (False, s\<lparr>ds_room := ds_room s - 1\<rparr>)
      else (True, s\<lparr>ds_queue := ds_queue s @ [\<lparr>e_pr = pr, e_pos = pos\<rparr>],
                    ds_wake := ds_wake s \<or> int (length (ds_queue s)) \<ge> ds_MaxBatchRows (ds_cfg s),
                    ds_accepted := ds_accepted s @ [\<lparr>e_pr = pr, e_pos = pos\<rparr>]\<rparr>))"

section \<open>Stream loads\<close>

definition delete_sign :: bytes where
  "delete_sign = ''__DORIS_DELETE_SIGN__''"

definition rowShape :: "Row \<Rightarrow> bytes" where
  "rowShape r =
     join '','' (sort_strings (map fst (row_PK r) @ map fst (row_Cols r) @ (if row_Del r then [delete_sign] else [])))"

definition last_dot :: "bytes \<Rightarrow> nat option" where
  "last_dot t = (if CHR ''.'' \<in> set t then Some (length t - 1 - length (takeWhile (\<lambda>c. c \<noteq> CHR ''.'') (rev t))) else None)"

definition splitTable :: "bytes \<Rightarrow> bytes \<times> bytes" where
  "splitTable t =
     (case last_dot t of
        Some i \<Rightarrow> if i > 0 then (take i t, drop (i + 1) t) else (''information_schema'', t)
      | None \<Rightarrow> (''information_schema'', t))"

definition truncate :: "bytes \<Rightarrow> nat \<Rightarrow> bytes" where
  "truncate s n = (if length s \<le> n then s else take n s @ ''...'')"

definition isLoopback :: "bytes \<Rightarrow> bool" where
  "isLoopback host \<longleftrightarrow> host \<in> {''127.0.0.1'', ''localhost'', ''::1''} \<or> has_prefix host ''127.''"

text \<open>The redirect policy of the HTTP client: the host of the request after the redirect.\<close>

definition CheckRedirect :: "bytes \<Rightarrow> bytes \<Rightarrow> bytes list \<Rightarrow> (bytes \<times> bytes) option" where
  "CheckRedirect host port via =
     (if length via > 2 then None
      else if via \<noteq> [] \<and> isLoopback host \<and> \<not> isLoopback (hd via) then Some (hd via, port)
      else Some (host, port))"

definition nextFe :: "DorisSink \<Rightarrow> bytes \<times> DorisSink" where
  "nextFe s = (ds_Fenodes (ds_cfg s) ! (ds_nextTable s mod length (ds_Fenodes (ds_cfg s))), s\<lparr>ds_nextTable := ds_nextTable s + 1\<rparr>)"

definition load_label :: "bytes \<Rightarrow> bytes \<Rightarrow> int \<Rightarrow> nat \<Rightarrow> bytes" where
  "load_label db tbl now n =
     ''pikawire-'' @ map (\<lambda>c. if c = CHR ''.'' then CHR ''_'' else c) db @ ''-'' @ tbl @ ''-'' @ format_int now @ ''-'' @ format_uint n"

datatype cell = CStr bytes | CSign

definition load_columns :: "PendingRow list \<Rightarrow> bytes list" where
  "load_columns rows =
     (let pks = concat (map (\<lambda>p. map fst (row_PK (pr_Row p))) rows);
          present = filter (\<lambda>c. c \<noteq> []) (concat (map (\<lambda>p. map fst (row_Cols (pr_Row p))) rows));
          cols = remdups pks @ remdups (filter (\<lambda>c. c \<notin> set pks) present)
      in sort_strings (cols @ (if \<exists>p \<in> set rows. row_Del (pr_Row p) then [delete_sign] else [])))"

definition load_obj :: "Row \<Rightarrow> (bytes \<times> cell) list" where
  "load_obj r =
     (let o1 = fold (\<lambda>(c, v) m. AList.update c (CStr v) m) (row_PK r) [];
          o2 = fold (\<lambda>(c, v) m. AList.update c (CStr v) m) (row_Cols r) o1
      in if row_Del r then AList.update delete_sign CSign o2 else o2)"

record LoadRequest =
  lr_fe :: bytes
  lr_db :: bytes
  lr_tbl :: bytes
  lr_label :: bytes
  lr_columns :: "bytes list"
  lr_rows :: "(bytes \<times> cell) list list"
  lr_sequence_col :: bytes
  lr_user :: bytes
  lr_password :: bytes

datatype LoadResponse = LTransportErr | LBadBody | LStatus bytes

definition load_ok :: "LoadResponse \<Rightarrow> bool" where
  "load_ok r = (case r of LStatus st \<Rightarrow> st \<in> {''Success'', ''Label Already Exists''} | _ \<Rightarrow> False)"

definition load_request :: "int \<Rightarrow> bytes \<Rightarrow> PendingRow list \<Rightarrow> DorisSink \<Rightarrow> LoadRequest \<times> DorisSink" where
  "load_request now table rows s =
     (let (db, tbl) = splitTable table; (fe, s1) = nextFe s; n = ds_labelSeq s1 + 1
      in (\<lparr>lr_fe = fe, lr_db = db, lr_tbl = tbl, lr_label = load_label db tbl now n, lr_columns = load_columns rows,
           lr_rows = map (\<lambda>p. load_obj (pr_Row p)) rows, lr_sequence_col = ds_SequenceColumn (ds_cfg s),
           lr_user = ds_User (ds_cfg s), lr_password = ds_Password (ds_cfg s)\<rparr>, s1\<lparr>ds_labelSeq := n\<rparr>))"

definition streamLoad :: "(LoadRequest \<Rightarrow> LoadResponse) \<Rightarrow> int \<Rightarrow> bytes \<Rightarrow> PendingRow list \<Rightarrow> DorisSink \<Rightarrow> bool \<times> DorisSink" where
  "streamLoad fe now table rows s =
     (let (req, s1) = load_request now table rows s
      in if load_ok (fe req) then (True, s1\<lparr>ds_loaded := ds_loaded s1 @ rows\<rparr>) else (False, s1))"

section \<open>Flushing\<close>

text \<open>\<open>flush\<close> takes the queue and gives its slots back, then works on the batch without the lock.\<close>

definition flush_take :: "DorisSink \<Rightarrow> entry list \<times> DorisSink" where
  "flush_take s = (ds_queue s, s\<lparr>ds_queue := [], ds_room := ds_room s - length (ds_queue s)\<rparr>)"

definition group_key :: "PendingRow \<Rightarrow> bytes \<times> bytes" where
  "group_key p = (row_Table (pr_Row p), rowShape (pr_Row p))"

definition load_groups :: "PendingRow list \<Rightarrow> ((bytes \<times> bytes) \<times> PendingRow list) list" where
  "load_groups batched = map (\<lambda>k. (k, filter (\<lambda>p. group_key p = k) batched)) (sort (remdups (map group_key batched)))"

fun load_all :: "(LoadRequest \<Rightarrow> LoadResponse) \<Rightarrow> int \<Rightarrow> ((bytes \<times> bytes) \<times> PendingRow list) list \<Rightarrow> DorisSink \<Rightarrow> bool \<times> DorisSink" where
  "load_all fe now [] s = (True, s)"
| "load_all fe now ((k, rows) # gs) s =
     (case streamLoad fe now (fst k) rows s of
        (False, s1) \<Rightarrow> (False, s1\<lparr>ds_termErr := True\<rparr>)
      | (True, s1) \<Rightarrow> load_all fe now gs s1)"

definition batch_max :: "entry list \<Rightarrow> position" where
  "batch_max batch = fold (\<lambda>e mx. if After (e_pos e) mx then e_pos e else mx) batch zero_pos"

definition flush_load :: "(LoadRequest \<Rightarrow> LoadResponse) \<Rightarrow> int \<Rightarrow> bool \<Rightarrow> entry list \<Rightarrow> DorisSink \<Rightarrow> DorisSink" where
  "flush_load fe now notified_ok batch s =
     (if batch = [] then s
      else case load_all fe now (load_groups (Coalesce (map e_pr batch))) s of
             (False, s1) \<Rightarrow> s1
           | (True, s1) \<Rightarrow>
               let mx = batch_max batch; s2 = s1\<lparr>ds_batches := ds_batches s1 @ [batch]\<rparr>
               in if IsZero mx then s2
                  else s2\<lparr>ds_notified := ds_notified s2 @ [mx], ds_termErr := ds_termErr s2 \<or> \<not> notified_ok\<rparr>)"

definition flush :: "(LoadRequest \<Rightarrow> LoadResponse) \<Rightarrow> int \<Rightarrow> bool \<Rightarrow> DorisSink \<Rightarrow> DorisSink" where
  "flush fe now notified_ok s = (case flush_take s of (batch, s1) \<Rightarrow> flush_load fe now notified_ok batch s1)"

text \<open>
  \<open>Close\<close>: no row is accepted once the sink is closed, so its loop flushes at most one batch.
\<close>

definition doris_Close :: "(LoadRequest \<Rightarrow> LoadResponse) \<Rightarrow> int \<Rightarrow> bool \<Rightarrow> DorisSink \<Rightarrow> bool \<times> DorisSink" where
  "doris_Close fe now notified_ok s =
     (if ds_closed s then (True, s)
      else let s1 = flush fe now notified_ok (s\<lparr>ds_closed := True\<rparr>) in (\<not> ds_termErr s1, s1))"


section \<open>Interleavings\<close>

text \<open>
  The emitter between admission and enqueueing, and the commit loop between taking a batch and
  having loaded it.
\<close>

record dsys =
  d_sink :: DorisSink
  d_emit :: "(PendingRow \<times> position) option"
  d_batch :: "entry list option"

inductive dstep :: "dsys \<Rightarrow> dsys \<Rightarrow> bool" where
  d_admit: "d_emit s = None \<Longrightarrow> emit_admit obj str ev (d_sink s) = DAdmitted pr pos k \<Longrightarrow>
    dstep s (s\<lparr>d_sink := k, d_emit := Some (pr, pos)\<rparr>)"
| d_enqueue: "d_emit s = Some (pr, pos) \<Longrightarrow> emit_enqueue pr pos (d_sink s) = (ok, k) \<Longrightarrow>
    dstep s (s\<lparr>d_sink := k, d_emit := None\<rparr>)"
| d_take: "d_batch s = None \<Longrightarrow> flush_take (d_sink s) = (batch, k) \<Longrightarrow>
    dstep s (s\<lparr>d_sink := k, d_batch := Some batch\<rparr>)"
| d_load: "d_batch s = Some batch \<Longrightarrow>
    dstep s (s\<lparr>d_sink := flush_load fe now notified_ok batch (d_sink s), d_batch := None\<rparr>)"
| d_close: "dstep s (s\<lparr>d_sink := (d_sink s)\<lparr>ds_closed := True\<rparr>\<rparr>)"

inductive dreach :: "dsys \<Rightarrow> dsys \<Rightarrow> bool" for s0 where
  dreach_start: "dreach s0 s0"
| dreach_step: "dreach s0 s \<Longrightarrow> dstep s t \<Longrightarrow> dreach s0 t"

definition dstart :: "DorisSink \<Rightarrow> dsys" where
  "dstart k = \<lparr>d_sink = k, d_emit = None, d_batch = None\<rparr>"

lemma load_all_frame:
  "load_all fe now gs s = (ok, s') \<Longrightarrow>
     ds_queue s' = ds_queue s \<and> ds_room s' = ds_room s \<and> ds_cfg s' = ds_cfg s \<and> ds_accepted s' = ds_accepted s \<and>
     ds_notified s' = ds_notified s \<and> ds_batches s' = ds_batches s \<and>
     (ok \<longrightarrow> ds_termErr s' = ds_termErr s \<and> ds_loaded s' = ds_loaded s @ concat (map snd gs)) \<and> (\<not> ok \<longrightarrow> ds_termErr s')"
proof (induction fe now gs s rule: load_all.induct)
  case (2 fe now k rows gs s)
  obtain b s1 where b: "streamLoad fe now (fst k) rows s = (b, s1)" by fastforce
  have f: "ds_queue s1 = ds_queue s \<and> ds_room s1 = ds_room s \<and> ds_cfg s1 = ds_cfg s \<and> ds_accepted s1 = ds_accepted s \<and>
     ds_notified s1 = ds_notified s \<and> ds_batches s1 = ds_batches s \<and> ds_termErr s1 = ds_termErr s \<and>
     (b \<longrightarrow> ds_loaded s1 = ds_loaded s @ rows)"
    using b by (auto simp: streamLoad_def load_request_def nextFe_def Let_def split: prod.splits if_splits)
  show ?case
  proof (cases b)
    case True
    then show ?thesis using "2.prems" b f "2.IH" [of b s1] by auto
  next
    case False
    then show ?thesis using "2.prems" b f by auto
  qed
qed simp

section \<open>Backpressure\<close>

definition room_inv :: "dsys \<Rightarrow> bool" where
  "room_inv s \<longleftrightarrow> ds_room (d_sink s) = length (ds_queue (d_sink s)) + (if d_emit s = None then 0 else 1) \<and>
     int (ds_room (d_sink s)) \<le> ds_MaxQueueRows (ds_cfg (d_sink s))"

lemma flush_load_frame:
  "ds_queue (flush_load fe now ok batch s) = ds_queue s \<and> ds_room (flush_load fe now ok batch s) = ds_room s \<and>
   ds_cfg (flush_load fe now ok batch s) = ds_cfg s \<and> ds_accepted (flush_load fe now ok batch s) = ds_accepted s"
proof -
  obtain b s1 where "load_all fe now (load_groups (Coalesce (map e_pr batch))) s = (b, s1)" by fastforce
  from load_all_frame [OF this] this show ?thesis by (auto simp: flush_load_def Let_def split: bool.splits)
qed

lemma room_inv_step: "dstep s t \<Longrightarrow> room_inv s \<Longrightarrow> room_inv t"
proof (induction rule: dstep.induct)
  case (d_admit s obj str ev pr pos k)
  then show ?case by (auto simp: room_inv_def emit_admit_def Let_def split: if_splits sum.splits)
next
  case (d_enqueue s pr pos ok k)
  then show ?case by (auto simp: room_inv_def emit_enqueue_def split: if_splits)
next
  case (d_take s batch k)
  then show ?case by (auto simp: room_inv_def flush_take_def)
next
  case (d_load s batch fe now notified_ok)
  then show ?case by (simp add: room_inv_def flush_load_frame)
next
  case (d_close s)
  then show ?case by (simp add: room_inv_def)
qed

lemma doris_New_fields:
  assumes "doris_New c rules = Inr k"
  shows "ds_queue k = []" "ds_room k = 0" "ds_MaxQueueRows (ds_cfg k) > 0" "ds_accepted k = []" "ds_loaded k = []" "ds_batches k = []"
    "ds_notified k = []" "\<not> ds_termErr k" "ds_MaxQueueRows (ds_cfg k) = ds_MaxQueueRows (doris_defaults c)"
  using assms by (auto simp: doris_New_def doris_defaults_def Let_def split: sum.splits if_splits)

lemma dstep_cfg: "dstep s t \<Longrightarrow> ds_cfg (d_sink t) = ds_cfg (d_sink s)"
  by (induction rule: dstep.induct)
    (auto simp: emit_admit_def emit_enqueue_def flush_take_def flush_load_frame Let_def split: if_splits sum.splits)

text \<open>
  C33. The queue is bounded: in every interleaving of emitter and commit loop at most the configured
  number of rows waits, four times the batch size by default.
\<close>
theorem doris_queue_bounded:
  assumes "doris_New c rules = Inr k" "dreach (dstart k) s"
  shows "int (length (ds_queue (d_sink s))) \<le> ds_MaxQueueRows (doris_defaults c)"
proof -
  note k = doris_New_fields [OF assms(1)]
  have "room_inv s \<and> ds_cfg (d_sink s) = ds_cfg k"
    using assms(2)
  proof (induction rule: dreach.induct)
    case dreach_start
    then show ?case using k by (simp add: room_inv_def dstart_def)
  next
    case (dreach_step s t)
    then show ?case using room_inv_step dstep_cfg by metis
  qed
  then show ?thesis using k(9) by (auto simp: room_inv_def split: if_splits)
qed

section \<open>What a flush does\<close>

definition load_order :: "entry list \<Rightarrow> PendingRow list" where
  "load_order batch = concat (map snd (load_groups (Coalesce (map e_pr batch))))"

lemma mset_groups:
  "distinct ks \<Longrightarrow> f ` set xs \<subseteq> set ks \<Longrightarrow> mset (concat (map (\<lambda>k. filter (\<lambda>x. f x = k) xs) ks)) = mset xs"
proof (induction ks arbitrary: xs)
  case (Cons k ks)
  let ?ys = "filter (\<lambda>x. f x \<noteq> k) xs"
  have "map (\<lambda>k'. filter (\<lambda>x. f x = k') xs) ks = map (\<lambda>k'. filter (\<lambda>x. f x = k') ?ys) ks"
    using Cons.prems(1) by (auto simp: filter_filter intro!: filter_cong)
  moreover have "mset (concat (map (\<lambda>k'. filter (\<lambda>x. f x = k') ?ys) ks)) = mset ?ys"
    using Cons.prems by (intro Cons.IH) auto
  ultimately have "mset (concat (map (\<lambda>k. filter (\<lambda>x. f x = k) xs) (k # ks))) = mset (filter (\<lambda>x. f x = k) xs) + mset ?ys"
    by (simp only: list.map concat.simps mset_append)
  then show ?case using multiset_partition [of "mset xs" "\<lambda>x. f x = k"] by (simp only: mset_filter)
qed simp

lemma mset_load_order: "mset (load_order batch) = mset (Coalesce (map e_pr batch))"
proof -
  let ?c = "Coalesce (map e_pr batch)"
  have "load_order batch = concat (map (\<lambda>k. filter (\<lambda>p. group_key p = k) ?c) (sort (remdups (map group_key ?c))))"
    by (simp add: load_order_def load_groups_def comp_def)
  then show ?thesis using mset_groups [of "sort (remdups (map group_key ?c))" group_key ?c] by simp
qed

context row_store
begin

lemma run_permuted:
  assumes "mset xs = mset ys" "distinct (map (\<lambda>q. row_id (pr_Row q)) ys)"
  shows "fold (\<lambda>q. run (pr_Row q)) xs = fold (\<lambda>q. run (pr_Row q)) ys"
proof (rule fold_multiset_equiv [OF _ assms(1)])
  fix a b
  assume "a \<in> set xs" "b \<in> set xs"
  then have ab: "a \<in> set ys" "b \<in> set ys" using mset_eq_setD [OF assms(1)] by auto
  show "run (pr_Row a) \<circ> run (pr_Row b) = run (pr_Row b) \<circ> run (pr_Row a)"
  proof (cases "a = b")
    case False
    then have "row_id (pr_Row a) \<noteq> row_id (pr_Row b)" using ab assms(2) by (auto simp: distinct_map inj_on_def)
    then show ?thesis by (auto simp: run_commute)
  qed simp
qed

lemma load_order_run:
  assumes "rows_ok (map pr_Row (map e_pr batch))" "no_revive (map pr_Row (map e_pr batch))"
  shows "fold (\<lambda>q. run (pr_Row q)) (load_order batch) = fold (\<lambda>q. run (pr_Row q)) (map e_pr batch)"
  using run_permuted [OF mset_load_order Coalesce_ids(1) [OF assms(1)]] coalesce_run [OF assms] by auto

end


definition doris_inv :: "dsys \<Rightarrow> bool" where
  "doris_inv s \<longleftrightarrow> \<not> ds_termErr (d_sink s) \<longrightarrow>
     ds_accepted (d_sink s) = concat (ds_batches (d_sink s)) @ (case d_batch s of None \<Rightarrow> [] | Some b \<Rightarrow> b) @ ds_queue (d_sink s) \<and>
     ds_loaded (d_sink s) = concat (map load_order (ds_batches (d_sink s))) \<and>
     ds_notified (d_sink s) = filter (\<lambda>p. \<not> IsZero p) (map batch_max (ds_batches (d_sink s)))"

lemma flush_load_cases:
  obtains "batch = []" "flush_load fe now ok batch s = s" | "ds_termErr (flush_load fe now ok batch s)"
  | "\<not> ds_termErr s" "batch \<noteq> []" "ds_batches (flush_load fe now ok batch s) = ds_batches s @ [batch]"
    "ds_loaded (flush_load fe now ok batch s) = ds_loaded s @ load_order batch"
    "ds_notified (flush_load fe now ok batch s) = ds_notified s @ filter (\<lambda>p. \<not> IsZero p) [batch_max batch]"
proof -
  obtain b s1 where l: "load_all fe now (load_groups (Coalesce (map e_pr batch))) s = (b, s1)" by fastforce
  note f = load_all_frame [OF l]
  show thesis
  proof (cases "batch = [] \<or> ds_termErr (flush_load fe now ok batch s)")
    case True
    then show thesis using that(1,2) by (auto simp: flush_load_def)
  next
    case False
    then have "b" "\<not> ds_termErr s" using l f by (auto simp: flush_load_def Let_def split: bool.splits if_splits)
    then show thesis using that(3) False l f by (auto simp: flush_load_def load_order_def Let_def)
  qed
qed

lemma doris_inv_step: "dstep s t \<Longrightarrow> doris_inv s \<Longrightarrow> doris_inv t"
proof (induction rule: dstep.induct)
  case (d_admit s obj str ev pr pos k)
  then show ?case by (auto simp: doris_inv_def emit_admit_def Let_def split: if_splits sum.splits)
next
  case (d_enqueue s pr pos ok k)
  then show ?case by (auto simp: doris_inv_def emit_enqueue_def split: if_splits)
next
  case (d_take s batch k)
  then show ?case by (auto simp: doris_inv_def flush_take_def)
next
  case (d_load s batch fe now notified_ok)
  show ?case
  proof (cases rule: flush_load_cases [of batch fe now notified_ok "d_sink s"])
    case 1
    then show ?thesis using d_load by (simp add: doris_inv_def)
  next
    case 2
    then show ?thesis by (simp add: doris_inv_def)
  next
    case 3
    then show ?thesis using d_load by (simp add: doris_inv_def flush_load_frame)
  qed
next
  case (d_close s)
  then show ?case by (simp add: doris_inv_def)
qed

lemma doris_inv_reach: "doris_New c rules = Inr k \<Longrightarrow> dreach (dstart k) s \<Longrightarrow> doris_inv s"
proof -
  assume k: "doris_New c rules = Inr k" and "dreach (dstart k) s"
  from this(2) show ?thesis
  proof (induction rule: dreach.induct)
    case dreach_start
    then show ?case using doris_New_fields [OF k] by (simp add: doris_inv_def dstart_def)
  next
    case (dreach_step s t)
    then show ?case using doris_inv_step by blast
  qed
qed

lemma batch_max_in: "batch_max batch = zero_pos \<or> batch_max batch \<in> e_pos ` set batch"
proof -
  have "fold (\<lambda>e mx. if After (e_pos e) mx then e_pos e else mx) batch z \<in> insert z (e_pos ` set batch)" for z
    by (induction batch arbitrary: z) auto
  then show ?thesis by (auto simp: batch_max_def)
qed

lemma load_orders_run:
  "\<forall>b \<in> set bs. rows_ok (map pr_Row (map e_pr b)) \<and> no_revive (map pr_Row (map e_pr b)) \<Longrightarrow>
     fold (\<lambda>q. apply_row (pr_Row q)) (concat (map load_order bs)) db = fold (\<lambda>q. apply_row (pr_Row q)) (map e_pr (concat bs)) db"
  by (induction bs arbitrary: db) (simp_all add: tables.load_order_run)


section \<open>Sequence column and labels\<close>

lemma push_or_int: "0 \<le> b \<Longrightarrow> b < 2 ^ n \<Longrightarrow> push_bit n a OR b = a * 2 ^ n + b" for a b :: int
proof -
  assume b: "0 \<le> b" "b < 2 ^ n"
  then have "take_bit n b = b" by (simp add: take_bit_int_eq_self)
  then have "push_bit n a AND b = 0" 
    by (metis (no_types, lifting) bit_and_iff bit_push_bit_iff bit_take_bit_iff bit_eqI bit_0_eq bot_apply bot_bool_def leD)
  then show ?thesis by (simp add: disjunctive_add_eq_or [symmetric] push_bit_eq_mult)
qed

lemma seq_value_eq:
  assumes "Filenum p < 2 ^ 23" "Offset p < 2 ^ 40"
  shows "seq_value p = uint (Filenum p) * 2 ^ 40 + uint (Offset p)"
proof -
  have f: "uint (Filenum p) < 2 ^ 23" and b: "uint (Offset p) < 2 ^ 40"
    using assms by (simp_all add: word_less_def)
  let ?w = "push_bit 40 (ucast (Filenum p)) OR Offset p :: 64 word"
  have u: "uint (ucast (Filenum p) :: 64 word) = uint (Filenum p)" using f by (simp add: unsigned_ucast_eq take_bit_int_eq_self_iff) 
  have "push_bit 40 (uint (Filenum p)) < 2 ^ 64" using f by (simp add: push_bit_eq_mult)
  then have "uint (push_bit 40 (ucast (Filenum p)) :: 64 word) = push_bit 40 (uint (Filenum p))"
    by (simp only: unsigned_push_bit_eq u) (simp add: take_bit_int_eq_self_iff)
  then have w: "uint ?w = uint (Filenum p) * 2 ^ 40 + uint (Offset p)"
    using push_or_int [of "uint (Offset p)" 40] b by (simp add: unsigned_or_eq)
  then have "uint ?w < 2 ^ 63" using f b by simp
  then have "- (2 ^ 63) \<le> uint ?w \<and> uint ?w < 2 ^ 63" using uint_ge_0 [of ?w] by linarith
  then have "sint ?w = uint ?w" by (simp add: sint_uint signed_take_bit_int_eq_self_iff)
  then show ?thesis using w by (simp add: seq_value_def)
qed


lemma lex_less_iff:
  "0 \<le> x \<Longrightarrow> x < 2 ^ 40 \<Longrightarrow> 0 \<le> y \<Longrightarrow> y < 2 ^ 40 \<Longrightarrow>
     a * 2 ^ 40 + x < b * 2 ^ 40 + y \<longleftrightarrow> a < b \<or> (a = b \<and> x < y)" for a b x y :: int
  by (cases a b rule: linorder_cases) auto

text \<open>
  The sequence column orders rows as the binlog does for file numbers below \<open>2\<^sup>2\<^sup>3\<close> and offsets
  below \<open>2\<^sup>4\<^sup>0\<close>.
\<close>
theorem seq_value_monotone:
  assumes "Filenum p < 2 ^ 23" "Offset p < 2 ^ 40" "Filenum q < 2 ^ 23" "Offset q < 2 ^ 40"
  shows "seq_value p < seq_value q \<longleftrightarrow> p < q"
proof -
  have "uint (Offset p) < 2 ^ 40" "uint (Offset q) < 2 ^ 40" using assms by (simp_all add: word_less_def)
  moreover have "p < q \<longleftrightarrow> uint (Filenum p) < uint (Filenum q) \<or>
      (uint (Filenum p) = uint (Filenum q) \<and> uint (Offset p) < uint (Offset q))"
    by (auto simp: less_position_ext_def word_less_def word_uint_eq_iff)
  moreover have "0 \<le> uint (Offset p)" "0 \<le> uint (Offset q)" by simp_all
  ultimately show ?thesis using assms lex_less_iff by (simp only: seq_value_eq)
qed

text \<open>
  Within one process no two loads share a label, whatever their tables and times, so the answer
  that a label already exists is never about another batch of this process.
\<close>
theorem load_labels_differ:
  "load_label db tbl now n = load_label db' tbl' now' m \<Longrightarrow> n = m"
proof -
  assume a: "load_label db tbl now n = load_label db' tbl' now' m"
  have split: "rev (load_label db tbl now n) = rev (format_uint n) @ CHR ''-'' # rev (''pikawire-'' @ map (\<lambda>c. if c = CHR ''.'' then CHR ''_'' else c) db @ ''-'' @ tbl @ ''-'' @ format_int now)" for db tbl now n
    by (simp add: load_label_def)
  have "list_all is_digit (rev (format_uint i))" for i using format_uint_digits [of i] by (simp add: list_all_iff)
  moreover have "\<not> is_digit (CHR ''-'')" by (simp add: is_digit_def)
  ultimately have "rev (format_uint n) = rev (format_uint m)"
    using digit_run_unique arg_cong [OF a, of rev] unfolding split by blast
  then show ?thesis using format_uint_inj by simp
qed


section \<open>Schedules\<close>

datatype dact = AAdmit Event | AEnqueue | ATakeBatch | ALoad bool

definition fixed_fe :: "bool \<Rightarrow> LoadRequest \<Rightarrow> LoadResponse" where
  "fixed_fe ok req = (if ok then LStatus ''Success'' else LTransportErr)"

fun dact_step :: "dact \<Rightarrow> dsys \<Rightarrow> dsys option" where
  "dact_step (AAdmit ev) s =
     (if d_emit s \<noteq> None then None
      else case emit_admit (\<lambda>_. None) (\<lambda>_. None) ev (d_sink s) of
             DAdmitted pr pos k \<Rightarrow> Some (s\<lparr>d_sink := k, d_emit := Some (pr, pos)\<rparr>) | _ \<Rightarrow> None)"
| "dact_step AEnqueue s =
     (case d_emit s of None \<Rightarrow> None
      | Some (pr, pos) \<Rightarrow> Some (s\<lparr>d_sink := snd (emit_enqueue pr pos (d_sink s)), d_emit := None\<rparr>))"
| "dact_step ATakeBatch s =
     (if d_batch s \<noteq> None then None
      else Some (s\<lparr>d_sink := snd (flush_take (d_sink s)), d_batch := Some (fst (flush_take (d_sink s)))\<rparr>))"
| "dact_step (ALoad ok) s =
     (case d_batch s of None \<Rightarrow> None
      | Some b \<Rightarrow> Some (s\<lparr>d_sink := flush_load (fixed_fe ok) 0 True b (d_sink s), d_batch := None\<rparr>))"

fun dexec :: "dact list \<Rightarrow> dsys \<Rightarrow> dsys option" where
  "dexec [] s = Some s"
| "dexec (a # as) s = (case dact_step a s of None \<Rightarrow> None | Some t \<Rightarrow> dexec as t)"

lemma dact_step_dstep: "dact_step a s = Some t \<Longrightarrow> dstep s t"
proof (cases a)
  case (AAdmit ev)
  assume "dact_step a s = Some t"
  then show ?thesis using AAdmit
    by (cases "d_emit s"; cases "emit_admit (\<lambda>_. None) (\<lambda>_. None) ev (d_sink s)") (auto intro: d_admit)
next
  case AEnqueue
  assume "dact_step a s = Some t"
  then show ?thesis using AEnqueue by (auto split: option.splits intro: d_enqueue [OF _ prod.collapse [symmetric]])
next
  case ATakeBatch
  assume "dact_step a s = Some t"
  then show ?thesis using ATakeBatch by (auto split: if_splits intro: d_take [OF _ prod.collapse [symmetric]])
next
  case (ALoad ok)
  assume "dact_step a s = Some t"
  then show ?thesis using ALoad by (auto split: option.splits intro: d_load)
qed

lemma dreach_trans: "dreach s t \<Longrightarrow> dreach r s \<Longrightarrow> dreach r t"
  by (induction rule: dreach.induct) (auto intro: dreach.intros)

lemma dexec_dreach: "dexec as s = Some t \<Longrightarrow> dreach s t"
proof (induction as arbitrary: s)
  case (Cons a as)
  then obtain u where "dact_step a s = Some u" "dreach u t" by (auto split: option.splits)
  then show ?case using dreach_trans dreach.intros dact_step_dstep by metis
qed (auto intro: dreach.intros)

definition demo_doris_cfg :: DorisConfig where
  "demo_doris_cfg = \<lparr>ds_Fenodes = [''fe:8030''], ds_User = ''root'', ds_Password = [], ds_MaxBatchRows = 0, ds_MaxQueueRows = 0,
     ds_FlushEvery = 0, ds_HTTPTimeout = 0, ds_SequenceColumn = []\<rparr>"

definition demo_doris :: DorisSink where
  "demo_doris = (case doris_New demo_doris_cfg [user_rule] of Inr k \<Rightarrow> k | Inl e \<Rightarrow> undefined)"

definition at_offset :: "64 word \<Rightarrow> bytes \<Rightarrow> Event" where
  "at_offset off k = (user_event k)\<lparr>EvSource := (EvSource (user_event k))\<lparr>SrcOffset := off\<rparr>\<rparr>"

lemma demo_doris_New: "doris_New demo_doris_cfg [user_rule] = Inr demo_doris"
  by (simp add: demo_doris_def doris_New_def user_Compile demo_doris_cfg_def)

definition failing_acts :: "dact list" where
  "failing_acts = [AAdmit (at_offset 10 ''u:1:p''), AEnqueue, ATakeBatch, AAdmit (at_offset 20 ''u:2:p''), AEnqueue,
     ALoad False, ATakeBatch, ALoad True]"

definition summary :: "dsys \<Rightarrow> position list \<times> position list \<times> strmap list" where
  "summary s = (ds_notified (d_sink s), map e_pos (ds_accepted (d_sink s)), map (\<lambda>p. row_PK (pr_Row p)) (ds_loaded (d_sink s)))"

lemma failing_run:
  "map_option summary (dexec failing_acts (dstart demo_doris)) =
     Some ([\<lparr>Filenum = 1, Offset = 20\<rparr>], [\<lparr>Filenum = 1, Offset = 10\<rparr>, \<lparr>Filenum = 1, Offset = 20\<rparr>], [[(''uid'', ''2'')]])"
  by code_simp


text \<open>
  A failed batch does not freeze the checkpoint: a row accepted while the load of an earlier batch
  was under way is loaded and its position notified although that load failed, so the checkpoint
  passes rows that were never loaded and a restart skips them.
\<close>
theorem doris_checkpoint_passes_failed_batch:
  "\<exists>s. dreach (dstart demo_doris) s \<and> ds_notified (d_sink s) = [\<lparr>Filenum = 1, Offset = 20\<rparr>] \<and>
     map e_pos (ds_accepted (d_sink s)) = [\<lparr>Filenum = 1, Offset = 10\<rparr>, \<lparr>Filenum = 1, Offset = 20\<rparr>] \<and>
     map (\<lambda>p. row_PK (pr_Row p)) (ds_loaded (d_sink s)) = [[(''uid'', ''2'')]]"
  using failing_run dexec_dreach by (fastforce simp: summary_def)

section \<open>Witnesses\<close>

definition good_acts :: "dact list" where
  "good_acts = [AAdmit (at_offset 10 ''u:1:p''), AEnqueue, ATakeBatch, AAdmit (at_offset 20 ''u:2:p''), AEnqueue, ALoad True]"

lemma good_run:
  "map_option (\<lambda>s. (ds_termErr (d_sink s), map (map e_pos) (ds_batches (d_sink s)), map (map (\<lambda>e. pr_Row (e_pr e))) (ds_batches (d_sink s)), length (ds_queue (d_sink s))))
      (dexec good_acts (dstart demo_doris)) =
     Some (False, [[\<lparr>Filenum = 1, Offset = 10\<rparr>]],
       [[\<lparr>row_Table = ''users'', row_PK = [(''uid'', ''1'')], row_Cols = [(''n'', ''Ada'')], row_Del = False,
           row_Source = EvSource (at_offset 10 ''u:1:p'')\<rparr>]], 1)"
  by code_simp

lemma good_state:
  obtains s where "dreach (dstart demo_doris) s" "\<not> ds_termErr (d_sink s)"
    "map (map (\<lambda>e. pr_Row (e_pr e))) (ds_batches (d_sink s)) =
       [[\<lparr>row_Table = ''users'', row_PK = [(''uid'', ''1'')], row_Cols = [(''n'', ''Ada'')], row_Del = False,
           row_Source = EvSource (at_offset 10 ''u:1:p'')\<rparr>]]" "length (ds_queue (d_sink s)) = 1"
  using good_run dexec_dreach by fastforce

theorem doris_queue_bounded_witness:
  "\<exists>s. dreach (dstart demo_doris) s \<and> length (ds_queue (d_sink s)) = 1 \<and>
     int (length (ds_queue (d_sink s))) \<le> ds_MaxQueueRows (doris_defaults demo_doris_cfg)"
  using doris_queue_bounded [OF demo_doris_New] good_state by metis


theorem seq_value_monotone_witness:
  "seq_value \<lparr>Filenum = 1, Offset = 99\<rparr> < seq_value \<lparr>Filenum = 2, Offset = 0\<rparr>"
  using seq_value_monotone [of "\<lparr>Filenum = 1, Offset = 99\<rparr>" "\<lparr>Filenum = 2, Offset = 0\<rparr>"]
  by (simp add: less_position_ext_def)

theorem load_labels_differ_witness: "load_label ''db'' ''t'' 5 1 \<noteq> load_label ''db'' ''t'' 5 2"
  using load_labels_differ [of "''db''" "''t''" 5 1 "''db''" "''t''" 5 2] by auto

end
