(* ===== verification/Wire.thy ===== *)
theory Wire
  imports Resp
begin

text \<open>
  The wire formats around the pipeline: length-prefixed frames (\<^verbatim>\<open>internal/pbnet/conn.go\<close>), the RESP
  replies of the command client (\<^verbatim>\<open>internal/redisclient/client.go\<close>) and of the replication probe
  (\<^verbatim>\<open>internal/info/replication.go\<close>). A connection that delivers no more is the end of the byte list
  still to come. Protobuf messages are their bytes.
\<close>

section \<open>Frames\<close>

text \<open>\<^verbatim>\<open>binary.BigEndian.PutUint32\<close> and \<^verbatim>\<open>Uint32\<close>.\<close>

definition put_be32 :: "32 word \<Rightarrow> bytes" where
  "put_be32 w = rev (put_u32 w)"

definition get_be32 :: "bytes \<Rightarrow> 32 word" where
  "get_be32 b = get_u32 (rev (take 4 b))"

text \<open>
  \<open>writeFull\<close> over a writer given by the results of its successive calls: the number of bytes a
  call took, or an error. The result is whether everything was written, and what was.
\<close>

fun writeFull :: "nat option list \<Rightarrow> bytes \<Rightarrow> bytes \<Rightarrow> (bool \<times> bytes \<times> nat option list) option" where
  "writeFull ws [] out = Some (True, out, ws)"
| "writeFull [] (c # b) out = None"
| "writeFull (None # ws) (c # b) out = Some (False, out, ws)"
| "writeFull (Some n # ws) (c # b) out = writeFull ws (drop n (c # b)) (out @ take n (c # b))"

definition pb_Send :: "nat option list \<Rightarrow> bytes \<Rightarrow> bytes \<Rightarrow> (bool \<times> bytes \<times> nat option list) option" where
  "pb_Send ws data out =
     (if length data > 2 ^ 32 - 1 then Some (False, out, ws)
      else case writeFull ws (put_be32 (of_nat (length data))) out of
             None \<Rightarrow> None
           | Some (False, out1, ws1) \<Rightarrow> Some (False, out1, ws1)
           | Some (True, out1, ws1) \<Rightarrow> writeFull ws1 data out1)"

definition pb_Recv :: "bytes \<Rightarrow> (bytes \<times> bytes) option" where
  "pb_Recv s =
     (if length s < 4 then None
      else let n = unat (get_be32 s); r = drop 4 s
           in if length r < n then None else Some (take n r, drop n r))"

fun recv_all :: "nat \<Rightarrow> bytes \<Rightarrow> bytes list" where
  "recv_all 0 s = []"
| "recv_all (Suc k) s = (case pb_Recv s of None \<Rightarrow> [] | Some (m, r) \<Rightarrow> m # recv_all k r)"

section \<open>Replies of the command client\<close>

datatype Value = VNil | VBytes bytes | VArray "Value list" | VError bytes

datatype wire_error = EUnexpectedEOF | EBadNumber num_error | ELineEnding | EUnknownPrefix byte | EBulkEnding | EBulkTooLarge | EDepth

definition readLine :: "bytes \<Rightarrow> (wire_error, bytes \<times> bytes) outcome" where
  "readLine s =
     (if CHR 0x0A \<notin> set s then Error EUnexpectedEOF
      else let l = takeWhile (\<lambda>c. c \<noteq> CHR 0x0A) s; r = drop (Suc (length l)) s
           in if l = [] \<or> last l \<noteq> CHR 0x0D then Error ELineEnding else Ok (butlast l, r))"

text \<open>An allocation panics beyond the largest object, \<open>2\<^sup>4\<^sup>8\<close> bytes; a \<^verbatim>\<open>Value\<close> has 72.\<close>

definition read_bulk :: "int \<Rightarrow> bytes \<Rightarrow> (wire_error, bytes \<times> bytes) outcome" where
  "read_bulk n r =
     (if n + 2 > 2 ^ 48 then Panic
      else if length r < nat n + 2 then Error EUnexpectedEOF
      else Ok (take (nat n) r, drop (nat n + 2) r))"

text \<open>\<open>readValue\<close> recurses into arrays; the depth bound is never reached when it is the input length.\<close>

fun read_value :: "nat \<Rightarrow> bytes \<Rightarrow> (wire_error, Value \<times> bytes) outcome"
and read_values :: "nat \<Rightarrow> nat \<Rightarrow> bytes \<Rightarrow> (wire_error, Value list \<times> bytes) outcome" where
  "read_value 0 s = Error EDepth"
| "read_value (Suc f) [] = Error EUnexpectedEOF"
| "read_value (Suc f) (p # s) =
     (if p \<notin> {CHR ''$'', CHR ''*'', CHR '':'', CHR ''+'', CHR ''-''} then Error (EUnknownPrefix p)
      else case readLine s of
             Error e \<Rightarrow> Error e
           | Panic \<Rightarrow> Panic
           | Ok (line, r) \<Rightarrow>
               if p = CHR '':'' \<or> p = CHR ''+'' then Ok (VBytes line, r)
               else if p = CHR ''-'' then Ok (VError line, r)
               else case parse_int64 line of
                      Inl e \<Rightarrow> Error (EBadNumber e)
                    | Inr n \<Rightarrow>
                        if n < 0 then Ok (VNil, r)
                        else if p = CHR ''$'' then
                          (case read_bulk n r of Error e \<Rightarrow> Error e | Panic \<Rightarrow> Panic | Ok (b, r') \<Rightarrow> Ok (VBytes b, r'))
                        else if n * 72 > 2 ^ 48 then Panic
                        else (case read_values f (nat n) r of Error e \<Rightarrow> Error e | Panic \<Rightarrow> Panic | Ok (vs, r') \<Rightarrow> Ok (VArray vs, r')))"
| "read_values f 0 s = Ok ([], s)"
| "read_values f (Suc n) s =
     (case read_value f s of
        Error e \<Rightarrow> Error e
      | Panic \<Rightarrow> Panic
      | Ok (v, r) \<Rightarrow> (case read_values f n r of Error e \<Rightarrow> Error e | Panic \<Rightarrow> Panic | Ok (vs, r') \<Rightarrow> Ok (v # vs, r')))"

definition readValue :: "bytes \<Rightarrow> (wire_error, Value \<times> bytes) outcome" where
  "readValue s = read_value (Suc (length s)) s"

definition AsInt :: "Value \<Rightarrow> int option" where
  "AsInt v = (case v of VBytes b \<Rightarrow> (case parse_int64 b of Inl e \<Rightarrow> None | Inr n \<Rightarrow> Some n) | _ \<Rightarrow> None)"

text \<open>\<open>Do\<close>: the bytes written for a pipeline of commands, and the replies read for them.\<close>

definition do_request :: "bytes list list \<Rightarrow> bytes" where
  "do_request cmds = concat (map SerializeArray cmds)"

fun do_replies :: "nat \<Rightarrow> bytes \<Rightarrow> (wire_error, Value list \<times> bytes) outcome" where
  "do_replies 0 s = Ok ([], s)"
| "do_replies (Suc k) s =
     (case readValue s of
        Error e \<Rightarrow> Error e
      | Panic \<Rightarrow> Panic
      | Ok (v, r) \<Rightarrow> (case do_replies k r of Error e \<Rightarrow> Error e | Panic \<Rightarrow> Panic | Ok (vs, r') \<Rightarrow> Ok (v # vs, r')))"

section \<open>Replies of the replication probe\<close>

fun read_reply :: "nat \<Rightarrow> bytes \<Rightarrow> (wire_error, (byte \<times> bytes) \<times> bytes) outcome"
and read_elems :: "nat \<Rightarrow> nat \<Rightarrow> bool \<Rightarrow> bytes \<Rightarrow> bytes \<Rightarrow> (wire_error, (byte \<times> bytes) \<times> bytes) outcome" where
  "read_reply 0 s = Error EDepth"
| "read_reply (Suc f) [] = Error EUnexpectedEOF"
| "read_reply (Suc f) (p # s) =
     (if p \<notin> {CHR ''$'', CHR ''*'', CHR '':'', CHR ''+'', CHR ''-''} then Error (EUnknownPrefix p)
      else case readLine s of
             Error e \<Rightarrow> Error e
           | Panic \<Rightarrow> Panic
           | Ok (line, r) \<Rightarrow>
               if p \<in> {CHR '':'', CHR ''+'', CHR ''-''} then Ok ((p, line), r)
               else case parse_int64 line of
                      Inl e \<Rightarrow> Error (EBadNumber e)
                    | Inr n \<Rightarrow>
                        if p = CHR ''$'' then
                          if n < 0 then Ok ((p, []), r)
                          else if n > max_int64 - 2 then Error EBulkTooLarge
                          else if n + 2 > 2 ^ 48 then Panic
                          else if length r < nat n + 2 then Error EUnexpectedEOF
                          else if take 2 (drop (nat n) r) \<noteq> crlf then Error EBulkEnding
                          else Ok ((p, take (nat n) r), drop (nat n + 2) r)
                        else if n \<le> 0 then Ok ((p, []), r)
                        else read_elems f (nat n) True [] r)"
| "read_elems f 0 at_first first s = Ok ((CHR ''*'', first), s)"
| "read_elems f (Suc n) at_first first s =
     (case read_reply f s of
        Error e \<Rightarrow> Error e
      | Panic \<Rightarrow> Panic
      | Ok ((et, ed), r) \<Rightarrow>
          if at_first then if et = CHR ''-'' then Ok ((CHR ''-'', ed), r) else read_elems f n False ed r
          else read_elems f n False first r)"

definition readRedisReply :: "bytes \<Rightarrow> (wire_error, (byte \<times> bytes) \<times> bytes) outcome" where
  "readRedisReply s = read_reply (Suc (length s)) s"

text \<open>The digit runs of a value, each as an unsigned 64-bit number that wraps.\<close>

fun numbers_loop :: "bytes \<Rightarrow> 64 word \<Rightarrow> bool \<Rightarrow> 64 word list" where
  "numbers_loop [] current inNumber = (if inNumber then [current] else [])"
| "numbers_loop (ch # s) current inNumber =
     (if is_digit ch then numbers_loop s (current * 10 + of_nat (digit_val ch)) True
      else if inNumber then current # numbers_loop s 0 False
      else numbers_loop s current False)"

definition extractNumbers :: "bytes \<Rightarrow> 64 word list" where
  "extractNumbers s = numbers_loop s 0 False"

section \<open>Frames round trip\<close>

lemma length_put_be32 [simp]: "length (put_be32 w) = 4"
  by (simp add: put_be32_def)

lemma get_put_be32 [simp]: "get_be32 (put_be32 w @ r) = w"
  using get_put_u32 [of w "[]"] by (simp add: get_be32_def put_be32_def)

lemma writeFull_all: "writeFull ws b out = Some (True, out', ws') \<Longrightarrow> out' = out @ b"
  by (induction ws b out rule: writeFull.induct) auto

lemma pb_Recv_frame:
  "length data < 2 ^ 32 \<Longrightarrow> pb_Recv (put_be32 (of_nat (length data)) @ data @ rest) = Some (data, rest)"
  by (simp add: pb_Recv_def Let_def unat_of_nat)

text \<open>The messages written one after the other, each in any number of partial writes.\<close>

fun send_all :: "nat option list \<Rightarrow> bytes list \<Rightarrow> bytes \<Rightarrow> (bytes \<times> nat option list) option" where
  "send_all ws [] out = Some (out, ws)"
| "send_all ws (m # ms) out = (case pb_Send ws m out of Some (True, out1, ws1) \<Rightarrow> send_all ws1 ms out1 | _ \<Rightarrow> None)"

lemma pb_Send_bytes:
  assumes "pb_Send ws m out = Some (True, out1, ws1)"
  shows "out1 = out @ put_be32 (of_nat (length m)) @ m" "length m < 2 ^ 32"
  using assms by (auto simp: pb_Send_def split: if_splits option.splits bool.splits dest!: writeFull_all)

text \<open>
  C39. Framing is exact: messages that were sent successfully, over a writer that takes any number of
  bytes per call, are received one by one as they were sent, and whatever follows them is left
  for the next receive.
\<close>
theorem frames_round_trip:
  assumes "send_all ws ms [] = Some (out, ws')"
  shows "recv_all (length ms) (out @ rest) = ms"
proof -
  have "\<exists>t. out' = out0 @ t \<and> recv_all (length ms) (t @ rest) = ms" if "send_all ws ms out0 = Some (out', ws')" for out0 out'
    using that
  proof (induction ms arbitrary: ws out0)
    case (Cons m ms)
    then obtain out1 ws1 where s: "pb_Send ws m out0 = Some (True, out1, ws1)" "send_all ws1 ms out1 = Some (out', ws')"
      by (auto split: option.splits bool.splits)
    note b = pb_Send_bytes [OF s(1)]
    obtain t where t: "out' = out1 @ t" "recv_all (length ms) (t @ rest) = ms" using Cons.IH [OF s(2)] by blast
    then show ?case using b pb_Recv_frame [OF b(2), of "t @ rest"]
      by (intro exI [of _ "put_be32 (of_nat (length m)) @ m @ t"]) simp
  qed simp
  then show ?thesis using assms by fastforce
qed


section \<open>Values round trip\<close>

text \<open>The RESP2 text of a value as a server writes it, and the values that fit.\<close>

fun value_text :: "Value \<Rightarrow> bytes" where
  "value_text VNil = ''$-1'' @ crlf"
| "value_text (VBytes b) = ''$'' @ format_uint (length b) @ crlf @ b @ crlf"
| "value_text (VError e) = ''-'' @ e @ crlf"
| "value_text (VArray vs) = ''*'' @ format_uint (length vs) @ crlf @ concat (map value_text vs)"

fun value_fits :: "Value \<Rightarrow> bool" where
  "value_fits VNil = True"
| "value_fits (VBytes b) = (int (length b) + 2 \<le> 2 ^ 48)"
| "value_fits (VError e) = (CHR 0x0A \<notin> set e)"
| "value_fits (VArray vs) = (int (length vs) * 72 \<le> 2 ^ 48 \<and> list_all value_fits vs)"

lemma readLine_text: "CHR 0x0A \<notin> set l \<Longrightarrow> readLine (l @ crlf @ rest) = Ok (l, rest)"
proof -
  assume a: "CHR 0x0A \<notin> set l"
  have "takeWhile (\<lambda>c. c \<noteq> CHR 0x0A) (l @ crlf @ rest) = l @ [CHR 0x0D]"
    using a by (subst takeWhile_append2) auto
  then show ?thesis by (simp add: readLine_def Let_def)
qed

lemma parse_int64_uint: "int n \<le> max_int64 \<Longrightarrow> parse_int64 (format_uint n) = Inr (int n)"
  using parse_int64_format [of "int n"] by (simp add: format_int_def)

lemma value_text_pos: "value_text v \<noteq> []"
  by (cases v) simp_all

lemma read_bulk_text: "int (length b) + 2 \<le> 2 ^ 48 \<Longrightarrow> read_bulk (int (length b)) (b @ crlf @ rest) = Ok (b, rest)"
  by (simp add: read_bulk_def)

lemma read_value_text:
  "value_fits v \<Longrightarrow> length (value_text v) \<le> f \<Longrightarrow> read_value f (value_text v @ rest) = Ok (v, rest)"
proof (induction v arbitrary: f rest)
  case VNil
  then obtain g where "f = Suc g" by (cases f) auto
  moreover have "parse_int64 ''-1'' = Inr (- 1)" by (simp add: parse_int64_def parse_uint_def is_digit_def digit_val_def)
  ultimately show ?case using readLine_text [of "''-1''" rest] by simp
next
  case (VBytes b)
  then obtain g where "f = Suc g" by (cases f) auto
  moreover have "parse_int64 (format_uint (length b)) = Inr (int (length b))"
    using VBytes.prems by (intro parse_int64_uint) (simp add: max_int64_def)
  ultimately show ?case
    using readLine_text [OF digits_one_line, of "length b" "b @ crlf @ rest"] read_bulk_text VBytes.prems by simp
next
  case (VError e)
  then obtain g where "f = Suc g" by (cases f) auto
  then show ?case using readLine_text [of e rest] VError.prems by simp
next
  case (VArray vs)
  then obtain g where g: "f = Suc g" by (cases f) auto
  have n: "parse_int64 (format_uint (length vs)) = Inr (int (length vs))"
    using VArray.prems by (intro parse_int64_uint) (simp add: max_int64_def)
  have elems: "read_values g (length us) (concat (map value_text us) @ rest) = Ok (us, rest)" if "set us \<subseteq> set vs" for us
    using that
  proof (induction us)
    case (Cons u us)
    have "length (value_text u) \<le> length (concat (map value_text vs))"
      using Cons.prems by (simp add: length_concat) (rule member_le_sum_list, auto)
    then have "length (value_text u) \<le> g" using VArray.prems g by simp
    then show ?case using Cons VArray.IH [of u g] VArray.prems by (auto simp: list_all_iff)
  qed simp
  show ?case
    using g n elems [of vs] VArray.prems readLine_text [OF digits_one_line, of "length vs" "concat (map value_text vs) @ rest"] by simp
qed




theorem frames_round_trip_witness:
  "recv_all 2 ((put_be32 2 @ ''ab'' @ put_be32 0) @ ''z'') = [''ab'', []]"
proof -
  have h: "put_be32 2 = [CHR 0x00, CHR 0x00, CHR 0x00, CHR 0x02]" "put_be32 0 = [CHR 0x00, CHR 0x00, CHR 0x00, CHR 0x00]"
    by code_simp+
  have "send_all [Some 4, Some 1, Some 1, Some 3, Some 1] [''ab'', []] [] = Some (put_be32 2 @ ''ab'' @ put_be32 0, [])"
    by (simp add: pb_Send_def h)
  from frames_round_trip [OF this, of "''z''"] show ?thesis by (simp add: numeral_2_eq_2)
qed

lemma readLine_shorter: "readLine s = Ok (l, r) \<Longrightarrow> length r < length s"
proof -
  assume "readLine s = Ok (l, r)"
  then have "CHR 0x0A \<in> set s" "r = drop (Suc (length (takeWhile (\<lambda>c. c \<noteq> CHR 0x0A) s))) s"
    by (auto simp: readLine_def Let_def split: if_splits)
  then show ?thesis by (cases s) auto
qed

lemma read_values_depth:
  assumes "\<And>s. length s < f \<Longrightarrow> read_value f s \<noteq> Error EDepth \<and> (\<forall>v r. read_value f s = Ok (v, r) \<longrightarrow> length r < length s)"
    and "length s < f"
  shows "read_values f n s \<noteq> Error EDepth \<and> (\<forall>vs r. read_values f n s = Ok (vs, r) \<longrightarrow> length r \<le> length s)"
  using assms(2)
proof (induction n arbitrary: s)
  case (Suc n)
  note v = assms(1) [OF Suc.prems]
  show ?case
  proof (cases "read_value f s")
    case (Ok x)
    obtain u r where x: "x = (u, r)" by fastforce
    then have r: "length r < length s" using v Ok by blast
    then show ?thesis using Suc.IH [of r] Suc.prems Ok x by (cases "read_values f n r") auto
  qed (use v in auto)
qed simp

lemma read_value_depth:
  "length s < f \<Longrightarrow> read_value f s \<noteq> Error EDepth \<and> (\<forall>v r. read_value f s = Ok (v, r) \<longrightarrow> length r < length s)"
proof (induction f arbitrary: s)
  case (Suc f)
  show ?case
  proof (cases s)
    case (Cons p t)
    show ?thesis
    proof (cases "readLine t")
      case (Ok x)
      obtain line r where x: "x = (line, r)" by fastforce
      then have r: "length r < length t" using Ok readLine_shorter by simp
      have vs: "read_values f n r \<noteq> Error EDepth \<and> (\<forall>vs q. read_values f n r = Ok (vs, q) \<longrightarrow> length q \<le> length r)" for n
        using read_values_depth [where f = f and s = r, OF Suc.IH] r Cons Suc.prems by auto
      have b: "read_bulk n r \<noteq> Error EDepth \<and> (\<forall>b q. read_bulk n r = Ok (b, q) \<longrightarrow> length q \<le> length r)" for n
        by (auto simp: read_bulk_def)
      define B where "B = (case parse_int64 line of
          Inl e \<Rightarrow> Error (EBadNumber e)
        | Inr n \<Rightarrow>
            if n < 0 then Ok (VNil, r)
            else if p = CHR ''$'' then (case read_bulk n r of Error e \<Rightarrow> Error e | Panic \<Rightarrow> Panic | Ok (b, r') \<Rightarrow> Ok (VBytes b, r'))
            else if n * 72 > 2 ^ 48 then Panic
            else (case read_values f (nat n) r of Error e \<Rightarrow> Error e | Panic \<Rightarrow> Panic | Ok (vs, r') \<Rightarrow> Ok (VArray vs, r')))"
      have body: "B \<noteq> Error EDepth \<and> (\<forall>v q. B = Ok (v, q) \<longrightarrow> length q \<le> length r)"
        using vs b by (auto simp: B_def split: sum.splits if_splits outcome.splits)
      have eq: "read_value (Suc f) s = (if p \<notin> {CHR ''$'', CHR ''*'', CHR '':'', CHR ''+'', CHR ''-''} then Error (EUnknownPrefix p)
          else if p = CHR '':'' \<or> p = CHR ''+'' then Ok (VBytes line, r) else if p = CHR ''-'' then Ok (VError line, r) else B)"
        unfolding Cons B_def by (simp only: read_value.simps Ok x outcome.case prod.case)
      show ?thesis unfolding eq using body r Cons by (auto split: if_splits)
    next
      case (Error e)
      then show ?thesis using Cons by (auto simp: readLine_def Let_def split: if_splits)
    next
      case Panic
      then show ?thesis using Cons by auto
    qed
  qed simp
qed simp

text \<open>
  C38. Reading a reply always ends with a value, a protocol error or an allocation panic: the depth
  bound of the model is never what stops it, whatever the bytes on the wire, and a value consumes
  at least one byte.
\<close>
theorem readValue_terminates:
  "case readValue s of Ok (v, r) \<Rightarrow> length r < length s | Error e \<Rightarrow> e \<noteq> EDepth | Panic \<Rightarrow> True"
  using read_value_depth [of s "Suc (length s)"] by (auto simp: readValue_def split: outcome.split)

section \<open>Numbers in replies\<close>

lemma numbers_loop_digits:
  "list_all is_digit ds \<Longrightarrow> ds \<noteq> [] \<or> b \<Longrightarrow> \<not> (\<exists>c r'. r = c # r' \<and> is_digit c) \<Longrightarrow>
     numbers_loop (ds @ r) cur b = foldl (\<lambda>v c. v * 10 + of_nat (digit_val c)) cur ds # (if r = [] then [] else numbers_loop (tl r) 0 False)"
proof (induction ds arbitrary: cur b)
  case Nil
  then show ?case by (cases r) auto
qed auto

lemma foldl_of_nat: "foldl (\<lambda>v c. v * 10 + of_nat (digit_val c)) (of_nat n) ds = (of_nat (foldl (\<lambda>v c. v * 10 + digit_val c) n ds) :: 64 word)"
proof (induction ds arbitrary: n)
  case (Cons d ds)
  have "of_nat n * 10 + of_nat (digit_val d) = (of_nat (n * 10 + digit_val d) :: 64 word)" by simp
  then show ?case using Cons by (simp only: foldl_Cons)
qed simp

text \<open>
  The probe finds both numbers of a binlog position however they are separated, and reads each
  modulo \<open>2\<^sup>6\<^sup>4\<close>.
\<close>
theorem extractNumbers_pair:
  assumes "sep \<noteq> []" "list_all (\<lambda>c. \<not> is_digit c) sep"
  shows "extractNumbers (format_uint m @ sep @ format_uint n) = [of_nat m, of_nat n]"
proof -
  have num: "foldl (\<lambda>v c. v * 10 + of_nat (digit_val c)) 0 (format_uint k) = (of_nat k :: 64 word)" for k
    using foldl_of_nat [of 0 "format_uint k"] by (simp flip: dec_val_def)
  have skip: "list_all (\<lambda>c. \<not> is_digit c) s \<Longrightarrow> numbers_loop (s @ r) 0 False = numbers_loop r 0 False" for s r
    by (induction s) auto
  obtain c t where c: "sep = c # t" using assms(1) by (cases sep) auto
  have "numbers_loop (format_uint m @ sep @ format_uint n) 0 False = of_nat m # numbers_loop (t @ format_uint n) 0 False"
    using numbers_loop_digits [OF format_uint_digits, of m False "sep @ format_uint n"] assms c num by simp
  also have "numbers_loop (t @ format_uint n) 0 False = [of_nat n]"
    using skip [of t] numbers_loop_digits [OF format_uint_digits, of n False "[]"] assms c num by simp
  finally show ?thesis by (simp add: extractNumbers_def)
qed

theorem extractNumbers_pair_witness: "extractNumbers (format_uint 12 @ '' '' @ format_uint 3456) = [12, 3456]"
  using extractNumbers_pair [of "'' ''" 12 3456] by (simp add: is_digit_def)

end
