(* ===== verification/Client.thy ===== *)
theory Client
  imports Wire
begin

text \<open>
  The command client (\<^verbatim>\<open>internal/redisclient/client.go\<close>) on a connection, and the conversation that forces a
  fresh save (\<open>ensureFreshBgsave\<close> and \<open>lastSave\<close> of \<^verbatim>\<open>internal/dbsync/dbsync.go\<close>) over it. A connection is the
  bytes the server sends from here on, the bytes written so far, and whether writes succeed.
\<close>

section \<open>The client\<close>

record client =
  cl_in :: bytes
  cl_out :: bytes
  cl_writable :: bool

datatype client_error = CDial | CWrite | CRead wire_error | CRejected bytes | CNotInt | CCancelled | CDeadline

definition client_Do :: "bytes list list \<Rightarrow> client \<Rightarrow> (client_error, Value list \<times> client) outcome" where
  "client_Do cmds c =
     (if cmds = [] then Ok ([], c)
      else if \<not> cl_writable c then Error CWrite
      else case do_replies (length cmds) (cl_in c) of
             Ok (vs, r) \<Rightarrow> Ok (vs, c\<lparr>cl_in := r, cl_out := cl_out c @ do_request cmds\<rparr>)
           | Error e \<Rightarrow> Error (CRead e)
           | Panic \<Rightarrow> Panic)"

definition replyErr :: "Value \<Rightarrow> bytes option" where
  "replyErr v = (case v of VError e \<Rightarrow> Some e | _ \<Rightarrow> None)"

definition client_Dial :: "bytes \<Rightarrow> client option \<Rightarrow> (client_error, client) outcome" where
  "client_Dial passwd dialed =
     (case dialed of
        None \<Rightarrow> Error CDial
      | Some c \<Rightarrow>
          if passwd = [] then Ok c
          else case client_Do [[''AUTH'', passwd]] c of
                 Ok (vs, c') \<Rightarrow> (case replyErr (vs ! 0) of Some e \<Rightarrow> Error (CRejected e) | None \<Rightarrow> Ok c')
               | Error e \<Rightarrow> Error e
               | Panic \<Rightarrow> Panic)"

definition lastSave :: "client \<Rightarrow> (client_error, int \<times> client) outcome" where
  "lastSave c =
     (case client_Do [[''LASTSAVE'']] c of
        Ok (v # _, c') \<Rightarrow> (case AsInt v of Some t \<Rightarrow> Ok (t, c') | None \<Rightarrow> Error CNotInt)
      | Ok ([], c') \<Rightarrow> Error CNotInt
      | Error e \<Rightarrow> Error e
      | Panic \<Rightarrow> Panic)"

text \<open>The polls: at each one whether the context is cancelled and whether the deadline has passed.\<close>

fun save_polls :: "(bool \<times> bool) list \<Rightarrow> int \<Rightarrow> client \<Rightarrow> (client_error, client) outcome" where
  "save_polls [] t0 c = Error CDeadline"
| "save_polls ((cancelled, late) # ps) t0 c =
     (if cancelled then Error CCancelled
      else case lastSave c of
             Ok (t1, c') \<Rightarrow> if t1 > t0 then Ok c' else if late then Error CDeadline else save_polls ps t0 c'
           | Error e \<Rightarrow> Error e
           | Panic \<Rightarrow> Panic)"

definition force_save :: "bytes \<Rightarrow> client option \<Rightarrow> (bool \<times> bool) list \<Rightarrow> (client_error, client) outcome" where
  "force_save passwd dialed ps =
     (case client_Dial passwd dialed of
        Error e \<Rightarrow> Error e
      | Panic \<Rightarrow> Panic
      | Ok c \<Rightarrow>
          (case lastSave c of
             Error e \<Rightarrow> Error e
           | Panic \<Rightarrow> Panic
           | Ok (t0, c1) \<Rightarrow>
               (case client_Do [[''BGSAVE'']] c1 of
                  Error e \<Rightarrow> Error e
                | Panic \<Rightarrow> Panic
                | Ok (vs, c2) \<Rightarrow>
                    (case vs of
                       VError e # _ \<Rightarrow> Error (CRejected e)
                     | _ \<Rightarrow> save_polls ps t0 c2))))"

section \<open>Pipelines\<close>

lemma readValue_text: "value_fits v \<Longrightarrow> readValue (value_text v @ rest) = Ok (v, rest)"
  by (simp add: readValue_def read_value_text)

text \<open>
  The replies of a pipeline are matched to its commands: a server that answers every command with a
  value is read to exactly these values in order, the connection is left at the first byte after
  them, and the commands are all that was written.
\<close>
theorem pipeline_in_order:
  assumes "cl_writable c" "list_all value_fits vs" "length vs = length cmds" "cl_in c = concat (map value_text vs) @ rest"
  shows "client_Do cmds c = Ok (vs, c\<lparr>cl_in := rest, cl_out := cl_out c @ do_request cmds\<rparr>)"
proof -
  have "do_replies (length vs) (concat (map value_text vs) @ rest) = Ok (vs, rest)"
    using assms(2) by (induction vs) (simp_all add: readValue_text)
  then show ?thesis using assms by (auto simp: client_Do_def do_request_def)
qed

section \<open>Forcing a save\<close>

definition int_reply :: "int \<Rightarrow> bytes" where
  "int_reply n = '':'' @ format_int n @ crlf"

definition status_reply :: "bytes \<Rightarrow> bytes" where
  "status_reply st = ''+'' @ st @ crlf"

lemma format_int_line: "nl \<notin> set (format_int n)"
  by (simp add: format_int_def digits_one_line)

lemma do_line: "p = CHR '':'' \<or> p = CHR ''+'' \<Longrightarrow> nl \<notin> set l \<Longrightarrow> cl_writable c \<Longrightarrow> cl_in c = p # l @ crlf @ rest \<Longrightarrow>
    client_Do [cmd] c = Ok ([VBytes l], c\<lparr>cl_in := rest, cl_out := cl_out c @ SerializeArray cmd\<rparr>)"
  using readLine_text [of l rest] by (auto simp: client_Do_def readValue_def do_request_def)

lemma lastSave_reply:
  assumes "cl_writable c" "cl_in c = int_reply t @ rest" "- (2 ^ 63) \<le> t" "t \<le> max_int64"
  shows "lastSave c = Ok (t, c\<lparr>cl_in := rest, cl_out := cl_out c @ SerializeArray [''LASTSAVE'']\<rparr>)"
  using do_line [of "CHR '':''" "format_int t" c rest "[''LASTSAVE'']"] assms
  by (simp add: lastSave_def int_reply_def format_int_line AsInt_def parse_int64_format)

definition stamp :: "int \<Rightarrow> bool" where
  "stamp t \<longleftrightarrow> - (2 ^ 63) \<le> t \<and> t \<le> max_int64"

lemma polls_wait:
  "cl_writable c \<Longrightarrow> list_all (\<lambda>t. stamp t \<and> t \<le> t0) ts \<Longrightarrow> stamp t1 \<Longrightarrow> t0 < t1 \<Longrightarrow>
   cl_in c = concat (map int_reply ts) @ int_reply t1 @ rest \<Longrightarrow>
   save_polls (replicate (length ts) (False, False) @ (False, late) # ps) t0 c =
     Ok (c\<lparr>cl_in := rest, cl_out := cl_out c @ concat (replicate (Suc (length ts)) (SerializeArray [''LASTSAVE'']))\<rparr>)"
proof (induction ts arbitrary: c)
  case Nil
  then show ?case by (simp add: lastSave_reply stamp_def)
next
  case (Cons t ts)
  let ?c = "c\<lparr>cl_in := concat (map int_reply ts) @ int_reply t1 @ rest, cl_out := cl_out c @ SerializeArray [''LASTSAVE'']\<rparr>"
  have "lastSave c = Ok (t, ?c)" using Cons.prems by (intro lastSave_reply) (auto simp: stamp_def)
  moreover have "save_polls (replicate (length ts) (False, False) @ (False, late) # ps) t0 ?c =
      Ok (?c\<lparr>cl_in := rest, cl_out := cl_out ?c @ concat (replicate (Suc (length ts)) (SerializeArray [''LASTSAVE'']))\<rparr>)"
    using Cons.prems by (intro Cons.IH) auto
  ultimately show ?case using Cons.prems by simp
qed

text \<open>
  A forced save waits for the save to complete: against a server that reports the time of the last
  save, accepts the request and repeats old times before a newer one, the conversation ends with
  success at the first newer time, having read no byte beyond it and written exactly the save command
  between the queries.
\<close>
theorem forced_save_waits:
  assumes "cl_writable c" "stamp t0" "list_all (\<lambda>t. stamp t \<and> t \<le> t0) ts" "stamp t1" "t0 < t1" "nl \<notin> set st"
    and "cl_in c = int_reply t0 @ status_reply st @ concat (map int_reply ts) @ int_reply t1 @ rest"
  shows "force_save [] (Some c) (replicate (length ts) (False, False) @ (False, late) # ps) =
    Ok (c\<lparr>cl_in := rest, cl_out := cl_out c @ do_request ([[''LASTSAVE''], [''BGSAVE'']] @ replicate (Suc (length ts)) [''LASTSAVE''])\<rparr>)"
proof -
  let ?c1 = "c\<lparr>cl_in := status_reply st @ concat (map int_reply ts) @ int_reply t1 @ rest, cl_out := cl_out c @ SerializeArray [''LASTSAVE'']\<rparr>"
  let ?c2 = "?c1\<lparr>cl_in := concat (map int_reply ts) @ int_reply t1 @ rest, cl_out := cl_out ?c1 @ SerializeArray [''BGSAVE'']\<rparr>"
  have "lastSave c = Ok (t0, ?c1)" using assms by (intro lastSave_reply) (auto simp: stamp_def)
  moreover have "client_Do [[''BGSAVE'']] ?c1 = Ok ([VBytes st], ?c2)"
    using do_line [of "CHR ''+''" st ?c1 "concat (map int_reply ts) @ int_reply t1 @ rest" "[''BGSAVE'']"] assms(1,6)
    by (simp add: status_reply_def)
  moreover note polls_wait [of ?c2 t0 ts t1 rest late ps]
  ultimately show ?thesis using assms by (simp add: force_save_def client_Dial_def do_request_def map_replicate_const concat_replicate_trivial)
qed

definition demo_server :: client where
  "demo_server = \<lparr>cl_in = int_reply 5 @ status_reply ''Background saving started'' @ int_reply 5 @ int_reply 9 @ ''x'', cl_out = [], cl_writable = True\<rparr>"

theorem forced_save_waits_witness:
  "force_save [] (Some demo_server) [(False, False), (False, False)] =
     Ok (demo_server\<lparr>cl_in := ''x'', cl_out := do_request [[''LASTSAVE''], [''BGSAVE''], [''LASTSAVE''], [''LASTSAVE'']]\<rparr>)"
  using forced_save_waits [of demo_server 5 "[5]" 9 "''Background saving started''" "''x''" False "[]"]
  by (simp add: demo_server_def stamp_def max_int64_def)

end
