(* ===== verification/Info.thy ===== *)
theory Info
  imports Wire Session
begin

text \<open>
  The replication probe (\<^verbatim>\<open>internal/info/replication.go\<close>): the request, its reply and the text of
  \<^verbatim>\<open>INFO replication\<close>, from which a session learns the tip of the master's binlog. The connection is
  the bytes it delivers and which of the successive writes succeed. The positions at which the
  lowered line is searched are those of the line itself, which holds for every line whose runes
  keep their length when lowered.
\<close>

section \<open>The text of a reply\<close>

record ReplicationInfo =
  HasBinlogOffset :: bool
  RiFilenum :: "32 word"
  RiOffset :: "64 word"
  HasMasterLag :: bool
  MasterLag :: int

definition no_info :: ReplicationInfo where
  "no_info = \<lparr>HasBinlogOffset = False, RiFilenum = 0, RiOffset = 0, HasMasterLag = False, MasterLag = 0\<rparr>"

datatype info_error = EFilenumOverflow | ETokenTooLong | EInfoIncomplete | EHostPort | EConnect | EAuthSend | EAuthRecv wire_error
  | EAuthRejected bytes | EInfoSend | EInfoRecv wire_error | EInfoReply bytes

text \<open>
  \<^verbatim>\<open>bufio.Scanner\<close> with its default split function: the lines without their line ends, and whether it
  stopped at a line that does not fit its buffer.
\<close>

definition drop_cr :: "bytes \<Rightarrow> bytes" where
  "drop_cr l = (if l \<noteq> [] \<and> last l = CHR 0x0D then butlast l else l)"

definition max_token :: int where
  "max_token = 65536"

definition scan_lines :: "bytes \<Rightarrow> bytes list \<times> bool" where
  "scan_lines s =
     (let ls = split_lines s; all = (if last ls = [] then butlast ls else ls); fit = takeWhile (\<lambda>l. int (length l) < max_token) all
      in (map drop_cr fit, length fit < length all))"

text \<open>The variables of the loop over the lines.\<close>

record info_scan =
  sc_parsed :: ReplicationInfo
  sc_hasFilenum :: bool
  sc_filenum :: "32 word"

definition use_offset :: "64 word list \<Rightarrow> info_scan \<Rightarrow> info_scan option" where
  "use_offset nums sc =
     (case nums of
        [] \<Rightarrow> Some sc
      | [n] \<Rightarrow> Some (sc\<lparr>sc_parsed := (sc_parsed sc)\<lparr>RiOffset := n, RiFilenum := (if sc_hasFilenum sc then sc_filenum sc else RiFilenum (sc_parsed sc)),
                     HasBinlogOffset := True\<rparr>\<rparr>)
      | f # n # rest \<Rightarrow>
          if f > 0xFFFFFFFF then None
          else Some (sc\<lparr>sc_parsed := (sc_parsed sc)\<lparr>RiFilenum := ucast f, RiOffset := n, HasBinlogOffset := True\<rparr>\<rparr>))"

definition use_lag :: "64 word list \<Rightarrow> info_scan \<Rightarrow> info_scan" where
  "use_lag nums sc =
     fold (\<lambda>n s. if \<not> HasMasterLag (sc_parsed s) \<or> sint n > MasterLag (sc_parsed s)
                 then s\<lparr>sc_parsed := (sc_parsed s)\<lparr>MasterLag := sint n, HasMasterLag := True\<rparr>\<rparr> else s) nums sc"

definition use_key :: "bytes \<Rightarrow> bytes \<Rightarrow> info_scan \<Rightarrow> info_scan option" where
  "use_key key value sc =
     (if key = ''binlog_offset'' then use_offset (extractNumbers value) sc
      else if key \<in> {''binlog_file_num'', ''binlog_filenum'', ''binlog_file''} then
        (case extractNumbers value of
           [] \<Rightarrow> Some sc
         | n # rest \<Rightarrow>
             if n > 0xFFFFFFFF then None
             else let p = sc_parsed sc
                  in Some (sc\<lparr>sc_filenum := ucast n, sc_hasFilenum := True,
                              sc_parsed := (if HasBinlogOffset p \<and> RiFilenum p = 0 then p\<lparr>RiFilenum := ucast n\<rparr> else p)\<rparr>))
      else if key = ''master_lag'' then
        (case extractNumbers value of
           [] \<Rightarrow> Some sc
         | n # rest \<Rightarrow> Some (sc\<lparr>sc_parsed := (sc_parsed sc)\<lparr>MasterLag := sint n, HasMasterLag := True\<rparr>\<rparr>))
      else Some sc)"

definition info_line :: "bytes \<Rightarrow> info_scan \<Rightarrow> info_scan option" where
  "info_line line sc =
     (let trimmed = trim_space (drop_cr line); lowerLine = to_lower trimmed
      in if trimmed = [] \<or> has_prefix trimmed ''#'' then Some sc
         else case (case str_index lowerLine ''binlog_offset='' of
                      None \<Rightarrow> Some sc
                    | Some pos \<Rightarrow> use_offset (extractNumbers (drop (pos + 14) trimmed)) sc) of
                None \<Rightarrow> None
              | Some sc1 \<Rightarrow>
                  let sc2 = (case str_index lowerLine ''lag=('' of
                               None \<Rightarrow> sc1 | Some pos \<Rightarrow> use_lag (extractNumbers (drop (pos + 5) trimmed)) sc1)
                  in case str_index trimmed '':'' of
                       None \<Rightarrow> Some sc2
                     | Some colon \<Rightarrow>
                         use_key (to_lower (trim_space (take colon trimmed))) (trim_space (drop (colon + 1) trimmed)) sc2)"

fun info_lines :: "bytes list \<Rightarrow> info_scan \<Rightarrow> info_scan option" where
  "info_lines [] sc = Some sc"
| "info_lines (l # ls) sc = (case info_line l sc of None \<Rightarrow> None | Some sc1 \<Rightarrow> info_lines ls sc1)"

definition ParseReplicationInfo :: "bytes \<Rightarrow> info_error + ReplicationInfo" where
  "ParseReplicationInfo text =
     (let (ls, tooLong) = scan_lines text
      in case info_lines ls \<lparr>sc_parsed = no_info, sc_hasFilenum = False, sc_filenum = 0\<rparr> of
           None \<Rightarrow> Inl EFilenumOverflow
         | Some sc \<Rightarrow>
             if tooLong then Inl ETokenTooLong
             else if HasBinlogOffset (sc_parsed sc) \<or> HasMasterLag (sc_parsed sc) then Inr (sc_parsed sc)
             else Inl EInfoIncomplete)"

section \<open>The request\<close>

text \<open>
  \<open>FetchReplicationInfo\<close> with the connection's bytes and which writes succeed: the result, and the
  bytes written.
\<close>

definition info_request :: "(nat \<Rightarrow> bool) \<Rightarrow> nat \<Rightarrow> bytes \<Rightarrow> (info_error, ReplicationInfo) outcome \<times> bytes" where
  "info_request wrote i inp =
     (if \<not> wrote i then (Error EInfoSend, [])
      else (case readRedisReply inp of
              Error e \<Rightarrow> Error (EInfoRecv e)
            | Panic \<Rightarrow> Panic
            | Ok ((typ, data), r) \<Rightarrow>
                if typ = CHR ''-'' then Error (EInfoReply data)
                else (case ParseReplicationInfo data of Inl e \<Rightarrow> Error e | Inr ri \<Rightarrow> Ok ri),
            SerializeArray [''info'', ''replication'']))"

definition FetchReplicationInfo :: "bytes \<Rightarrow> int \<Rightarrow> bytes \<Rightarrow> bool \<Rightarrow> (nat \<Rightarrow> bool) \<Rightarrow> bytes \<Rightarrow>
    (info_error, ReplicationInfo) outcome \<times> bytes" where
  "FetchReplicationInfo host port passwd dialed wrote inp =
     (if host = [] \<or> port = 0 then (Error EHostPort, [])
      else if \<not> dialed then (Error EConnect, [])
      else if passwd = [] then info_request wrote 0 inp
      else if \<not> wrote 0 then (Error EAuthSend, [])
      else let auth = SerializeArray [''auth'', passwd]
           in case readRedisReply inp of
                Error e \<Rightarrow> (Error (EAuthRecv e), auth)
              | Panic \<Rightarrow> (Panic, auth)
              | Ok ((typ, data), r) \<Rightarrow>
                  if typ = CHR ''-'' \<or> to_lower data \<noteq> ''ok'' then (Error (EAuthRejected data), auth)
                  else (case info_request wrote 1 r of (res, req) \<Rightarrow> (res, auth @ req)))"

text \<open>What the session's stall test and start position make of it.\<close>

definition probe_result :: "(info_error, ReplicationInfo) outcome \<Rightarrow> info_result" where
  "probe_result res =
     (case res of
        Ok ri \<Rightarrow> if HasBinlogOffset ri then InfoTail \<lparr>Filenum = RiFilenum ri, Offset = RiOffset ri\<rparr> else InfoNoOffset
      | _ \<Rightarrow> InfoErr)"

section \<open>Lines\<close>

lemma trim_space_id:
  assumes "s \<noteq> []" "hd s \<notin> hd ` set space_runes" "last s \<notin> last ` set space_runes"
  shows "trim_space s = s"
proof -
  have ne: "r \<noteq> []" if "r \<in> set space_runes" for r using that by (auto simp: space_runes_def)
  have pre: "has_prefix t r \<Longrightarrow> r \<noteq> [] \<Longrightarrow> hd r = hd t" for t r :: bytes
    by (cases t; cases r) (auto simp: has_prefix_def)
  have "find (\<lambda>r. has_prefix s r) space_runes = None" using assms(2) pre [of s] ne unfolding find_None_iff by (metis imageI)
  moreover have "find (\<lambda>r. has_prefix (rev s) r) (map rev space_runes) = None"
    using assms(1,3) pre [of "rev s"] ne unfolding find_None_iff by (auto simp: hd_rev) (metis hd_rev imageI rev_is_Nil_conv)
  ultimately show ?thesis by (simp add: trim_space_def strip_front_none)
qed

lemma str_index_none: "c \<in> set sub \<Longrightarrow> c \<notin> set s \<Longrightarrow> str_index s sub = None"
proof (induction s)
  case (Cons d s)
  moreover have "\<not> has_prefix (d # s) sub" using Cons.prems has_prefixD [of "d # s" sub] by (metis Un_iff set_append)
  ultimately show ?case by simp
qed auto

lemma to_lower_digits: "list_all (\<lambda>c. is_digit c \<or> c \<in> set ''binlog_offset: '') s \<Longrightarrow> to_lower s = s"
  by (induction s rule: to_lower.induct) (auto simp: lower_byte_def is_digit_def)

text \<open>The line with which the master announces its tip.\<close>

definition tip_line :: "position \<Rightarrow> bytes" where
  "tip_line p = ''binlog_offset:'' @ format_uint (unat (Filenum p)) @ '' '' @ format_uint (unat (Offset p))"

text \<open>Lines that say nothing about offsets and lags.\<close>

definition other_line :: "bytes \<Rightarrow> bool" where
  "other_line l =
     (let t = trim_space (drop_cr l)
      in t = [] \<or> has_prefix t ''#'' \<or>
         str_index (to_lower t) ''binlog_offset='' = None \<and> str_index (to_lower t) ''lag=('' = None \<and>
         (case str_index t '':'' of
            None \<Rightarrow> True
          | Some k \<Rightarrow> to_lower (trim_space (take k t)) \<notin>
              {''binlog_offset'', ''binlog_file_num'', ''binlog_filenum'', ''binlog_file'', ''master_lag''}))"

lemma other_line_skipped: "other_line l \<Longrightarrow> info_line l sc = Some sc"
  by (auto simp: other_line_def info_line_def use_key_def Let_def split: option.splits)

lemma info_lines_others: "list_all other_line ls \<Longrightarrow> info_lines ls sc = Some sc"
  by (induction ls) (simp_all add: other_line_skipped)

lemma info_lines_append: "info_lines (xs @ ys) sc = (case info_lines xs sc of None \<Rightarrow> None | Some sc1 \<Rightarrow> info_lines ys sc1)"
  by (induction xs arbitrary: sc) (auto split: option.splits)

lemma tip_chars: "list_all (\<lambda>c. is_digit c \<or> c \<in> set ''binlog_offset: '') (tip_line p)"
  using format_uint_digits by (fastforce simp: tip_line_def list_all_iff)

lemma tip_trims:
  "trim_space (tip_line p) = tip_line p"
  "trim_space (format_uint m @ CHR '' '' # format_uint n) = format_uint m @ CHR '' '' # format_uint n"
  "drop_cr (tip_line p) = tip_line p"
proof -
  have d: "format_uint k \<noteq> []" "is_digit (hd (format_uint k))" "is_digit (last (format_uint k))" for k
    using format_uint_digits [of k] by (auto simp: list_all_iff)
  have sp: "\<not> is_digit (hd r) \<and> \<not> is_digit (last r) \<and> hd r \<noteq> CHR ''b''" if "r \<in> set space_runes" for r
    using that by (auto simp: space_runes_def is_digit_def)
  show "trim_space (tip_line p) = tip_line p"
    using d [of "unat (Offset p)"] sp by (intro trim_space_id) (auto simp: tip_line_def, metis)
  show "trim_space (format_uint m @ CHR '' '' # format_uint n) = format_uint m @ CHR '' '' # format_uint n"
    using d [of m] d [of n] sp by (intro trim_space_id) auto
  have "\<not> is_digit (CHR 0x0D)" by (simp add: is_digit_def)
  then show "drop_cr (tip_line p) = tip_line p" using d [of "unat (Offset p)"] by (auto simp: drop_cr_def tip_line_def)
qed

lemma tip_line_read:
  "info_line (tip_line p) sc =
     Some (sc\<lparr>sc_parsed := (sc_parsed sc)\<lparr>RiFilenum := Filenum p, RiOffset := Offset p, HasBinlogOffset := True\<rparr>\<rparr>)"
proof -
  let ?v = "format_uint (unat (Filenum p)) @ '' '' @ format_uint (unat (Offset p))"
  have eq: "CHR ''='' \<notin> set (tip_line p)" using tip_chars [of p] by (auto simp: list_all_iff is_digit_def)
  have low: "to_lower (tip_line p) = tip_line p" using to_lower_digits [OF tip_chars] .
  have colon: "str_index (tip_line p) '':'' = Some 13" "take 13 (tip_line p) = ''binlog_offset''" "drop 14 (tip_line p) = ?v"
    by (simp_all add: tip_line_def has_prefix_def)
  have key: "to_lower (trim_space ''binlog_offset'') = ''binlog_offset''" by code_simp
  have "extractNumbers ?v = [of_nat (unat (Filenum p)), of_nat (unat (Offset p))]"
    by (rule extractNumbers_pair) (simp_all add: is_digit_def)
  then have n: "extractNumbers ?v = [ucast (Filenum p), Offset p]" by simp
  have "unat (ucast (Filenum p) :: 64 word) = unat (Filenum p)" 
    using unsigned_less [of "Filenum p", where 'a = nat] by (simp add: unsigned_ucast_eq take_bit_nat_eq_self_iff)
  then have "(ucast (Filenum p) :: 64 word) \<le> 0xFFFFFFFF" using unsigned_less [of "Filenum p", where 'a = nat] by (simp add: word_le_nat_alt)
  moreover have uc: "ucast (ucast (Filenum p) :: 64 word) = Filenum p"
    by (rule bit_word_eqI) (auto simp: bit_ucast_iff dest: bit_imp_le_length)
  ultimately have "use_offset (extractNumbers ?v) sc =
      Some (sc\<lparr>sc_parsed := (sc_parsed sc)\<lparr>RiFilenum := Filenum p, RiOffset := Offset p, HasBinlogOffset := True\<rparr>\<rparr>)"
    unfolding n by (simp add: use_offset_def not_less uc)
  moreover have "\<not> has_prefix (tip_line p) ''#''" "tip_line p \<noteq> []" by (simp_all add: tip_line_def has_prefix_def)
  ultimately show ?thesis
    using colon key low str_index_none [of "CHR ''=''" _ "tip_line p"] eq
    by (simp add: info_line_def Let_def tip_trims use_key_def)
qed

section \<open>The tip is read as announced\<close>

definition crlf_lines :: "bytes list \<Rightarrow> bytes" where
  "crlf_lines ls = concat (map (\<lambda>l. l @ crlf) ls)"

lemma split_crlf_lines:
  "list_all (\<lambda>l. CHR 0x0A \<notin> set l) ls \<Longrightarrow> split_lines (crlf_lines ls) = map (\<lambda>l. l @ [CHR 0x0D]) ls @ [[]]"
proof (induction ls)
  case (Cons l ls)
  then show ?case using split_lines_cons [of "l @ [CHR 0x0D]" "crlf_lines ls"] by (simp add: crlf_lines_def)
qed (simp add: crlf_lines_def)

lemma scan_crlf_lines:
  assumes "list_all (\<lambda>l. CHR 0x0A \<notin> set l \<and> int (length l) < max_token - 1) ls"
  shows "scan_lines (crlf_lines ls) = (ls, False)"
proof -
  define xs where "xs = map (\<lambda>l. l @ [CHR 0x0D]) ls"
  have sp: "split_lines (crlf_lines ls) = xs @ [[]]"
    using assms unfolding xs_def by (intro split_crlf_lines) (auto simp: list_all_iff)
  have tw: "takeWhile (\<lambda>l. int (length l) < max_token) xs = xs"
    using assms by (auto simp: xs_def takeWhile_eq_all_conv list_all_iff)
  have "map drop_cr xs = ls" by (simp add: xs_def drop_cr_def comp_def)
  then show ?thesis by (simp add: scan_lines_def sp tw)
qed

lemma length_format_uint: "n < 10 ^ k \<Longrightarrow> 0 < k \<Longrightarrow> length (format_uint n) \<le> k"
proof (induction n arbitrary: k rule: format_uint.induct)
  case (1 n)
  show ?case
  proof (cases "n < 10")
    case False
    then obtain j where j: "k = Suc j" "0 < j" using 1 by (cases k; cases "k - 1") auto
    then have "n div 10 < 10 ^ j" using 1 by (simp add: less_mult_imp_div_less)
    then show ?thesis using 1 False j by (simp add: format_uint.simps [of n])
  qed (use 1 in \<open>simp add: format_uint.simps [of n]\<close>)
qed

lemma length_tip_line: "length (tip_line p) \<le> 55"
proof -
  have "unat (Filenum p) < 2 ^ 32" "unat (Offset p) < 2 ^ 64"
    using unsigned_less [of "Filenum p", where 'a = nat] unsigned_less [of "Offset p", where 'a = nat] by simp_all
  then have "unat (Filenum p) < 10 ^ 20" "unat (Offset p) < 10 ^ 20" by simp_all
  then have "length (format_uint (unat (Filenum p))) \<le> 20" "length (format_uint (unat (Offset p))) \<le> 20"
    by (simp_all add: length_format_uint)
  then show ?thesis by (simp add: tip_line_def)
qed

text \<open>
  The probe reads the tip the master announces: a reply of lines of which one is the master's
  binlog position and the others say nothing about offsets and lags yields exactly that position,
  for every file number and offset.
\<close>
theorem info_tip_round_trip:
  assumes "list_all (\<lambda>l. CHR 0x0A \<notin> set l \<and> int (length l) < max_token - 1 \<and> other_line l) (before @ after)"
  shows "ParseReplicationInfo (crlf_lines (before @ [tip_line p] @ after)) =
    Inr \<lparr>HasBinlogOffset = True, RiFilenum = Filenum p, RiOffset = Offset p, HasMasterLag = False, MasterLag = 0\<rparr>"
proof -
  have "CHR 0x0A \<notin> set (tip_line p)" using tip_chars [of p] by (auto simp: list_all_iff is_digit_def)
  moreover have "int (length (tip_line p)) < max_token - 1" using length_tip_line [of p] by (simp add: max_token_def)
  ultimately have "scan_lines (crlf_lines (before @ [tip_line p] @ after)) = (before @ [tip_line p] @ after, False)"
    using assms by (intro scan_crlf_lines) (auto simp: list_all_iff)
  moreover have "list_all other_line before" "list_all other_line after" using assms by (auto simp: list_all_iff)
  ultimately show ?thesis
    by (simp add: ParseReplicationInfo_def info_lines_append info_lines_others tip_line_read no_info_def)
qed

text \<open>
  The check for file numbers beyond 32 bits can be passed by a number beyond 64 bits, whose digits
  are accumulated with wrap-around.
\<close>
theorem info_filenum_wraps: "ParseReplicationInfo (''binlog_offset:18446744073709551623 5'' @ crlf) =
  Inr \<lparr>HasBinlogOffset = True, RiFilenum = 7, RiOffset = 5, HasMasterLag = False, MasterLag = 0\<rparr>"
  by code_simp

text \<open>The request and its answer, with and without a password.\<close>

definition bulk_text :: "bytes \<Rightarrow> bytes" where
  "bulk_text b = ''$'' @ format_uint (length b) @ crlf @ b @ crlf"

lemma readRedisReply_bulk:
  assumes "int (length b) + 2 \<le> 2 ^ 48"
  shows "readRedisReply (bulk_text b @ rest) = Ok ((CHR ''$'', b), rest)"
proof -
  have p: "parse_int64 (format_uint (length b)) = Inr (int (length b))"
    using assms by (intro parse_int64_uint) (simp add: max_int64_def)
  have "readLine (format_uint (length b) @ crlf @ b @ crlf @ rest) = Ok (format_uint (length b), b @ crlf @ rest)"
    by (rule readLine_text [OF digits_one_line])
  then show ?thesis using assms p by (simp add: readRedisReply_def bulk_text_def max_int64_def)
qed

text \<open>
  The probe returns what the reply's text says, after authenticating exactly when a password is
  set: the commands written are the authentication and the request, and the text is parsed as it
  was sent.
\<close>
theorem probe_reads_reply:
  assumes "host \<noteq> []" "port \<noteq> 0" "int (length text) + 2 \<le> 2 ^ 48"
  shows "FetchReplicationInfo host port passwd True (\<lambda>_. True) ((if passwd = [] then [] else ''+OK'' @ crlf) @ bulk_text text) =
    (case ParseReplicationInfo text of Inl e \<Rightarrow> Error e | Inr ri \<Rightarrow> Ok ri,
     (if passwd = [] then [] else SerializeArray [''auth'', passwd]) @ SerializeArray [''info'', ''replication''])"
proof -
  have r: "info_request (\<lambda>_. True) i (bulk_text text) =
      (case ParseReplicationInfo text of Inl e \<Rightarrow> Error e | Inr ri \<Rightarrow> Ok ri, SerializeArray [''info'', ''replication''])" for i
    using readRedisReply_bulk [OF assms(3), of "[]"] by (simp add: info_request_def)
  have "readRedisReply (''+OK'' @ crlf @ bulk_text text) = Ok ((CHR ''+'', ''OK''), bulk_text text)"
    by (simp add: readRedisReply_def readLine_def)
  moreover have "to_lower ''OK'' = ''ok''" by code_simp
  ultimately show ?thesis using assms(1,2) r by (simp add: FetchReplicationInfo_def Let_def)
qed

theorem info_tip_round_trip_witness:
  "ParseReplicationInfo (crlf_lines [''# Replication'', ''role:master'', tip_line \<lparr>Filenum = 7, Offset = 12345\<rparr>]) =
    Inr \<lparr>HasBinlogOffset = True, RiFilenum = 7, RiOffset = 12345, HasMasterLag = False, MasterLag = 0\<rparr>"
proof -
  have "list_all (\<lambda>l. CHR 0x0A \<notin> set l \<and> int (length l) < max_token - 1 \<and> other_line l) ([''# Replication'', ''role:master''] @ [])"
    by code_simp
  from info_tip_round_trip [OF this, of "\<lparr>Filenum = 7, Offset = 12345\<rparr>"] show ?thesis by simp
qed

theorem probe_reads_reply_witness:
  "FetchReplicationInfo ''pika'' 9221 ''secret'' True (\<lambda>_. True) (''+OK'' @ crlf @ bulk_text ''master_lag:3'') =
    (case ParseReplicationInfo ''master_lag:3'' of Inl e \<Rightarrow> Error e | Inr ri \<Rightarrow> Ok ri,
     SerializeArray [''auth'', ''secret''] @ SerializeArray [''info'', ''replication''])"
  using probe_reads_reply [of "''pika''" 9221 "''master_lag:3''" "''secret''"] by simp

end
