(* ===== verification/Dbsync.thy ===== *)
theory Dbsync
  imports Session
begin

text \<open>
  The full snapshot (\<^verbatim>\<open>internal/dbsync\<close>): the anchor read from the dump's info file, the transfer of
  the dump files, and the engine that turns dump records into events.
  The dump reader (a C++ library) is the list of results of its \<^verbatim>\<open>Next\<close>; the master's rsync service
  is a parameter, a function from requests to responses.
\<close>

section \<open>The anchor\<close>

datatype dbsync_error = EInfoMissing | EInfoRead | EInfoMalformed | EInfoFilenum num_error | EInfoOffset num_error
  | EFetchFile | EUuidChanged | EEmptyName | ERsyncArgs | EMetaTimeout | EPrepareDump | ESetup run_error | EOnAnchor run_error
  | EBgsave | EBgsaveDeadline | ECtxCancelled

definition parse_info :: "bytes \<Rightarrow> dbsync_error + position" where
  "parse_info data =
     (let lines = split_lines data
      in if length lines < 5 then Inl EInfoMalformed
         else case parse_uint 32 (trim_space (lines ! 3)) of
                Inl e \<Rightarrow> Inl (EInfoFilenum e)
              | Inr f \<Rightarrow>
                  (case parse_uint 64 (trim_space (lines ! 4)) of
                     Inl e \<Rightarrow> Inl (EInfoOffset e)
                   | Inr k \<Rightarrow> Inr \<lparr>Filenum = of_nat f, Offset = of_nat k\<rparr>))"

text \<open>The info file of the database directory, else of the dump root; \<open>None\<close> where there is none.\<close>

definition LoadBgsaveInfo :: "bytes option \<Rightarrow> bytes option \<Rightarrow> dbsync_error + position" where
  "LoadBgsaveInfo db_info root_info =
     (case (case db_info of Some d \<Rightarrow> Some d | None \<Rightarrow> root_info) of
        None \<Rightarrow> Inl EInfoMissing
      | Some d \<Rightarrow> parse_info d)"

section \<open>Transferring a file\<close>

record FileResp =
  fr_ok :: bool
  fr_uuid :: bytes
  fr_data :: bytes
  fr_count :: "64 word"
  fr_eof :: bool

text \<open>\<^verbatim>\<open>Seek\<close> and \<^verbatim>\<open>Write\<close> on the local file; a seek past the end leaves zero bytes.\<close>

definition write_seek :: "bytes \<Rightarrow> nat \<Rightarrow> bytes \<Rightarrow> bytes" where
  "write_seek c k b = (if b = [] then c else take k (c @ replicate (k - length c) (CHR 0x00)) @ b @ drop (k + length b) c)"

text \<open>
  The request loop of \<open>fetchFile\<close>, with the number of responses the connection delivers before it
  fails as its bound. \<open>serve\<close> is the master, asked for a count of bytes at an offset.
\<close>

fun fetch_loop :: "nat \<Rightarrow> (64 word \<Rightarrow> 64 word \<Rightarrow> FileResp) \<Rightarrow> bytes \<Rightarrow> 64 word \<Rightarrow> 64 word \<Rightarrow> bytes \<Rightarrow> dbsync_error option \<times> bytes" where
  "fetch_loop 0 serve uuid chunk off out = (Some EFetchFile, out)"
| "fetch_loop (Suc k) serve uuid chunk off out =
     (let resp = serve off chunk
      in if \<not> fr_ok resp then (Some EFetchFile, out)
         else if fr_uuid resp \<noteq> uuid then (Some EUuidChanged, out)
         else if sint off < 0 then (Some EFetchFile, out)
         else let out' = write_seek out (unat off) (fr_data resp)
              in if fr_eof resp then (None, out')
                 else fetch_loop k serve uuid chunk (off + fr_count resp) out')"

definition fetchFile :: "nat \<Rightarrow> (bytes \<Rightarrow> 64 word \<Rightarrow> 64 word \<Rightarrow> FileResp) \<Rightarrow> bytes \<Rightarrow> 64 word \<Rightarrow> bytes \<Rightarrow> dbsync_error option \<times> bytes" where
  "fetchFile k serve uuid chunk filename =
     (if filename = [] then (Some EEmptyName, []) else fetch_loop k (serve filename) uuid chunk 0 [])"


section \<open>The dump\<close>

datatype meta_try = MDialFail | MSendFail | MRecvFail | MNotReady | MReady bytes "bytes list"

text \<open>
  \<open>fetchMeta\<close> on the successive attempts, each with the time elapsed when it starts: the result and
  the pauses it made, in nanoseconds. The list ends when the clock passes the limit.
\<close>

fun fetchMeta :: "int \<Rightarrow> int \<Rightarrow> (int \<times> meta_try) list \<Rightarrow> (dbsync_error + bytes \<times> bytes list) \<times> int list" where
  "fetchMeta wait backoff [] = (Inl EMetaTimeout, [])"
| "fetchMeta wait backoff ((elapsed, t) # ts) =
     (if elapsed \<ge> wait then (Inl EMetaTimeout, [])
      else case t of
             MReady uuid names \<Rightarrow> (Inr (uuid, names), [])
           | MNotReady \<Rightarrow>
               (case fetchMeta wait (if backoff * 2 > 15000000000 then 15000000000 else backoff * 2) ts of (r, ps) \<Rightarrow> (r, backoff # ps))
           | _ \<Rightarrow> (case fetchMeta wait backoff ts of (r, ps) \<Rightarrow> (r, 1000000000 # ps)))"

definition path_base :: "bytes \<Rightarrow> bytes" where
  "path_base p =
     (if p = [] then ''.''
      else let t = rev (dropWhile (\<lambda>c. c = CHR ''/'') (rev p))
           in if t = [] then ''/'' else rev (takeWhile (\<lambda>c. c \<noteq> CHR ''/'') (rev t)))"

record Rsync =
  rc_MasterHost :: bytes
  rc_MasterPort :: int
  rc_DBName :: bytes
  rc_DumpPath :: bytes
  rc_ChunkBytes :: int
  rc_WaitBgsaveTimeout :: int
  rc_Concurrency :: int

definition defaultChunkBytes :: int where
  "defaultChunkBytes = 4 * 1024 * 1024"

text \<open>The master: its meta answers, its file service and how many responses a connection delivers.\<close>

record master =
  ms_meta :: "(int \<times> meta_try) list"
  ms_serve :: "bytes \<Rightarrow> 64 word \<Rightarrow> 64 word \<Rightarrow> FileResp"
  ms_budget :: "bytes \<Rightarrow> nat"

type_synonym dump = "(bytes \<times> bytes) list"

definition fetch_into :: "master \<Rightarrow> bytes \<Rightarrow> int \<Rightarrow> bytes \<Rightarrow> dump \<Rightarrow> dbsync_error option \<times> dump" where
  "fetch_into m uuid chunk f d =
     (case fetchFile (ms_budget m f) (ms_serve m) uuid (word_of_int chunk) f of
        (e, c) \<Rightarrow> (e, if f = [] then d else AList.update f c d))"

definition rsync_Begin :: "Rsync \<Rightarrow> master \<Rightarrow> bool \<Rightarrow> dbsync_error + (bytes \<times> bytes list \<times> dump)" where
  "rsync_Begin c m prepared =
     (if rc_MasterHost c = [] \<or> rc_MasterPort c = 0 \<or> rc_DBName c = [] \<or> rc_DumpPath c = [] then Inl ERsyncArgs
      else if \<not> prepared then Inl EPrepareDump
      else let wait = (if rc_WaitBgsaveTimeout c \<le> 0 then 1800000000000 else rc_WaitBgsaveTimeout c)
           in case fst (fetchMeta wait 1000000000 (ms_meta m)) of
                Inl e \<Rightarrow> Inl e
              | Inr (uuid, names) \<Rightarrow>
                  (case find (\<lambda>f. path_base f = ''info'') names of
                     None \<Rightarrow> Inr (uuid, names, [])
                   | Some f \<Rightarrow>
                       (case fetch_into m uuid defaultChunkBytes f [] of
                          (Some e, d) \<Rightarrow> Inl e
                        | (None, d) \<Rightarrow> Inr (uuid, names, d))))"

text \<open>The files \<open>Rest\<close> transfers, its chunk size and the size of its worker pool.\<close>

definition rest_work :: "bytes list \<Rightarrow> bytes list" where
  "rest_work names = filter (\<lambda>f. path_base f \<noteq> ''info'') names"

definition rest_chunk :: "Rsync \<Rightarrow> int" where
  "rest_chunk c = (if rc_ChunkBytes c \<le> 0 then defaultChunkBytes else rc_ChunkBytes c)"

definition rest_workers :: "Rsync \<Rightarrow> bytes list \<Rightarrow> nat" where
  "rest_workers c work =
     (let n = (if rc_Concurrency c \<le> 0 then 4 else rc_Concurrency c)
      in if n > int (length work) \<and> work \<noteq> [] then length work else nat n)"

datatype worker_pc = WIdle | WFetch bytes | WDone

record pool =
  p_next :: nat
  p_err :: bool
  p_workers :: "worker_pc list"
  p_dump :: dump

text \<open>The locked region in which a worker claims its next file.\<close>

definition worker_claim :: "bytes list \<Rightarrow> nat \<Rightarrow> pool \<Rightarrow> pool" where
  "worker_claim work i p =
     (if p_err p \<or> p_next p \<ge> length work then p\<lparr>p_workers := (p_workers p)[i := WDone]\<rparr>
      else let f = work ! p_next p
           in p\<lparr>p_next := p_next p + 1, p_workers := (p_workers p)[i := (if f = [] then WDone else WFetch f)]\<rparr>)"

definition worker_finish :: "master \<Rightarrow> bytes \<Rightarrow> int \<Rightarrow> nat \<Rightarrow> bytes \<Rightarrow> pool \<Rightarrow> pool" where
  "worker_finish m uuid chunk i f p =
     (case fetch_into m uuid chunk f (p_dump p) of
        (Some e, d) \<Rightarrow> p\<lparr>p_err := True, p_dump := d, p_workers := (p_workers p)[i := WDone]\<rparr>
      | (None, d) \<Rightarrow> p\<lparr>p_dump := d, p_workers := (p_workers p)[i := WIdle]\<rparr>)"

inductive pool_step :: "master \<Rightarrow> bytes \<Rightarrow> int \<Rightarrow> bytes list \<Rightarrow> pool \<Rightarrow> pool \<Rightarrow> bool" for m uuid chunk work where
  claim: "i < length (p_workers p) \<Longrightarrow> p_workers p ! i = WIdle \<Longrightarrow> pool_step m uuid chunk work p (worker_claim work i p)"
| finish: "i < length (p_workers p) \<Longrightarrow> p_workers p ! i = WFetch f \<Longrightarrow>
    pool_step m uuid chunk work p (worker_finish m uuid chunk i f p)"

inductive pool_reach :: "master \<Rightarrow> bytes \<Rightarrow> int \<Rightarrow> bytes list \<Rightarrow> pool \<Rightarrow> pool \<Rightarrow> bool" for m uuid chunk work p0 where
  pool_start: "pool_reach m uuid chunk work p0 p0"
| pool_more: "pool_reach m uuid chunk work p0 p \<Longrightarrow> pool_step m uuid chunk work p q \<Longrightarrow> pool_reach m uuid chunk work p0 q"

definition rest_pool :: "Rsync \<Rightarrow> bytes list \<Rightarrow> dump \<Rightarrow> pool" where
  "rest_pool c names d =
     \<lparr>p_next = 0, p_err = False, p_workers = replicate (rest_workers c (rest_work names)) WIdle, p_dump = d\<rparr>"

section \<open>From records to events\<close>

record DumpRecord =
  rec_Type :: bytes
  rec_Key :: bytes
  rec_RawRESP :: bytes

datatype next_result = NextCancelled | NextErr | NextEnd | NextRec DumpRecord

datatype engine_error = EngCancelled | EngRead | EngMalformed bytes | EngPanic | EngEmit

record EngineConfig =
  eng_DBName :: bytes
  eng_SourceID :: bytes
  eng_IncludeTTL :: bool

definition opForCommand :: "bytes \<Rightarrow> Op" where
  "opForCommand cmd = (if to_upper cmd \<in> {''EXPIRE'', ''PEXPIRE''} then OpUpdate else OpRead)"

definition snapshot_event :: "EngineConfig \<Rightarrow> position \<Rightarrow> 64 word \<Rightarrow> nat \<Rightarrow> DumpRecord \<Rightarrow> bytes list \<Rightarrow> Event" where
  "snapshot_event c pos now n rec argv =
     \<lparr>EvSchemaVersion = SchemaVersion, EvPhase = PhaseSnapshot, EvOp = opForCommand (argv ! 0), EvDB = eng_DBName c,
      EvType = rec_Type rec, EvKey = rec_Key rec, EvCommand = argv ! 0, EvArgs = argv,
      EvSource = \<lparr>SrcID = eng_SourceID c, SrcDB = eng_DBName c, SrcFilenum = Filenum pos, SrcOffset = Offset pos,
                  Seq = of_nat n + 1, ExecTimeSec = now\<rparr>\<rparr>"

text \<open>
  \<open>Engine.Emit\<close>: an error or the end, the number of events emitted, and the state of the callback.
  The reader's results come with the clock; their list ends with the dump.
\<close>

fun engine_Emit :: "EngineConfig \<Rightarrow> position \<Rightarrow> (Event \<Rightarrow> 's \<Rightarrow> bool \<times> 's) \<Rightarrow> (next_result \<times> 64 word) list \<Rightarrow> nat \<Rightarrow> 's \<Rightarrow>
    engine_error option \<times> nat \<times> 's" where
  "engine_Emit c pos emit [] n s = (None, n, s)"
| "engine_Emit c pos emit ((res, now) # rest) n s =
     (case res of
        NextCancelled \<Rightarrow> (Some EngCancelled, n, s)
      | NextErr \<Rightarrow> (Some EngRead, n, s)
      | NextEnd \<Rightarrow> (None, n, s)
      | NextRec rec \<Rightarrow>
          (case ParseArray (rec_RawRESP rec) of
             Error e \<Rightarrow> (Some (EngMalformed (rec_Key rec)), n, s)
           | Panic \<Rightarrow> (Some EngPanic, n, s)
           | Ok argv \<Rightarrow>
               if argv = [] then (Some (EngMalformed (rec_Key rec)), n, s)
               else case emit (snapshot_event c pos now n rec argv) s of
                      (False, s1) \<Rightarrow> (Some EngEmit, n, s1)
                    | (True, s1) \<Rightarrow> engine_Emit c pos emit rest (Suc n) s1))"


section \<open>The anchor is read as written\<close>

text \<open>
  The anchor is the position the master recorded: an info file with three header lines, the file
  number and the offset is read as exactly that position, whatever the header lines hold and
  whatever follows.
\<close>
theorem bgsave_info_round_trip:
  assumes "CHR 0x0A \<notin> set l0" "CHR 0x0A \<notin> set l1" "CHR 0x0A \<notin> set l2"
  shows "LoadBgsaveInfo (Some (l0 @ [CHR 0x0A] @ l1 @ [CHR 0x0A] @ l2 @ [CHR 0x0A] @ format_uint (unat (Filenum p)) @ [CHR 0x0A] @
      format_uint (unat (Offset p)) @ [CHR 0x0A] @ rest)) root = Inr p"
proof -
  have "unat (Filenum p) < 2 ^ 32" "unat (Offset p) < 2 ^ 64" using unsigned_less [of "Filenum p", where 'a = nat] unsigned_less [of "Offset p", where 'a = nat] by simp_all
  moreover have "\<not> length (split_lines rest) = 0" using split_lines_nonempty by simp
  ultimately show ?thesis
    using assms by (simp add: LoadBgsaveInfo_def parse_info_def split_lines_cons digits_one_line trim_digits parse_uint_format Let_def)
qed

section \<open>Files are copied exactly\<close>

text \<open>A master that serves a file: the bytes asked for, their number, and whether they reach its end.\<close>

definition serve_file :: "bytes \<Rightarrow> bytes \<Rightarrow> 64 word \<Rightarrow> 64 word \<Rightarrow> FileResp" where
  "serve_file content uuid off cnt =
     (let data = take (unat cnt) (drop (unat off) content)
      in \<lparr>fr_ok = True, fr_uuid = uuid, fr_data = data, fr_count = of_nat (length data),
          fr_eof = (unat off + length data \<ge> length content)\<rparr>)"

lemma fetch_loop_copies:
  assumes "length content < 2 ^ 63" "0 < unat chunk"
  shows "j \<le> length content \<Longrightarrow> length content - j < k * unat chunk \<or> (k > 0 \<and> j = length content) \<Longrightarrow>
    fetch_loop k (serve_file content uuid) uuid chunk (of_nat j) (take j content) = (None, content)"
proof (induction k arbitrary: j)
  case (Suc k)
  let ?c = "unat chunk"
  let ?data = "take ?c (drop j content)"
  have b: "int j < 2 ^ 63" using Suc.prems(1) assms(1) by simp
  have j1: "unat (of_nat j :: 64 word) = j" using Suc.prems(1) assms(1) by (simp add: unat_of_nat)
  then have u: "uint (of_nat j :: 64 word) = int j" by (simp only: uint_nat)
  have "sint (of_nat j :: 64 word) = int j"
    unfolding sint_uint u using b by (intro signed_take_bit_int_eq_self) auto
  then have j: "unat (of_nat j :: 64 word) = j" "\<not> sint (of_nat j :: 64 word) < 0" using j1 by auto
  have w: "write_seek (take j content) j ?data = take (j + length ?data) content"
    using Suc.prems(1) by (auto simp: write_seek_def take_add min_def)
  have sf: "serve_file content uuid (of_nat j) chunk =
      \<lparr>fr_ok = True, fr_uuid = uuid, fr_data = ?data, fr_count = of_nat (length ?data), fr_eof = (j + length ?data \<ge> length content)\<rparr>"
    by (simp add: serve_file_def Let_def j)
  show ?case
  proof (cases "j + length ?data \<ge> length content")
    case True
    then show ?thesis using j w by (simp add: sf Let_def del: length_take)
  next
    case False
    then have l: "length ?data = ?c" by simp
    have "fetch_loop k (serve_file content uuid) uuid chunk (of_nat (j + ?c)) (take (j + ?c) content) = (None, content)"
      using False l Suc.prems assms(2) by (intro Suc.IH) auto
    then show ?thesis using False j w l by (simp add: sf Let_def del: length_take)
  qed
qed simp

text \<open>
  C14. A file is transferred completely and exactly: against a master that serves its bytes,
  \<open>fetchFile\<close> ends after one response per chunk, and the local file is the remote one.
\<close>
theorem fetchFile_copies:
  assumes "name \<noteq> []" "length content < 2 ^ 63" "0 < unat chunk" "length content div unat chunk < k"
  shows "fetchFile k (\<lambda>_. serve_file content uuid) uuid chunk name = (None, content)"
proof -
  have "length content < k * unat chunk"
    using assms(3,4) by (metis div_less_iff_less_mult)
  then show ?thesis using fetch_loop_copies [OF assms(2,3), of 0 k uuid] assms(1) by (simp add: fetchFile_def)
qed


section \<open>The worker pool fetches every file\<close>

definition fetched :: "master \<Rightarrow> bytes \<Rightarrow> int \<Rightarrow> bytes \<Rightarrow> dump \<Rightarrow> bool" where
  "fetched m uuid chunk f d \<longleftrightarrow>
     fst (fetchFile (ms_budget m f) (ms_serve m) uuid (word_of_int chunk) f) = None \<and>
     map_of d f = Some (snd (fetchFile (ms_budget m f) (ms_serve m) uuid (word_of_int chunk) f))"

definition pool_inv :: "master \<Rightarrow> bytes \<Rightarrow> int \<Rightarrow> bytes list \<Rightarrow> pool \<Rightarrow> bool" where
  "pool_inv m uuid chunk work p \<longleftrightarrow> p_next p \<le> length work \<and> p_workers p \<noteq> [] \<and>
     (\<not> p_err p \<longrightarrow> (\<forall>j < p_next p. WFetch (work ! j) \<in> set (p_workers p) \<or> fetched m uuid chunk (work ! j) (p_dump p)) \<and>
        (WDone \<in> set (p_workers p) \<longrightarrow> p_next p = length work))"

lemma fetch_into_ok:
  assumes "fetch_into m uuid chunk f d = (None, d')" "f \<noteq> []"
  shows "fetched m uuid chunk f d'" "fetched m uuid chunk g d \<Longrightarrow> fetched m uuid chunk g d'"
  using assms by (auto simp: fetch_into_def fetched_def update_conv' split: prod.splits)

lemma set_update_keep: "x \<in> set xs \<Longrightarrow> xs ! i \<noteq> x \<Longrightarrow> x \<in> set (xs[i := y])"
  by (metis in_set_conv_nth length_list_update nth_list_update_neq)

lemma set_update_other: "x \<in> set (xs[i := y]) \<Longrightarrow> x \<noteq> y \<Longrightarrow> x \<in> set xs"
  using set_update_subset_insert [of xs i y] by blast

lemma set_update_cases: "x \<in> set (xs[i := y]) \<Longrightarrow> x = y \<or> x \<in> set xs"
  using set_update_subset_insert [of xs i y] by blast

lemma pool_inv_claim:
  assumes inv: "pool_inv m uuid chunk work p" and i: "i < length (p_workers p)" "p_workers p ! i = WIdle"
    and names: "[] \<notin> set work"
  shows "pool_inv m uuid chunk work (worker_claim work i p)"
proof (cases "p_err p \<or> p_next p \<ge> length work")
  case True
  then show ?thesis using inv i set_update_keep [of _ "p_workers p" i] by (auto simp: pool_inv_def worker_claim_def)
next
  case False
  let ?f = "work ! p_next p"
  have f: "?f \<noteq> []" using False names by (metis linorder_not_le nth_mem)
  have "WFetch ?f \<in> set ((p_workers p)[i := WFetch ?f])" using i by (simp add: set_update_memI)
  moreover have "WDone \<notin> set ((p_workers p)[i := WFetch ?f])"
    using inv False set_update_other [of WDone "p_workers p" i] by (auto simp: pool_inv_def)
  ultimately show ?thesis
    using inv False f i set_update_keep [of _ "p_workers p" i] by (auto simp: pool_inv_def worker_claim_def less_Suc_eq)
qed

lemma pool_inv_finish:
  assumes inv: "pool_inv m uuid chunk work p" and i: "i < length (p_workers p)" "p_workers p ! i = WFetch f"
    and names: "f \<noteq> []"
  shows "pool_inv m uuid chunk work (worker_finish m uuid chunk i f p)"
proof -
  obtain e d where e: "fetch_into m uuid chunk f (p_dump p) = (e, d)" by fastforce
  show ?thesis
  proof (cases e)
    case None
    note ok = fetch_into_ok [OF e [unfolded None] names]
    have "WDone \<in> set ((p_workers p)[i := WIdle]) \<Longrightarrow> WDone \<in> set (p_workers p)"
      using set_update_other [of WDone "p_workers p" i] by auto
    moreover have "WFetch g \<in> set ((p_workers p)[i := WIdle]) \<or> fetched m uuid chunk g d"
      if "WFetch g \<in> set (p_workers p) \<or> fetched m uuid chunk g (p_dump p)" for g
      using that ok set_update_keep [of "WFetch g" "p_workers p" i] i(2) by (cases "g = f") auto
    ultimately show ?thesis using inv e None by (auto simp: pool_inv_def worker_finish_def)
  next
    case (Some x)
    then show ?thesis using inv e by (auto simp: pool_inv_def worker_finish_def)
  qed
qed

lemma pool_reach_inv:
  assumes "pool_reach m uuid chunk work p0 p" "pool_inv m uuid chunk work p0" "[] \<notin> set work"
    and "\<forall>f. WFetch f \<in> set (p_workers p0) \<longrightarrow> f \<noteq> []"
  shows "pool_inv m uuid chunk work p \<and> (\<forall>f. WFetch f \<in> set (p_workers p) \<longrightarrow> f \<noteq> [])"
  using assms
proof (induction rule: pool_reach.induct)
  case (pool_more p q)
  then have inv: "pool_inv m uuid chunk work p" "\<forall>f. WFetch f \<in> set (p_workers p) \<longrightarrow> f \<noteq> []" by auto
  from pool_more(2) show ?case
  proof cases
    case (claim i)
    have "\<forall>f. WFetch f \<in> set (p_workers q) \<longrightarrow> f \<noteq> []"
      using inv(2) claim by (auto simp: worker_claim_def Let_def split: if_splits dest!: set_update_cases)
    then show ?thesis using pool_inv_claim [OF inv(1) claim(2,3) pool_more.prems(2)] claim(1) by simp
  next
    case (finish i f)
    then have f: "f \<noteq> []" using inv(2) nth_mem by metis
    have "\<forall>f. WFetch f \<in> set (p_workers q) \<longrightarrow> f \<noteq> []"
      using inv(2) finish by (auto simp: worker_finish_def split: prod.splits option.splits dest!: set_update_cases)
    then show ?thesis using pool_inv_finish [OF inv(1) finish(2,3) f] finish(1) by simp
  qed
qed auto

text \<open>
  The transfer is complete when it reports success: whatever the interleaving of the workers, once
  all of them have returned and none reported an error, every file of the dump has been fetched
  with its content. The master names no file by the empty string.
\<close>
theorem rest_fetches_every_file:
  assumes "pool_reach m uuid (rest_chunk c) (rest_work names) (rest_pool c names d) p" "[] \<notin> set names"
    and "set (p_workers p) = {WDone}" "\<not> p_err p" "f \<in> set (rest_work names)"
  shows "fetched m uuid (rest_chunk c) f (p_dump p)"
proof -
  have "rest_workers c (rest_work names) > 0" by (auto simp: rest_workers_def Let_def)
  then have "pool_inv m uuid (rest_chunk c) (rest_work names) (rest_pool c names d)"
    by (auto simp: pool_inv_def rest_pool_def)
  moreover have "[] \<notin> set (rest_work names)" using assms(2) by (auto simp: rest_work_def)
  ultimately have inv: "pool_inv m uuid (rest_chunk c) (rest_work names) p"
    using pool_reach_inv [OF assms(1)] by (auto simp: rest_pool_def)
  obtain j where "j < length (rest_work names)" "f = rest_work names ! j" using assms(5) by (metis in_set_conv_nth)
  then show ?thesis using inv assms(3,4) by (auto simp: pool_inv_def)
qed

text \<open>
  With a file named by the empty string in its list and one worker, the transfer reports success
  although it never fetched what comes after: the worker takes the empty name for the end of the list.
\<close>
theorem empty_name_ends_transfer:
  "pool_reach m uuid chunk [[], ''000001.sst''] \<lparr>p_next = 0, p_err = False, p_workers = [WIdle], p_dump = []\<rparr>
     \<lparr>p_next = 1, p_err = False, p_workers = [WDone], p_dump = []\<rparr>"
proof -
  let ?p = "\<lparr>p_next = 0, p_err = False, p_workers = [WIdle], p_dump = []\<rparr>"
  have "pool_step m uuid chunk [[], ''000001.sst''] ?p (worker_claim [[], ''000001.sst''] 0 ?p)"
    by (rule claim) simp_all
  then show ?thesis using pool_more [OF pool_start] by (force simp: worker_claim_def)
qed

section \<open>Every record becomes one event\<close>

text \<open>
  C16. The engine emits one snapshot event per dump record, in the order of the dump, with the
  record's key and parsed command, numbered from one and anchored at the dump's position.
\<close>
theorem engine_emits_every_record:
  assumes "\<forall>x \<in> set rl. \<exists>argv. ParseArray (rec_RawRESP (fst x)) = Ok argv \<and> argv \<noteq> []"
  shows "\<exists>evs. engine_Emit c pos (\<lambda>ev s. (True, s @ [ev])) (map (\<lambda>(r, now). (NextRec r, now)) rl) 0 [] = (None, length rl, evs) \<and>
    length evs = length rl \<and>
    (\<forall>i < length rl. EvPhase (evs ! i) = PhaseSnapshot \<and> EvKey (evs ! i) = rec_Key (fst (rl ! i)) \<and>
       ParseArray (rec_RawRESP (fst (rl ! i))) = Ok (EvArgs (evs ! i)) \<and>
       EvSource (evs ! i) = \<lparr>SrcID = eng_SourceID c, SrcDB = eng_DBName c, SrcFilenum = Filenum pos, SrcOffset = Offset pos,
         Seq = of_nat i + 1, ExecTimeSec = snd (rl ! i)\<rparr>)"
proof -
  let ?good = "\<lambda>n ev x. EvPhase ev = PhaseSnapshot \<and> EvKey ev = rec_Key (fst x) \<and> ParseArray (rec_RawRESP (fst x)) = Ok (EvArgs ev) \<and>
       EvSource ev = \<lparr>SrcID = eng_SourceID c, SrcDB = eng_DBName c, SrcFilenum = Filenum pos, SrcOffset = Offset pos,
         Seq = of_nat n + 1, ExecTimeSec = snd x\<rparr>"
  have "\<exists>new. engine_Emit c pos (\<lambda>ev s. (True, s @ [ev])) (map (\<lambda>(r, now). (NextRec r, now)) rl) n evs = (None, n + length rl, evs @ new) \<and>
      length new = length rl \<and> (\<forall>i < length rl. ?good (n + i) (new ! i) (rl ! i))" for n evs
    using assms
  proof (induction rl arbitrary: n evs)
    case (Cons x rl)
    obtain r now where x: "x = (r, now)" by fastforce
    obtain argv where a: "ParseArray (rec_RawRESP r) = Ok argv" "argv \<noteq> []" using Cons.prems x by auto
    let ?ev = "snapshot_event c pos now n r argv"
    obtain new where new: "engine_Emit c pos (\<lambda>ev s. (True, s @ [ev])) (map (\<lambda>(r, now). (NextRec r, now)) rl) (Suc n) (evs @ [?ev]) =
        (None, Suc n + length rl, (evs @ [?ev]) @ new)" "length new = length rl" "\<forall>i < length rl. ?good (Suc n + i) (new ! i) (rl ! i)"
      using Cons.IH [of "Suc n" "evs @ [?ev]"] Cons.prems by auto
    have "?good (n + i) ((?ev # new) ! i) ((x # rl) ! i)" if "i < length (x # rl)" for i
      using that new(3) a(1) x by (cases i) (auto simp: snapshot_event_def)
    then show ?case using new a x by (intro exI [of _ "?ev # new"]) auto
  qed auto
  from this [of 0 "[]"] show ?thesis by auto
qed

section \<open>Witnesses\<close>

theorem bgsave_info_round_trip_witness:
  "LoadBgsaveInfo (Some (''1s'' @ [CHR 0x0A] @ ''127.0.0.1'' @ [CHR 0x0A] @ ''9221'' @ [CHR 0x0A] @ format_uint (unat (Filenum \<lparr>Filenum = 7, Offset = 42\<rparr>)) @
      [CHR 0x0A] @ format_uint (unat (Offset \<lparr>Filenum = 7, Offset = 42\<rparr>)) @ [CHR 0x0A] @ [])) None = Inr \<lparr>Filenum = 7, Offset = 42\<rparr>"
  by (rule bgsave_info_round_trip) simp_all

theorem fetchFile_copies_witness: "fetchFile 3 (\<lambda>_. serve_file ''hello'' ''u'') ''u'' 2 ''MANIFEST'' = (None, ''hello'')"
  by (rule fetchFile_copies) simp_all

definition demo_master_files :: master where
  "demo_master_files = \<lparr>ms_meta = [(0, MReady ''u'' [''info'', ''a''])], ms_serve = (\<lambda>_. serve_file ''x'' ''u''), ms_budget = (\<lambda>_. 1)\<rparr>"

definition demo_rsync :: Rsync where
  "demo_rsync = \<lparr>rc_MasterHost = ''h'', rc_MasterPort = 9221, rc_DBName = ''db0'', rc_DumpPath = ''d'', rc_ChunkBytes = 0,
     rc_WaitBgsaveTimeout = 0, rc_Concurrency = 1\<rparr>"

lemma demo_work: "rest_work [''info'', ''a''] = [''a'']" "rest_workers demo_rsync [''a''] = 1" "rest_chunk demo_rsync = 4194304"
  by (simp_all add: rest_work_def path_base_def rest_workers_def demo_rsync_def rest_chunk_def defaultChunkBytes_def Let_def)

lemma demo_fetch: "fetch_into demo_master_files ''u'' 4194304 ''a'' [] = (None, [(''a'', ''x'')])"
  by (simp add: fetch_into_def fetchFile_def demo_master_files_def serve_file_def write_seek_def Let_def)

lemma demo_pool:
  "pool_reach demo_master_files ''u'' (rest_chunk demo_rsync) (rest_work [''info'', ''a'']) (rest_pool demo_rsync [''info'', ''a''] [])
     \<lparr>p_next = 1, p_err = False, p_workers = [WDone], p_dump = [(''a'', ''x'')]\<rparr>"
proof -
  let ?st = "pool_step demo_master_files ''u'' 4194304 [''a'']"
  define p0 where "p0 = \<lparr>p_next = 0, p_err = False, p_workers = [WIdle], p_dump = []\<rparr>"
  define p1 where "p1 = worker_claim [''a''] 0 p0"
  define p2 where "p2 = worker_finish demo_master_files ''u'' 4194304 0 ''a'' p1"
  define p3 where "p3 = worker_claim [''a''] 0 p2"
  have e1: "p1 = \<lparr>p_next = 1, p_err = False, p_workers = [WFetch ''a''], p_dump = []\<rparr>"
    by (simp add: p1_def p0_def worker_claim_def)
  have e2: "p2 = \<lparr>p_next = 1, p_err = False, p_workers = [WIdle], p_dump = [(''a'', ''x'')]\<rparr>"
    unfolding p2_def e1 by (simp add: worker_finish_def demo_fetch)
  have e3: "p3 = \<lparr>p_next = 1, p_err = False, p_workers = [WDone], p_dump = [(''a'', ''x'')]\<rparr>"
    unfolding p3_def e2 by (simp add: worker_claim_def)
  have "?st p0 p1" unfolding p1_def by (rule claim) (simp_all add: p0_def)
  moreover have "?st p1 p2" unfolding p2_def by (rule finish) (simp_all add: e1)
  moreover have "?st p2 p3" unfolding p3_def by (rule claim) (simp_all add: e2)
  ultimately have "pool_reach demo_master_files ''u'' 4194304 [''a''] p0 p3" by (meson pool_start pool_more)
  then show ?thesis by (simp add: demo_work rest_pool_def p0_def e3)
qed

theorem rest_fetches_every_file_witness: "fetched demo_master_files ''u'' (rest_chunk demo_rsync) ''a'' [(''a'', ''x'')]"
  using rest_fetches_every_file [OF demo_pool, of "''a''"] by (simp add: demo_work)

theorem engine_emits_every_record_witness:
  "\<exists>evs. engine_Emit \<lparr>eng_DBName = ''db0'', eng_SourceID = ''s'', eng_IncludeTTL = True\<rparr> zero_pos (\<lambda>ev s. (True, s @ [ev]))
     (map (\<lambda>(r, now). (NextRec r, now)) [(\<lparr>rec_Type = ''string'', rec_Key = ''k'', rec_RawRESP = SerializeArray [''SET'', ''k'', ''v'']\<rparr>, 9)]) 0 [] =
     (None, 1, evs) \<and> length evs = 1"
proof -
  have "ParseArray (SerializeArray [''SET'', ''k'', ''v'']) = Ok [''SET'', ''k'', ''v'']" by code_simp
  then show ?thesis
    using engine_emits_every_record [of "[(\<lparr>rec_Type = ''string'', rec_Key = ''k'', rec_RawRESP = SerializeArray [''SET'', ''k'', ''v'']\<rparr>, 9)]"
        "\<lparr>eng_DBName = ''db0'', eng_SourceID = ''s'', eng_IncludeTTL = True\<rparr>" zero_pos] by auto
qed

end
