(* ===== verification/DbsyncFetch.thy ===== *)
theory DbsyncFetch
  imports Dbsync Client
begin

text \<open>
  Fetching a dump end to end (\<open>Fetch\<close> of \<^verbatim>\<open>internal/dbsync/dbsync.go\<close>): the forced save, the handshake, the
  start of the transfer, the anchor, the worker pool and the callback, composed of the operations of
  the theory \<open>Dbsync\<close>. The pool's final state is an argument; it is one that the pool can reach.
\<close>

section \<open>The composition\<close>

text \<open>What the forced save ended with; \<open>Ok\<close> also where none is asked for.\<close>

fun save_error :: "client_error \<Rightarrow> dbsync_error" where
  "save_error CCancelled = ECtxCancelled"
| "save_error CDeadline = EBgsaveDeadline"
| "save_error _ = EBgsave"

record save_env =
  sv_passwd :: bytes
  sv_conn :: "client option"
  sv_polls :: "(bool \<times> bool) list"

definition ensureFresh :: "bool \<Rightarrow> save_env \<Rightarrow> (dbsync_error, unit) outcome" where
  "ensureFresh fresh sv =
     (if \<not> fresh then Ok ()
      else case force_save (sv_passwd sv) (sv_conn sv) (sv_polls sv) of Ok c \<Rightarrow> Ok () | Error e \<Rightarrow> Error (save_error e) | Panic \<Rightarrow> Panic)"

text \<open>The info file lands below the dump root, or one level down where the server ships the database's directory.\<close>

definition fetch_anchor :: "bytes \<Rightarrow> dump \<Rightarrow> dbsync_error + position" where
  "fetch_anchor db d =
     (let root = map_of d ''info''
      in LoadBgsaveInfo (if root \<noteq> None then root else map_of d (db @ ''/info'')) root)"

datatype fetch_step = TBgsave | TSetup | TBegin | TAnchorKnown | TRest | TClosed | TStream

text \<open>
  The result comes with the dump and the trace of the calls that succeeded, \<open>TClosed\<close> being the end of
  the handshake connection and \<open>TStream\<close> the callback that opens the stream.
\<close>

definition dbsync_Fetch :: "bool \<Rightarrow> save_env \<Rightarrow> run_error option \<Rightarrow> Rsync \<Rightarrow> master \<Rightarrow> bool \<Rightarrow>
    (bytes \<Rightarrow> bytes list \<Rightarrow> dump \<Rightarrow> pool) \<Rightarrow> (position \<Rightarrow> run_error option) \<Rightarrow>
    (dbsync_error, position) outcome \<times> fetch_step list \<times> dump" where
  "dbsync_Fetch fresh sv setup c m prepared schedule onAnchor =
     (case ensureFresh fresh sv of
        Error e \<Rightarrow> (Error e, [], [])
      | Panic \<Rightarrow> (Panic, [], [])
      | Ok u \<Rightarrow>
          let t0 = (if fresh then [TBgsave] else [])
          in case setup of
               Some e \<Rightarrow> (Error (ESetup e), t0, [])
             | None \<Rightarrow>
                 (case rsync_Begin c m prepared of
                    Inl e \<Rightarrow> (Error e, t0 @ [TSetup], [])
                  | Inr (uuid, names, d) \<Rightarrow>
                      (case fetch_anchor (rc_DBName c) d of
                         Inl e \<Rightarrow> (Error e, t0 @ [TSetup, TBegin], d)
                       | Inr pos \<Rightarrow>
                           let p = schedule uuid names d
                           in if p_err p then (Error EFetchFile, t0 @ [TSetup, TBegin, TAnchorKnown, TClosed], p_dump p)
                              else case onAnchor pos of
                                     Some e \<Rightarrow> (Error (EOnAnchor e), t0 @ [TSetup, TBegin, TAnchorKnown, TRest, TClosed], p_dump p)
                                   | None \<Rightarrow> (Ok pos, t0 @ [TSetup, TBegin, TAnchorKnown, TRest, TClosed, TStream], p_dump p))))"

definition schedule_ok :: "Rsync \<Rightarrow> master \<Rightarrow> bool \<Rightarrow> (bytes \<Rightarrow> bytes list \<Rightarrow> dump \<Rightarrow> pool) \<Rightarrow> bool" where
  "schedule_ok c m prepared schedule \<longleftrightarrow>
     (\<forall>uuid names d. rsync_Begin c m prepared = Inr (uuid, names, d) \<longrightarrow>
        pool_reach m uuid (rest_chunk c) (rest_work names) (rest_pool c names d) (schedule uuid names d) \<and>
        set (p_workers (schedule uuid names d)) = {WDone})"

lemma dbsync_Fetch_okD:
  assumes "dbsync_Fetch fresh sv setup c m prepared schedule onAnchor = (Ok pos, trace, d)"
  obtains uuid names d0 where "rsync_Begin c m prepared = Inr (uuid, names, d0)" "fetch_anchor (rc_DBName c) d0 = Inr pos"
    "\<not> p_err (schedule uuid names d0)" "d = p_dump (schedule uuid names d0)"
    "trace = (if fresh then [TBgsave] else []) @ [TSetup, TBegin] @ [TAnchorKnown, TRest, TClosed, TStream]"
  using assms by (auto simp: dbsync_Fetch_def Let_def split: option.splits sum.splits if_splits prod.splits outcome.splits)

section \<open>The pool ends\<close>

text \<open>What a pool has left to do: files to claim, transfers to finish, workers to send home.\<close>

fun pc_work :: "worker_pc \<Rightarrow> nat" where
  "pc_work WIdle = 1"
| "pc_work (WFetch f) = 2"
| "pc_work WDone = 0"

definition pool_work :: "bytes list \<Rightarrow> pool \<Rightarrow> nat" where
  "pool_work work p = 3 * (length work - p_next p) + sum_list (map pc_work (p_workers p))"

lemma sum_list_update_lt:
  "i < length xs \<Longrightarrow> sum_list (map pc_work (xs[i := y])) + pc_work (xs ! i) = sum_list (map pc_work xs) + pc_work y"
  by (induction xs arbitrary: i) (auto split: nat.splits)

lemma pool_step_less: "pool_step m uuid chunk work p q \<Longrightarrow> pool_work work q < pool_work work p"
proof (induction rule: pool_step.induct)
  case (claim i p)
  then show ?case
    using sum_list_update_lt [of i "p_workers p" WDone] sum_list_update_lt [of i "p_workers p" "WFetch (work ! p_next p)"]
    by (auto simp: pool_work_def worker_claim_def Let_def)
next
  case (finish i p f)
  then show ?case
    using sum_list_update_lt [of i "p_workers p" WDone] sum_list_update_lt [of i "p_workers p" WIdle]
    by (auto simp: pool_work_def worker_finish_def split: prod.splits option.splits)
qed

lemma pool_stuck:
  assumes "\<And>q. \<not> pool_step m uuid chunk work p q"
  shows "set (p_workers p) \<subseteq> {WDone}"
proof
  fix w assume "w \<in> set (p_workers p)"
  then obtain i where i: "i < length (p_workers p)" "p_workers p ! i = w" by (metis in_set_conv_nth)
  then show "w \<in> {WDone}" using assms claim finish by (cases w) blast+
qed

lemma pool_reach_trans: "pool_reach m uuid chunk work q r \<Longrightarrow> pool_reach m uuid chunk work p q \<Longrightarrow> pool_reach m uuid chunk work p r"
  by (induction rule: pool_reach.induct) (auto intro: pool_more)

lemma pool_length: "pool_reach m uuid chunk work p q \<Longrightarrow> length (p_workers q) = length (p_workers p)"
proof (induction rule: pool_reach.induct)
  case (pool_more q r)
  from pool_more.hyps(2) have "length (p_workers r) = length (p_workers q)"
    by cases (auto simp: worker_claim_def worker_finish_def Let_def split: prod.splits option.splits)
  then show ?case using pool_more.IH by simp
qed simp

lemma pool_finishes: "\<exists>q. pool_reach m uuid chunk work p q \<and> set (p_workers q) \<subseteq> {WDone}"
proof (induction "pool_work work p" arbitrary: p rule: less_induct)
  case less
  show ?case
  proof (cases "\<exists>q. pool_step m uuid chunk work p q")
    case True
    then obtain q where q: "pool_step m uuid chunk work p q" by blast
    from less [OF pool_step_less [OF q]] show ?thesis using pool_reach_trans pool_more [OF pool_start q] by blast
  next
    case False
    then show ?thesis using pool_stuck pool_start by blast
  qed
qed

lemma steps_bounded: "(pool_step m uuid chunk work ^^ n) p q \<Longrightarrow> n + pool_work work q \<le> pool_work work p"
proof (induction n arbitrary: q)
  case (Suc n)
  then obtain r where "(pool_step m uuid chunk work ^^ n) p r" "pool_step m uuid chunk work r q" by auto
  then show ?case using Suc.IH pool_step_less by fastforce
qed auto

text \<open>
  The bulk transfer returns: under every schedule the workers make at most three steps per file and
  one per worker, and a pool that can make no step has sent every worker home.
\<close>
theorem rest_returns:
  "((pool_step m uuid chunk (rest_work names) ^^ n) (rest_pool c names d) p \<longrightarrow>
      n \<le> 3 * length (rest_work names) + rest_workers c (rest_work names)) \<and>
   ((\<nexists>q. pool_step m uuid chunk (rest_work names) p q) \<longrightarrow> set (p_workers p) \<subseteq> {WDone})"
  using steps_bounded [of n m uuid chunk "rest_work names" "rest_pool c names d" p] pool_stuck [of m uuid chunk "rest_work names" p]
  by (auto simp: pool_work_def rest_pool_def sum_list_replicate)

text \<open>One schedule of the pool: the first worker that has not returned makes the next step.\<close>

fun run_pool :: "master \<Rightarrow> bytes \<Rightarrow> int \<Rightarrow> bytes list \<Rightarrow> nat \<Rightarrow> pool \<Rightarrow> pool" where
  "run_pool m uuid chunk work 0 p = p"
| "run_pool m uuid chunk work (Suc k) p =
     (case find (\<lambda>i. p_workers p ! i \<noteq> WDone) [0..<length (p_workers p)] of
        None \<Rightarrow> p
      | Some i \<Rightarrow> run_pool m uuid chunk work k
          (case p_workers p ! i of WFetch f \<Rightarrow> worker_finish m uuid chunk i f p | _ \<Rightarrow> worker_claim work i p))"

definition sequential_Rest :: "Rsync \<Rightarrow> master \<Rightarrow> bytes \<Rightarrow> bytes list \<Rightarrow> dump \<Rightarrow> pool" where
  "sequential_Rest c m uuid names d =
     run_pool m uuid (rest_chunk c) (rest_work names) (3 * length (rest_work names) + rest_workers c (rest_work names)) (rest_pool c names d)"

lemma run_pool_done:
  "pool_work work p \<le> k \<Longrightarrow> pool_reach m uuid chunk work p (run_pool m uuid chunk work k p) \<and>
     set (p_workers (run_pool m uuid chunk work k p)) \<subseteq> {WDone}"
proof (induction k arbitrary: p)
  case 0
  then have "pc_work w = 0" if "w \<in> set (p_workers p)" for w using that by (simp add: pool_work_def)
  then have "w = WDone" if "w \<in> set (p_workers p)" for w using that by (cases w) fastforce+
  then show ?case by (auto intro: pool_start)
next
  case (Suc k)
  show ?case
  proof (cases "find (\<lambda>i. p_workers p ! i \<noteq> WDone) [0..<length (p_workers p)]")
    case None
    then have "\<forall>i < length (p_workers p). p_workers p ! i = WDone" by (auto simp: find_None_iff)
    then show ?thesis using None by (auto simp: in_set_conv_nth intro: pool_start)
  next
    case (Some i)
    let ?q = "case p_workers p ! i of WFetch f \<Rightarrow> worker_finish m uuid chunk i f p | _ \<Rightarrow> worker_claim work i p"
    have "i < length (p_workers p)" "p_workers p ! i \<noteq> WDone" using Some by (auto simp: find_Some_iff)
    then have q: "pool_step m uuid chunk work p ?q" by (auto split: worker_pc.split intro: claim finish)
    then have "pool_work work ?q \<le> k" using pool_step_less [OF q] Suc.prems by simp
    from Suc.IH [OF this] show ?thesis using Some pool_reach_trans pool_more [OF pool_start q] by auto
  qed
qed

lemma sequential_Rest_ok: "schedule_ok c m prepared (sequential_Rest c m)"
proof -
  have "pool_reach m uuid (rest_chunk c) (rest_work names) (rest_pool c names d) (sequential_Rest c m uuid names d) \<and>
      set (p_workers (sequential_Rest c m uuid names d)) = {WDone}" for uuid names d
  proof -
    have "pool_work (rest_work names) (rest_pool c names d) \<le> 3 * length (rest_work names) + rest_workers c (rest_work names)"
      by (simp add: pool_work_def rest_pool_def sum_list_replicate)
    from run_pool_done [OF this, of m uuid "rest_chunk c"]
    have r: "pool_reach m uuid (rest_chunk c) (rest_work names) (rest_pool c names d) (sequential_Rest c m uuid names d)"
      "set (p_workers (sequential_Rest c m uuid names d)) \<subseteq> {WDone}" by (simp_all add: sequential_Rest_def)
    have "rest_workers c (rest_work names) > 0" by (auto simp: rest_workers_def Let_def)
    then have "p_workers (sequential_Rest c m uuid names d) \<noteq> []" using pool_length [OF r(1)] by (auto simp: rest_pool_def)
    then show ?thesis using r by (cases "p_workers (sequential_Rest c m uuid names d)") auto
  qed
  then show ?thesis by (auto simp: schedule_ok_def)
qed

section \<open>The dump and its anchor\<close>

lemma fetch_loop_mono: "fetch_loop k serve uuid chunk off out = (None, r) \<Longrightarrow> fetch_loop (k + n) serve uuid chunk off out = (None, r)"
  by (induction k arbitrary: off out) (auto simp: Let_def split: if_splits)

lemma fetchFile_sound:
  assumes "fetchFile k serve uuid chunk f = (None, r)" "serve f = serve_file content u" "length content < 2 ^ 63" "0 < unat chunk"
  shows "r = content"
proof -
  have f: "f \<noteq> []" "fetch_loop k (serve_file content u) uuid chunk 0 [] = (None, r)"
    using assms(1,2) by (auto simp: fetchFile_def split: if_splits)
  then have u: "u = uuid" by (cases k) (auto simp: serve_file_def Let_def split: if_splits)
  have "fetch_loop (k + Suc (length content)) (serve_file content u) uuid chunk 0 [] = (None, r)" by (rule fetch_loop_mono [OF f(2)])
  moreover have "length content < (k + Suc (length content)) * unat chunk"
    using mult_le_mono [of "Suc (length content)" "k + Suc (length content)" 1 "unat chunk"] assms(4) by simp
  then have "fetch_loop (k + Suc (length content)) (serve_file content u) uuid chunk (of_nat 0) (take 0 content) = (None, content)"
    unfolding u by (intro fetch_loop_copies [OF assms(3,4)]) simp_all
  ultimately show ?thesis by simp
qed

lemma pool_keeps_other:
  "pool_reach m uuid chunk work p q \<Longrightarrow> (\<forall>f. WFetch f \<in> set (p_workers p) \<longrightarrow> f \<in> set work) \<Longrightarrow>
     (\<forall>f. WFetch f \<in> set (p_workers q) \<longrightarrow> f \<in> set work) \<and> (g \<notin> set work \<longrightarrow> map_of (p_dump q) g = map_of (p_dump p) g)"
proof (induction rule: pool_reach.induct)
  case (pool_more q r)
  then have inv: "\<forall>f. WFetch f \<in> set (p_workers q) \<longrightarrow> f \<in> set work" "g \<notin> set work \<longrightarrow> map_of (p_dump q) g = map_of (p_dump p) g" by auto
  from pool_more(2) show ?case
  proof cases
    case (claim i)
    then show ?thesis using inv by (auto simp: worker_claim_def Let_def split: if_splits dest!: set_update_cases)
  next
    case (finish i f)
    then have "f \<in> set work" using inv(1) nth_mem by metis
    then show ?thesis
      using inv finish by (auto simp: worker_finish_def fetch_into_def update_conv' split: prod.splits option.splits if_splits dest!: set_update_cases)
  qed
qed auto

lemma fetchMeta_ready: "fst (fetchMeta wait backoff ts) = Inr (uuid, names) \<Longrightarrow> \<exists>t. (t, MReady uuid names) \<in> set ts"
  by (induction wait backoff ts rule: fetchMeta.induct) (auto split: if_splits meta_try.splits prod.splits)

lemma find_in: "find P xs = Some x \<Longrightarrow> x \<in> set xs \<and> P x"
  by (auto simp: find_Some_iff)

lemma rsync_BeginD:
  assumes "rsync_Begin c m prepared = Inr (uuid, names, d)"
  shows "\<exists>t. (t, MReady uuid names) \<in> set (ms_meta m)"
    "d = [] \<or> (\<exists>f \<in> set names. path_base f = ''info'' \<and> fetch_into m uuid defaultChunkBytes f [] = (None, d))"
  using assms fetchMeta_ready
  by (auto simp: rsync_Begin_def Let_def split: if_splits sum.splits option.splits prod.splits dest!: find_in)

text \<open>A master that serves its files under one snapshot, with no file named by the empty string.\<close>

definition serves :: "master \<Rightarrow> (bytes \<Rightarrow> bytes) \<Rightarrow> bool" where
  "serves m files \<longleftrightarrow> (\<exists>u. \<forall>f. ms_serve m f = serve_file (files f) u) \<and> (\<forall>f. length (files f) < 2 ^ 63) \<and>
     (\<forall>(t, a) \<in> set (ms_meta m). case a of MReady uuid names \<Rightarrow> [] \<notin> set names | _ \<Rightarrow> True)"

lemma fetched_content:
  assumes "serves m files" "fetchFile k (ms_serve m) uuid (word_of_int chunk) f = (None, r)" "0 < chunk" "chunk < 2 ^ 63"
  shows "r = files f"
proof -
  obtain u where u: "ms_serve m f = serve_file (files f) u" "length (files f) < 2 ^ 63" using assms(1) unfolding serves_def by blast
  have "0 < unat (word_of_int chunk :: 64 word)" using assms(3,4) by (simp add: unat_eq_nat_uint uint_word_of_int)
  then show ?thesis using fetchFile_sound [OF assms(2) u] by simp
qed

lemma LoadBgsaveInfo_Some: "LoadBgsaveInfo (Some x) y = parse_info x"
  by (simp add: LoadBgsaveInfo_def)

lemma fetch_anchor_single: "fetch_anchor db [(f, x)] = Inr pos \<Longrightarrow> parse_info x = Inr pos"
  by (auto simp: fetch_anchor_def Let_def LoadBgsaveInfo_def split: if_splits)


section \<open>The order of the calls\<close>

text \<open>
  The replication stream is opened only after the bulk transfer has completed and the handshake
  connection is closed, not before the transfer.
\<close>
theorem stream_opens_after_transfer:
  assumes "dbsync_Fetch fresh sv setup c m prepared schedule onAnchor = (Ok pos, trace, d)"
  shows "\<exists>pre. trace = pre @ [TAnchorKnown, TRest, TClosed, TStream] \<and> TStream \<notin> set pre"
  by (rule dbsync_Fetch_okD [OF assms]) auto

text \<open>
  The handshake connection is left open when the transfer cannot start or the anchor cannot be read:
  once the handshake has succeeded, the connection is closed exactly in the runs that got as far as
  the anchor.
\<close>
theorem connection_closed_iff_anchor_known:
  assumes "dbsync_Fetch fresh sv setup c m prepared schedule onAnchor = (res, trace, d)" "TSetup \<in> set trace"
  shows "TClosed \<in> set trace \<longleftrightarrow> TAnchorKnown \<in> set trace"
  using assms by (auto simp: dbsync_Fetch_def Let_def split: option.splits sum.splits if_splits prod.splits outcome.splits)

section \<open>A run\<close>

definition demo_info :: bytes where
  "demo_info = ''1s'' @ [nl] @ ''127.0.0.1'' @ [nl] @ ''9221'' @ [nl] @ format_uint (unat (7 :: 32 word)) @ [nl] @
     format_uint (unat (42 :: 64 word)) @ [nl] @ []"

definition demo_files :: "bytes \<Rightarrow> bytes" where
  "demo_files f = (if f = ''info'' then demo_info else ''x'')"

definition demo_source :: master where
  "demo_source = \<lparr>ms_meta = [(0, MNotReady), (5, MReady ''u'' [''info'', ''a''])], ms_serve = (\<lambda>f. serve_file (demo_files f) ''u''),
     ms_budget = (\<lambda>_. 1)\<rparr>"

lemma demo_info_parsed: "parse_info demo_info = Inr \<lparr>Filenum = 7, Offset = 42\<rparr>"
  using bgsave_info_round_trip [of "''1s''" "''127.0.0.1''" "''9221''" "\<lparr>Filenum = 7, Offset = 42\<rparr>" "[]" None]
  by (simp add: demo_info_def LoadBgsaveInfo_Some)

lemma demo_info_length: "length demo_info = 23"
  by (simp add: demo_info_def) code_simp

lemma demo_fetch_files:
  assumes "f \<noteq> []"
  shows "fetch_into demo_source ''u'' 4194304 f d = (None, AList.update f (demo_files f) d)"
proof -
  have "length (demo_files f) < 2 ^ 22" by (simp add: demo_files_def demo_info_length)
  then have "fetch_loop 1 (serve_file (demo_files f) ''u'') ''u'' 4194304 (of_nat 0) (take 0 (demo_files f)) = (None, demo_files f)"
    by (intro fetch_loop_copies) simp_all
  then show ?thesis using assms by (simp add: fetch_into_def fetchFile_def demo_source_def)
qed

lemma demo_begin: "rsync_Begin demo_rsync demo_source True = Inr (''u'', [''info'', ''a''], [(''info'', demo_info)])"
proof -
  have meta: "fst (fetchMeta wait 1000000000 (ms_meta demo_source)) = Inr (''u'', [''info'', ''a''])" if "wait > 5" for wait
    using that by (simp add: demo_source_def)
  have "find (\<lambda>f. path_base f = ''info'') [''info'', ''a''] = Some ''info''" by (simp add: path_base_def)
  then show ?thesis
    using demo_fetch_files [of "''info''" "[]"] by (simp add: rsync_Begin_def demo_rsync_def meta defaultChunkBytes_def demo_files_def)
qed

lemma demo_rest:
  "sequential_Rest demo_rsync demo_source ''u'' [''info'', ''a''] [(''info'', demo_info)] =
     \<lparr>p_next = 1, p_err = False, p_workers = [WDone], p_dump = [(''info'', demo_info), (''a'', ''x'')]\<rparr>"
  using demo_fetch_files [of "''a''" "[(''info'', demo_info)]"]
  by (simp add: sequential_Rest_def demo_work rest_pool_def numeral_eq_Suc worker_claim_def worker_finish_def demo_files_def)


end
