(* ===== verification/DumpReader.thy ===== *)
theory DumpReader
  imports Dbsync "HOL-Library.Monad_Syntax"
begin

text \<open>
  The dump reader (\<^verbatim>\<open>internal/dbsync/cgoadapter/loader.go\<close> and the registry of \<^verbatim>\<open>internal/dbsync/reader.go\<close>): the
  storage library runs in a child process that answers over a pipe. Modelled are the request that
  opens the dump, the frames of the replies with the child's side of both
  (\<^verbatim>\<open>drivers/common/dumper_main.cc\<close>), and the iterator with its prefetching goroutine as a step
  relation. The pipe is the bytes the child writes before it ends; a write to it fails once the
  child is gone.
\<close>

section \<open>The open request\<close>

record ReaderResume =
  rr_TypeName :: bytes
  rr_Key :: bytes

definition putStr :: "bytes \<Rightarrow> bytes" where
  "putStr s = put_u16 (of_nat (length s)) @ s"

definition wireOpen :: nat where
  "wireOpen = 8192"

definition open_fields :: "bytes \<Rightarrow> bytes \<Rightarrow> ReaderResume \<Rightarrow> bytes" where
  "open_fields dbDir dbName resume =
     putStr dbDir @ putStr dbName @ put_u32 512 @ put_u64 4096 @ put_u32 0xFFFFFFFF @ put_u32 0 @ put_u64 (- 1) @ putStr [] @
     (if rr_TypeName resume \<noteq> [] \<or> rr_Key resume \<noteq> []
      then char_of (length (rr_TypeName resume) mod 256) # rr_TypeName resume @ putStr (rr_Key resume) else [])"

text \<open>\<^verbatim>\<open>make\<close> panics on a negative length, before the test of that length.\<close>

definition open_request :: "bytes \<Rightarrow> bytes \<Rightarrow> ReaderResume \<Rightarrow> (unit, bytes) outcome" where
  "open_request dbDir dbName resume =
     (let req = CHR ''O'' # open_fields dbDir dbName resume
      in if length req > wireOpen then Panic else Ok (req @ replicate (wireOpen - length req) (CHR 0x00)))"

text \<open>The child's parser of the request body; \<open>None\<close> ends the child.\<close>

definition take_n :: "nat \<Rightarrow> bytes \<Rightarrow> (bytes \<times> bytes) option" where
  "take_n n p = (if length p < n then None else Some (take n p, drop n p))"

definition GetStr :: "nat \<Rightarrow> nat \<Rightarrow> bytes \<Rightarrow> (bytes \<times> bytes) option" where
  "GetStr width maxn p =
     do { (l, q) \<leftarrow> take_n width p; if le_dec l > maxn then None else take_n (le_dec l) q }"

definition dumper_open :: "bytes \<Rightarrow> (bytes \<times> bytes \<times> bytes list \<times> bytes \<times> bytes \<times> bytes) option" where
  "dumper_open body =
     do { (dir, p) \<leftarrow> GetStr 2 3000 body;
          (db, p) \<leftarrow> GetStr 2 256 p;
          (batch_num, p) \<leftarrow> take_n 4 p;
          (scan_batch, p) \<leftarrow> take_n 8 p;
          (type_mask, p) \<leftarrow> take_n 4 p;
          (scan_strategy, p) \<leftarrow> take_n 4 p;
          (list_tail_n, p) \<leftarrow> take_n 8 p;
          (pat, p) \<leftarrow> GetStr 2 1024 p;
          (rtype, p) \<leftarrow> GetStr 1 16 p;
          (rkey, p) \<leftarrow> GetStr 2 3000 p;
          Some (dir, db, [batch_num, scan_batch, type_mask, scan_strategy, list_tail_n], pat, rtype, rkey) }"

definition sniffLayout :: "bool \<Rightarrow> bytes" where
  "sniffLayout has_dir_0 = (if has_dir_0 then ''v40'' else ''v35'')"

section \<open>Replies\<close>

definition readReply :: "bytes \<Rightarrow> (bytes \<times> bytes) option" where
  "readReply pipe = do { (l, p) \<leftarrow> take_n 4 pipe; take_n (unat (get_u32 l)) p }"

text \<open>The answer to the open request: an empty payload is an error, as is a status other than zero.\<close>

definition open_reply :: "bytes \<Rightarrow> bytes option" where
  "open_reply pipe =
     do { (payload, p) \<leftarrow> readReply pipe;
          case payload of [] \<Rightarrow> None | s # _ \<Rightarrow> if s = CHR 0x00 then Some p else None }"

fun read_recs :: "nat \<Rightarrow> bytes \<Rightarrow> DumpRecord list option" where
  "read_recs 0 r = Some []"
| "read_recs (Suc n) r =
     do { (sl, r) \<leftarrow> take_n 2 r;
          (t, r) \<leftarrow> take_n (unat (get_u16 sl)) r;
          (sl, r) \<leftarrow> take_n 2 r;
          (k, r) \<leftarrow> take_n (unat (get_u16 sl)) r;
          (rl, r) \<leftarrow> take_n 4 r;
          (rw, r) \<leftarrow> take_n (unat (get_u32 rl)) r;
          recs \<leftarrow> read_recs n r;
          Some (\<lparr>rec_Type = t, rec_Key = k, rec_RawRESP = rw\<rparr> # recs) }"

definition readBatch :: "bytes \<Rightarrow> (DumpRecord list \<times> bytes) option" where
  "readBatch pipe =
     do { (payload, p) \<leftarrow> readReply pipe;
          (c, r) \<leftarrow> take_n 4 payload;
          recs \<leftarrow> read_recs (unat (get_u32 c)) r;
          Some (recs, p) }"

text \<open>The child's side.\<close>

definition put_record :: "DumpRecord \<Rightarrow> bytes" where
  "put_record rec = putStr (rec_Type rec) @ putStr (rec_Key rec) @ put_u32 (of_nat (length (rec_RawRESP rec))) @ rec_RawRESP rec"

definition batch_payload :: "DumpRecord list \<Rightarrow> bytes" where
  "batch_payload recs = put_u32 (of_nat (length recs)) @ concat (map put_record recs)"

definition WriteReply :: "bytes \<Rightarrow> bytes" where
  "WriteReply payload = put_u32 (of_nat (length payload)) @ payload"

section \<open>Round trips\<close>

lemma take_n_append [simp]: "take_n (length a) (a @ b) = Some (a, b)"
  by (simp add: take_n_def)

lemma take_n_len: "n = length a \<Longrightarrow> take_n n (a @ b) = Some (a, b)"
  by simp

lemma get_u_exact [simp]: "get_u16 (put_u16 w) = w" "get_u32 (put_u32 v) = v"
  using get_put_u16 [of w "[]"] get_put_u32 [of v "[]"] by simp_all

definition rec_fits :: "DumpRecord \<Rightarrow> bool" where
  "rec_fits rec \<longleftrightarrow> length (rec_Type rec) < 2 ^ 16 \<and> length (rec_Key rec) < 2 ^ 16 \<and> length (rec_RawRESP rec) < 2 ^ 32"

definition batch_fits :: "DumpRecord list \<Rightarrow> bool" where
  "batch_fits recs \<longleftrightarrow> list_all rec_fits recs \<and> length recs < 2 ^ 32 \<and> length (batch_payload recs) < 2 ^ 32"

lemma unat_len: "n < 2 ^ 16 \<Longrightarrow> unat (of_nat n :: 16 word) = n" "k < 2 ^ 32 \<Longrightarrow> unat (of_nat k :: 32 word) = k"
  by (simp_all add: unat_of_nat)

lemma read_recs_put: "list_all rec_fits recs \<Longrightarrow> read_recs (length recs) (concat (map put_record recs) @ rest) = Some recs"
proof (induction recs)
  case (Cons rec recs)
  then have f: "length (rec_Type rec) < 2 ^ 16" "length (rec_Key rec) < 2 ^ 16" "length (rec_RawRESP rec) < 2 ^ 32"
    and ih: "read_recs (length recs) (concat (map put_record recs) @ rest) = Some recs" by (auto simp: rec_fits_def)
  show ?case
    using f ih by (simp add: put_record_def [of rec] putStr_def take_n_len [of 2 "put_u16 _"] take_n_len [of 4 "put_u32 _"] unat_len)
qed simp

lemma readBatch_frame:
  assumes "batch_fits recs"
  shows "readBatch (WriteReply (batch_payload recs) @ rest) = Some (recs, rest)"
proof -
  have r: "read_recs (length recs) (concat (map put_record recs)) = Some recs"
    using read_recs_put [of recs "[]"] assms by (simp add: batch_fits_def)
  have "readReply (WriteReply (batch_payload recs) @ rest) = Some (batch_payload recs, rest)"
    using assms by (simp add: readReply_def WriteReply_def take_n_len [of 4 "put_u32 _"] unat_len batch_fits_def)
  then show ?thesis
    using assms r by (simp add: readBatch_def) (simp add: batch_payload_def take_n_len [of 4 "put_u32 _"] unat_len batch_fits_def)
qed

lemma le_dec_put [simp]: "le_dec (put_u16 w) = unat w"
  using unsigned_less [of w, where 'a = nat] by (simp add: put_u16_def codec_simps)

lemma GetStr_putStr: "length s \<le> maxn \<Longrightarrow> maxn < 65536 \<Longrightarrow> GetStr 2 maxn (putStr s @ r) = Some (s, r)"
  by (simp add: GetStr_def putStr_def take_n_len [of 2 "put_u16 _"] unat_of_nat)

lemma dumper_open_fields:
  assumes "length dir \<le> 3000" "length db \<le> 256" "GetStr 1 16 t = Some (rtype, p)" "GetStr 2 3000 p = Some (rkey, p')"
  shows "dumper_open (putStr dir @ putStr db @ put_u32 a @ put_u64 b @ put_u32 c @ put_u32 d @ put_u64 e @ putStr [] @ t) =
    Some (dir, db, [put_u32 a, put_u64 b, put_u32 c, put_u32 d, put_u64 e], [], rtype, rkey)"
  using assms by (simp add: dumper_open_def GetStr_putStr take_n_len [of 4 "put_u32 _"] take_n_len [of 8 "put_u64 _"])

text \<open>
  The child reads the request the parent wrote: for a directory, a name, and a resume point within
  the child's limits the request has its fixed size and is parsed to exactly those values, with and
  without a resume point.
\<close>
theorem open_request_round_trip:
  assumes "length dir \<le> 3000" "length db \<le> 256" "length (rr_TypeName res) \<le> 16" "length (rr_Key res) \<le> 3000"
  shows "\<exists>body. open_request dir db res = Ok (CHR ''O'' # body) \<and> length body = wireOpen - 1 \<and>
    dumper_open body = Some (dir, db, [put_u32 512, put_u64 4096, put_u32 0xFFFFFFFF, put_u32 0, put_u64 (- 1)], [], rr_TypeName res, rr_Key res)"
proof -
  let ?z = "replicate (wireOpen - Suc (length (open_fields dir db res))) (CHR 0x00)"
  have len: "length (open_fields dir db res) \<le> 6309" using assms by (simp add: open_fields_def putStr_def)
  let ?t = "if rr_TypeName res \<noteq> [] \<or> rr_Key res \<noteq> [] then char_of (length (rr_TypeName res) mod 256) # rr_TypeName res @ putStr (rr_Key res) else []"
  have zs: "?z = CHR 0x00 # CHR 0x00 # CHR 0x00 # replicate (wireOpen - length (open_fields dir db res) - 4) (CHR 0x00)"
    using len by (simp add: wireOpen_def numeral_eq_Suc [of "Num.inc _"] flip: replicate_Suc)
  have "\<exists>p p'. GetStr 1 16 (?t @ ?z) = Some (rr_TypeName res, p) \<and> GetStr 2 3000 p = Some (rr_Key res, p')"
  proof (cases "rr_TypeName res \<noteq> [] \<or> rr_Key res \<noteq> []")
    case True
    have "GetStr 1 16 (char_of (length (rr_TypeName res) mod 256) # rr_TypeName res @ putStr (rr_Key res) @ ?z) =
        Some (rr_TypeName res, putStr (rr_Key res) @ ?z)"
      using assms(3) take_n_len [of 1 "[char_of (length (rr_TypeName res) mod 256)]"] by (simp add: GetStr_def)
    then show ?thesis using True assms(4) by (simp add: GetStr_putStr)
  next
    case False
    have "GetStr 1 16 ?z = Some ([], tl ?z)" "GetStr 2 3000 (tl ?z) = Some ([], drop 3 ?z)"
      unfolding zs by (simp_all add: GetStr_def take_n_def numeral_eq_Suc)
    then show ?thesis using False by simp
  qed
  then obtain p p' where tail: "GetStr 1 16 (?t @ ?z) = Some (rr_TypeName res, p)" "GetStr 2 3000 p = Some (rr_Key res, p')" by blast
  have "dumper_open (open_fields dir db res @ ?z) =
      Some (dir, db, [put_u32 512, put_u64 4096, put_u32 0xFFFFFFFF, put_u32 0, put_u64 (- 1)], [], rr_TypeName res, rr_Key res)"
    using dumper_open_fields [OF assms(1,2) tail] by (simp only: open_fields_def append_assoc)
  then show ?thesis using len by (simp add: open_request_def wireOpen_def)
qed

text \<open>
  An oversized request panics: the guard that should report it tests the length of a slice that
  cannot be made.
\<close>
theorem oversized_open_panics:
  assumes "length dir + length db + length (rr_TypeName res) + length (rr_Key res) \<ge> wireOpen"
  shows "open_request dir db res = Panic"
  using assms by (auto simp: open_request_def open_fields_def putStr_def wireOpen_def)

text \<open>A resume key beyond the child's limit ends the child, although the request can be written.\<close>

theorem long_resume_key_refused:
  assumes "length dir \<le> 3000" "length db \<le> 256" "length (rr_TypeName res) \<le> 16" "3000 < length (rr_Key res)" "length (rr_Key res) < 2 ^ 16"
    and "open_request dir db res = Ok (CHR ''O'' # body)"
  shows "dumper_open body = None"
proof -
  define z where "z = replicate (wireOpen - Suc (length (open_fields dir db res))) (CHR 0x00)"
  let ?t = "char_of (length (rr_TypeName res) mod 256) # rr_TypeName res @ putStr (rr_Key res) @ z"
  have b: "body = putStr dir @ putStr db @ put_u32 512 @ put_u64 4096 @ put_u32 0xFFFFFFFF @ put_u32 0 @ put_u64 (- 1) @ putStr [] @ ?t"
    using assms(4,6) by (auto simp: open_request_def open_fields_def Let_def z_def split: if_splits)
  have "GetStr 1 16 ?t = Some (rr_TypeName res, putStr (rr_Key res) @ z)"
    using assms(3) take_n_len [of 1 "[char_of (length (rr_TypeName res) mod 256)]"] by (simp add: GetStr_def)
  moreover have "GetStr 2 3000 (putStr (rr_Key res) @ z) = None"
    using assms(4,5) by (simp add: GetStr_def putStr_def take_n_len [of 2 "put_u16 _"] unat_of_nat)
  ultimately show ?thesis
    unfolding b using assms(1,2) by (simp add: dumper_open_def GetStr_putStr take_n_len [of 4 "put_u32 _"] take_n_len [of 8 "put_u64 _"])
qed

lemma take_n_length: "take_n n p = Some (a, b) \<Longrightarrow> length a = n"
  by (auto simp: take_n_def split: if_splits)

lemma read_recs_key: "read_recs n r = Some recs \<Longrightarrow> rec \<in> set recs \<Longrightarrow> length (rec_Key rec) < 2 ^ 16"
proof (induction n arbitrary: r recs)
  case (Suc n)
  from Suc.prems(1) obtain sl k r1 r2 rw t more' where
    k: "take_n (unat (get_u16 sl)) r1 = Some (k, r2)" and m: "\<exists>r3. read_recs n r3 = Some more'"
    and recs: "recs = \<lparr>rec_Type = t, rec_Key = k, rec_RawRESP = rw\<rparr> # more'"
    by (auto simp: Option.bind_eq_Some_conv split: prod.splits) blast
  have "length k < 2 ^ 16" using take_n_length [OF k] unsigned_less [of "get_u16 sl", where 'a = nat] by simp
  then show ?case using Suc m recs by auto
qed simp

text \<open>
  The frame format has sixteen bits for the length of a key: a batch with a longer key is never read
  back as it was written.
\<close>
theorem long_key_not_read_back:
  assumes "rec \<in> set recs" "length (rec_Key rec) \<ge> 2 ^ 16"
  shows "readBatch (WriteReply (batch_payload recs) @ rest) \<noteq> Some (recs, rest')"
  using assms read_recs_key by (fastforce simp: readBatch_def Option.bind_eq_Some_conv split: prod.splits)

section \<open>The iterator\<close>

text \<open>
  The feeder asks for a batch, reads it and pushes it into a channel; \<^verbatim>\<open>Next\<close> takes records from its
  buffer and batches from the channel. A batch is \<open>None\<close> for an error; the last one is followed by the
  end of the feeder, which closes the channel. \<open>it_out\<close> records what \<^verbatim>\<open>Next\<close> has returned, \<open>it_res\<close> its first
  answer that was not a record (\<open>True\<close> for the end of the dump, \<open>False\<close> for an error).
\<close>

type_synonym batchResult = "DumpRecord list option"

datatype feeder = FCheck | FAsk | FPush batchResult | FGone

record iterator =
  it_pipe :: bytes
  it_asks :: nat
  it_feeder :: feeder
  it_batch :: "batchResult list"
  it_quit :: bool
  it_done :: bool
  it_buf :: "DumpRecord list"
  it_closed :: bool
  it_out :: "DumpRecord list"
  it_res :: "bool option"

definition prefetchDepth :: nat where
  "prefetchDepth = 4"

definition new_iterator :: "nat \<Rightarrow> bytes \<Rightarrow> iterator" where
  "new_iterator asks pipe = \<lparr>it_pipe = pipe, it_asks = asks, it_feeder = FCheck, it_batch = [], it_quit = False, it_done = False,
     it_buf = [], it_closed = False, it_out = [], it_res = None\<rparr>"

text \<open>The request for a batch and its answer; the feeder has \<open>it_asks\<close> writes until the child is gone.\<close>

definition feeder_ask :: "iterator \<Rightarrow> iterator" where
  "feeder_ask s =
     (if it_asks s = 0 then s\<lparr>it_feeder := FPush None\<rparr>
      else case readBatch (it_pipe s) of
             None \<Rightarrow> s\<lparr>it_asks := it_asks s - 1, it_feeder := FPush None\<rparr>
           | Some (recs, p) \<Rightarrow> s\<lparr>it_asks := it_asks s - 1, it_pipe := p, it_feeder := FPush (Some recs)\<rparr>)"

text \<open>After an error and after an empty batch the feeder returns.\<close>

definition after_push :: "batchResult \<Rightarrow> feeder" where
  "after_push b = (case b of None \<Rightarrow> FGone | Some recs \<Rightarrow> if recs = [] then FGone else FCheck)"

definition set_res :: "bool \<Rightarrow> iterator \<Rightarrow> iterator" where
  "set_res b s = (if it_res s = None then s\<lparr>it_res := Some b\<rparr> else s)"

text \<open>One turn of the loop of \<^verbatim>\<open>Next\<close>; \<open>None\<close> where it waits for the channel.\<close>

definition next_turn :: "iterator \<Rightarrow> iterator option" where
  "next_turn s =
     (if it_done s then Some (set_res True s)
      else case it_buf s of
             rec # recs \<Rightarrow> Some (s\<lparr>it_buf := recs, it_out := it_out s @ [rec]\<rparr>)
           | [] \<Rightarrow>
               (case it_batch s of
                  [] \<Rightarrow> if it_feeder s = FGone then Some (set_res True (s\<lparr>it_done := True\<rparr>)) else None
                | None # bs \<Rightarrow> Some (set_res False (s\<lparr>it_batch := bs, it_quit := True\<rparr>))
                | Some recs # bs \<Rightarrow> Some (s\<lparr>it_batch := bs, it_buf := recs\<rparr>)))"

inductive istep :: "iterator \<Rightarrow> iterator \<Rightarrow> bool" where
  f_quit: "it_feeder s = FCheck \<Longrightarrow> it_quit s \<Longrightarrow> istep s (s\<lparr>it_feeder := FGone\<rparr>)"
| f_check: "it_feeder s = FCheck \<Longrightarrow> \<not> it_quit s \<Longrightarrow> istep s (s\<lparr>it_feeder := FAsk\<rparr>)"
| f_ask: "it_feeder s = FAsk \<Longrightarrow> istep s (feeder_ask s)"
| f_push: "it_feeder s = FPush b \<Longrightarrow> length (it_batch s) < prefetchDepth \<Longrightarrow>
    istep s (s\<lparr>it_batch := it_batch s @ [b], it_feeder := after_push b\<rparr>)"
| f_drop: "it_feeder s = FPush b \<Longrightarrow> it_quit s \<Longrightarrow> istep s (s\<lparr>it_feeder := after_push b\<rparr>)"
| i_next: "next_turn s = Some t \<Longrightarrow> istep s t"
| i_close: "istep s (s\<lparr>it_quit := True, it_closed := True\<rparr>)"

inductive ireach :: "iterator \<Rightarrow> iterator \<Rightarrow> bool" for s0 where
  ireach_start: "ireach s0 s0"
| ireach_step: "ireach s0 s \<Longrightarrow> istep s t \<Longrightarrow> ireach s0 t"

subsection \<open>Opening a dump\<close>

text \<open>\<open>None\<close> is a binary without a reader.\<close>

definition OpenIterator :: "(bytes \<Rightarrow> bytes \<Rightarrow> ReaderResume \<Rightarrow> 'e + 'i) option \<Rightarrow> 'e \<Rightarrow> bytes \<Rightarrow> bytes \<Rightarrow> ReaderResume \<Rightarrow> 'e + 'i" where
  "OpenIterator factory errNoReader dbDir dbName resume =
     (case factory of None \<Rightarrow> Inl errNoReader | Some open_it \<Rightarrow> open_it dbDir dbName resume)"

text \<open>The registered factory: the request, its write to the child and the child's answer.\<close>

definition reader_open :: "bool \<Rightarrow> bool \<Rightarrow> nat \<Rightarrow> bytes \<Rightarrow> bytes \<Rightarrow> bytes \<Rightarrow> ReaderResume \<Rightarrow> (unit, iterator) outcome" where
  "reader_open started wrote asks pipe dbDir dbName resume =
     (if \<not> started then Error ()
      else case open_request dbDir dbName resume of
             Ok req \<Rightarrow> if \<not> wrote then Error () else (case open_reply pipe of None \<Rightarrow> Error () | Some p \<Rightarrow> Ok (new_iterator asks p))
           | Error e \<Rightarrow> Error e
           | Panic \<Rightarrow> Panic)"

section \<open>The iterator reads the dump\<close>

text \<open>What the child sends, read without concurrency: the records, and whether the dump ends cleanly.\<close>

fun dump_of :: "nat \<Rightarrow> bytes \<Rightarrow> DumpRecord list \<times> bool" where
  "dump_of 0 pipe = ([], False)"
| "dump_of (Suc n) pipe =
     (case readBatch pipe of
        None \<Rightarrow> ([], False)
      | Some (recs, p) \<Rightarrow> if recs = [] then ([], True) else case dump_of n p of (later, b) \<Rightarrow> (recs @ later, b))"

text \<open>What is still to come from a list of batches and, after the last of them, from the rest of the pipe.\<close>

fun to_come :: "batchResult list \<Rightarrow> (DumpRecord list \<times> bool) \<Rightarrow> DumpRecord list \<times> bool" where
  "to_come [] rest = rest"
| "to_come (None # bs) rest = ([], False)"
| "to_come (Some recs # bs) rest = (if recs = [] then ([], True) else case to_come bs rest of (later, b) \<Rightarrow> (recs @ later, b))"

definition still_due :: "iterator \<Rightarrow> DumpRecord list \<times> bool" where
  "still_due s = to_come (it_batch s @ (case it_feeder s of FPush b \<Rightarrow> [b] | _ \<Rightarrow> []))
     (if it_feeder s = FGone then ([], True) else dump_of (it_asks s) (it_pipe s))"

definition is_last :: "batchResult \<Rightarrow> bool" where
  "is_last b \<longleftrightarrow> b = None \<or> b = Some []"

definition chan_ok :: "iterator \<Rightarrow> bool" where
  "chan_ok s \<longleftrightarrow> (\<forall>b \<in> set (butlast (it_batch s)). \<not> is_last b) \<and> (it_feeder s \<noteq> FGone \<longrightarrow> (\<forall>b \<in> set (it_batch s). \<not> is_last b))"

definition it_inv :: "DumpRecord list \<times> bool \<Rightarrow> iterator \<Rightarrow> bool" where
  "it_inv d s \<longleftrightarrow>
     (case it_res s of
        Some b \<Rightarrow> d = (it_out s, b) \<and> it_buf s = [] \<and> it_batch s = [] \<and> it_feeder s = FGone
      | None \<Rightarrow> \<not> it_quit s \<and> \<not> it_done s \<and> chan_ok s \<and> d = (it_out s @ it_buf s @ fst (still_due s), snd (still_due s)))"

lemma to_come_append:
  "(\<And>b. b \<in> set bs \<Longrightarrow> \<not> is_last b) \<Longrightarrow> to_come (bs @ cs) rest = to_come bs (to_come cs rest)"
  by (induction bs rest rule: to_come.induct) (auto simp: is_last_def split: prod.splits)

lemma to_come_last: "is_last b \<Longrightarrow> to_come [b] rest = to_come [b] rest'"
  by (auto simp: is_last_def)

lemma dump_of_ask: "n > 0 \<Longrightarrow> readBatch p = Some (recs, q) \<Longrightarrow> dump_of n p = to_come [Some recs] (dump_of (n - 1) q)"
  by (cases n) auto

lemma due_ask:
  assumes "it_feeder s = FAsk" "chan_ok s"
  shows "still_due (feeder_ask s) = still_due s" "chan_ok (feeder_ask s)"
proof -
  have l: "\<And>b. b \<in> set (it_batch s) \<Longrightarrow> \<not> is_last b" using assms by (auto simp: chan_ok_def)
  show "chan_ok (feeder_ask s)" using l assms by (auto simp: chan_ok_def feeder_ask_def split: option.splits dest: in_set_butlastD)
  show "still_due (feeder_ask s) = still_due s"
  proof (cases "it_asks s")
    case 0
    then show ?thesis using assms(1) l by (simp add: still_due_def feeder_ask_def to_come_append)
  next
    case (Suc n)
    then show ?thesis
      using assms(1) l dump_of_ask [of "it_asks s" "it_pipe s"]
      by (auto simp: still_due_def feeder_ask_def to_come_append split: option.splits)
  qed
qed

lemma due_push:
  assumes "it_feeder s = FPush b" "chan_ok s"
  shows "still_due (s\<lparr>it_batch := it_batch s @ [b], it_feeder := after_push b\<rparr>) = still_due s"
    "chan_ok (s\<lparr>it_batch := it_batch s @ [b], it_feeder := after_push b\<rparr>)"
proof -
  have l: "\<And>b. b \<in> set (it_batch s) \<Longrightarrow> \<not> is_last b" using assms by (auto simp: chan_ok_def)
  have a: "after_push b = (if is_last b then FGone else FCheck)" by (auto simp: after_push_def is_last_def split: option.splits)
  show "chan_ok (s\<lparr>it_batch := it_batch s @ [b], it_feeder := after_push b\<rparr>)" using l by (auto simp: chan_ok_def a)
  show "still_due (s\<lparr>it_batch := it_batch s @ [b], it_feeder := after_push b\<rparr>) = still_due s"
  proof (cases "is_last b")
    case True
    have "still_due (s\<lparr>it_batch := it_batch s @ [b], it_feeder := after_push b\<rparr>) = to_come (it_batch s) (to_come [b] ([], True))"
      using True by (simp add: still_due_def a to_come_append [OF l] del: to_come.simps)
    also have "\<dots> = to_come (it_batch s) (to_come [b] (dump_of (it_asks s) (it_pipe s)))" by (rule arg_cong [OF to_come_last [OF True]])
    also have "\<dots> = still_due s" using assms(1) by (simp add: still_due_def to_come_append [OF l] del: to_come.simps)
    finally show ?thesis .
  next
    case False
    then show ?thesis using assms(1) by (simp add: still_due_def a)
  qed
qed

lemma next_inv:
  assumes "it_inv d s" "next_turn s = Some t"
  shows "it_inv d t"
proof (cases "it_res s")
  case (Some b)
  then show ?thesis using assms by (auto simp: it_inv_def next_turn_def set_res_def split: if_splits)
next
  case None
  then have i: "\<not> it_quit s" "\<not> it_done s" "chan_ok s" "d = (it_out s @ it_buf s @ fst (still_due s), snd (still_due s))"
    using assms(1) by (auto simp: it_inv_def)
  show ?thesis
  proof (cases "it_buf s")
    case (Cons rec recs)
    then have t: "t = s\<lparr>it_buf := recs, it_out := it_out s @ [rec]\<rparr>" using assms(2) i by (simp add: next_turn_def)
    then have "still_due t = still_due s" "chan_ok t" using i(3) by (simp_all add: still_due_def chan_ok_def)
    then show ?thesis using None i Cons t by (simp add: it_inv_def)
  next
    case Nil
    show ?thesis
    proof (cases "it_batch s")
      case Nil2: Nil
      then show ?thesis
        using assms(2) i None Nil by (auto simp: next_turn_def it_inv_def set_res_def still_due_def split: if_splits)
    next
      case (Cons b bs)
      show ?thesis
      proof (cases "is_last b")
        case True
        then have bs: "bs = []" "it_feeder s = FGone" using i(3) Cons by (auto simp: chan_ok_def split: if_splits)
        then show ?thesis
          using assms(2) i None Nil Cons True by (auto simp: next_turn_def it_inv_def set_res_def still_due_def is_last_def chan_ok_def)
      next
        case False
        then obtain recs where b: "b = Some recs" "recs \<noteq> []" by (auto simp: is_last_def)
        then have t: "t = s\<lparr>it_batch := bs, it_buf := recs\<rparr>" using assms(2) i Nil Cons by (simp add: next_turn_def)
        moreover have "chan_ok t" using i(3) Cons t by (auto simp: chan_ok_def split: if_splits)
        moreover have "still_due s = (recs @ fst (still_due t), snd (still_due t))"
          using Cons b t by (auto simp: still_due_def split: prod.splits feeder.splits)
        ultimately show ?thesis using None i Nil by (simp add: it_inv_def)
      qed
    qed
  qed
qed

lemma it_inv_step:
  assumes "istep s t" "it_inv d s" "\<not> it_closed t"
  shows "it_inv d t"
  using assms
proof (induction rule: istep.induct)
  case (f_quit s)
  then show ?case by (auto simp: it_inv_def split: option.splits)
next
  case (f_check s)
  then show ?case by (auto simp: it_inv_def still_due_def chan_ok_def split: option.splits)
next
  case (f_ask s)
  have "it_res (feeder_ask s) = it_res s" "it_out (feeder_ask s) = it_out s" "it_buf (feeder_ask s) = it_buf s"
    "it_quit (feeder_ask s) = it_quit s" "it_done (feeder_ask s) = it_done s"
    by (simp_all add: feeder_ask_def split: option.splits)
  then show ?case using f_ask due_ask [of s] by (auto simp: it_inv_def split: option.splits)
next
  case (f_push s b)
  then show ?case using due_push [of s b] by (auto simp: it_inv_def split: option.splits)
next
  case (f_drop s b)
  then show ?case by (auto simp: it_inv_def split: option.splits)
next
  case (i_next s t)
  then show ?case using next_inv by blast
next
  case (i_close s)
  then show ?case by simp
qed

lemma closed_step: "istep s t \<Longrightarrow> it_closed s \<Longrightarrow> it_closed t"
  by (induction rule: istep.induct)
    (auto simp: feeder_ask_def next_turn_def set_res_def split: if_splits list.splits option.splits)

lemma it_inv_reach: "ireach (new_iterator asks pipe) s \<Longrightarrow> \<not> it_closed s \<Longrightarrow> it_inv (dump_of asks pipe) s"
proof (induction rule: ireach.induct)
  case ireach_start
  then show ?case by (simp add: it_inv_def new_iterator_def still_due_def chan_ok_def)
next
  case (ireach_step s t)
  then show ?case using it_inv_step closed_step by blast
qed

lemma dump_of_frames:
  assumes "list_all (\<lambda>b. b \<noteq> [] \<and> batch_fits b) batches" "length batches < asks"
  shows "dump_of asks (concat (map (\<lambda>b. WriteReply (batch_payload b)) batches) @ WriteReply (batch_payload []) @ rest) = (concat batches, True)"
  using assms
proof (induction batches arbitrary: asks)
  case Nil
  have "batch_fits []" by (simp add: batch_fits_def batch_payload_def)
  then show ?case using Nil readBatch_frame [of "[]" rest] by (cases asks) auto
next
  case (Cons b bs)
  then obtain n where n: "asks = Suc n" "length bs < n" by (cases asks) auto
  then show ?case using Cons readBatch_frame [of b] by simp
qed

text \<open>
  C13. The iterator is the dump: whatever the interleaving of the prefetching goroutine and the consumer,
  \<^verbatim>\<open>Next\<close> returns the records the child sent, in order, each once; it reports the end of the dump only
  after the child's empty batch and with all records returned, and an error exactly where the child's
  answers break off. A truncated dump never looks complete.
\<close>
theorem iterator_reads_dump:
  assumes "ireach (new_iterator asks pipe) s" "\<not> it_closed s"
  shows "(\<exists>later. fst (dump_of asks pipe) = it_out s @ later) \<and>
    (\<forall>b. it_res s = Some b \<longrightarrow> dump_of asks pipe = (it_out s, b)) \<and>
    (it_res s = None \<longrightarrow> (\<exists>t. istep s t \<and> \<not> it_closed t))"
proof (intro conjI allI impI)
  have inv: "it_inv (dump_of asks pipe) s" by (rule it_inv_reach [OF assms])
  then show "\<exists>later. fst (dump_of asks pipe) = it_out s @ later" by (auto simp: it_inv_def split: option.splits)
  fix b assume "it_res s = Some b"
  then show "dump_of asks pipe = (it_out s, b)" using inv by (simp add: it_inv_def)
next
  show "\<exists>t. istep s t \<and> \<not> it_closed t" if "it_res s = None"
  proof (cases "it_feeder s")
    case FCheck
    then show ?thesis using f_check [of s] f_quit [of s] assms(2) by (cases "it_quit s") fastforce+
  next
    case FAsk
    have "it_closed (feeder_ask s) = it_closed s" by (simp add: feeder_ask_def split: option.splits)
    then show ?thesis using FAsk f_ask assms(2) by blast
  next
    case (FPush b)
    show ?thesis
    proof (cases "it_batch s")
      case Nil
      then show ?thesis using FPush f_push [of s b] assms(2) by (fastforce simp: prefetchDepth_def)
    next
      case (Cons c cs)
      then have "\<exists>t. next_turn s = Some t \<and> it_closed t = it_closed s"
        by (auto simp: next_turn_def set_res_def split: list.splits option.splits)
      then show ?thesis using i_next assms(2) by blast
    qed
  next
    case FGone
    then have "\<exists>t. next_turn s = Some t \<and> it_closed t = it_closed s"
      by (auto simp: next_turn_def set_res_def split: list.splits option.splits)
    then show ?thesis using i_next assms(2) by blast
  qed
qed

text \<open>
  Together with the frames: a child that sends non-empty batches and then an empty one is read
  completely, and the only answer that ends the iteration is the end of the dump.
\<close>
theorem iterator_delivers_batches:
  assumes "list_all (\<lambda>b. b \<noteq> [] \<and> batch_fits b) batches" "length batches < asks"
    and "ireach (new_iterator asks (concat (map (\<lambda>b. WriteReply (batch_payload b)) batches) @ WriteReply (batch_payload []) @ rest)) s"
    and "\<not> it_closed s" "it_res s = Some b"
  shows "b \<and> it_out s = concat batches"
  using it_inv_reach [OF assms(3,4)] dump_of_frames [OF assms(1,2), of rest] assms(5) by (simp add: it_inv_def)

section \<open>A run\<close>

definition itick :: "iterator \<Rightarrow> iterator" where
  "itick s =
     (case next_turn s of
        Some t \<Rightarrow> t
      | None \<Rightarrow>
          (case it_feeder s of
             FCheck \<Rightarrow> if it_quit s then s\<lparr>it_feeder := FGone\<rparr> else s\<lparr>it_feeder := FAsk\<rparr>
           | FAsk \<Rightarrow> feeder_ask s
           | FPush b \<Rightarrow> if length (it_batch s) < prefetchDepth then s\<lparr>it_batch := it_batch s @ [b], it_feeder := after_push b\<rparr> else s
           | FGone \<Rightarrow> s))"

lemma itick_reach: "ireach s0 s \<Longrightarrow> ireach s0 (itick s)"
  by (auto simp: itick_def split: option.splits feeder.splits intro: ireach_step istep.intros)

lemma iticks_reach: "ireach s0 ((itick ^^ n) s0)"
  by (induction n) (auto intro: ireach_start itick_reach)

definition demo_rec :: DumpRecord where
  "demo_rec = \<lparr>rec_Type = ''string'', rec_Key = ''k'', rec_RawRESP = ''x''\<rparr>"

definition demo_pipe :: bytes where
  "demo_pipe = WriteReply (batch_payload [demo_rec, demo_rec]) @ WriteReply (batch_payload [])"

lemma demo_batches: "readBatch demo_pipe = Some ([demo_rec, demo_rec], WriteReply (batch_payload []))"
  "readBatch (WriteReply (batch_payload [])) = Some ([], [])"
proof -
  have f: "batch_fits [demo_rec, demo_rec]" "batch_fits []"
    by (simp_all add: batch_fits_def rec_fits_def batch_payload_def put_record_def putStr_def demo_rec_def)
  show "readBatch demo_pipe = Some ([demo_rec, demo_rec], WriteReply (batch_payload []))"
    unfolding demo_pipe_def by (rule readBatch_frame [OF f(1)])
  show "readBatch (WriteReply (batch_payload [])) = Some ([], [])" using readBatch_frame [OF f(2), of "[]"] by simp
qed

lemma demo_iteration:
  "(itick ^^ 12) (new_iterator 3 demo_pipe) = \<lparr>it_pipe = [], it_asks = 1, it_feeder = FGone, it_batch = [], it_quit = False, it_done = True,
     it_buf = [], it_closed = False, it_out = [demo_rec, demo_rec], it_res = Some True\<rparr>"
  by (simp add: numeral_eq_Suc funpow_Suc_right itick_def next_turn_def feeder_ask_def new_iterator_def after_push_def set_res_def
      prefetchDepth_def demo_batches del: funpow.simps(2))

theorem iterator_reads_dump_witness:
  "dump_of 3 demo_pipe = (it_out ((itick ^^ 12) (new_iterator 3 demo_pipe)), True) \<and> length (it_out ((itick ^^ 12) (new_iterator 3 demo_pipe))) = 2"
  using iterator_reads_dump [OF iticks_reach [of "new_iterator 3 demo_pipe" 12]] demo_iteration by auto

theorem open_request_round_trip_witness:
  "\<exists>body. open_request ''/dump'' ''db0'' \<lparr>rr_TypeName = ''hash'', rr_Key = ''k1''\<rparr> = Ok (CHR ''O'' # body) \<and> length body = 8191 \<and>
     dumper_open body = Some (''/dump'', ''db0'', [put_u32 512, put_u64 4096, put_u32 0xFFFFFFFF, put_u32 0, put_u64 (- 1)], [], ''hash'', ''k1'')"
  using open_request_round_trip [of "''/dump''" "''db0''" "\<lparr>rr_TypeName = ''hash'', rr_Key = ''k1''\<rparr>"] by (simp add: wireOpen_def)

end
