(* ===== verification/App.thy ===== *)
theory App
  imports Handoff Session Dbsync KafkaSink DorisSink
begin

text \<open>
  The application (\<^verbatim>\<open>internal/app\<close>): configuration with its defaults and checks, the choice of the
  sink, the snapshot with its durable progress, the retry loops, and how a session ends
  (\<^verbatim>\<open>Run\<close> of \<^verbatim>\<open>internal/replica/runner.go\<close>). YAML decoding yields the configuration record; the clock
  and the outcomes of sessions and transfers are arguments.
\<close>

section \<open>Configuration\<close>

record SourceConfig =
  src_Host :: bytes
  src_Port :: int
  src_Password :: bytes
  src_DB :: bytes
  src_LocalIP :: bytes
  src_LocalPort :: int

record KafkaSinkConfig =
  ks_Brokers :: "bytes list"
  ks_Topic :: bytes
  ks_ClientID :: bytes
  ks_IncludeHeartbeats :: bool
  ks_WorkersPerPart :: int
  ks_BatchSize :: int
  ks_Compression :: bytes

record FileSinkConfig =
  fc_Path :: bytes
  fc_IncludeHeartbeats :: bool

record PipelineConfig =
  pc_Driver :: bytes
  pc_DSN :: bytes
  pc_Fenodes :: "bytes list"
  pc_User :: bytes
  pc_Password :: bytes
  pc_SequenceColumn :: bytes
  pc_Rules :: "RuleConfig list"
  pc_MaxBatchRows :: int
  pc_FlushEvery :: int

record AppConfig =
  ap_Source :: SourceConfig
  ap_Kafka :: "KafkaSinkConfig option"
  ap_File :: "FileSinkConfig option"
  ap_Pipeline :: "PipelineConfig option"
  ap_Checkpoint :: bytes
  ap_IncludeTTL :: bool
  ap_AckEvery :: int
  ap_Heartbeat :: int
  ap_MetricsAddr :: bytes
  ap_DumpRoot :: bytes
  ap_SnapshotBgsave :: bytes
  ap_BufferDir :: bytes
  ap_PendingBytesHigh :: int
  ap_ReserveFreeBytes :: int
  ap_BufferFsync :: bytes

text \<open>\<^verbatim>\<open>filepath.Clean\<close>, \<^verbatim>\<open>Dir\<close> and \<^verbatim>\<open>Join\<close>: the lexical processing of slash-separated paths.\<close>

fun split_slash :: "bytes \<Rightarrow> bytes list" where
  "split_slash [] = [[]]"
| "split_slash (c # s) =
     (if c = CHR ''/'' then [] # split_slash s
      else case split_slash s of [] \<Rightarrow> [[c]] | l # ls \<Rightarrow> (c # l) # ls)"

definition path_clean :: "bytes \<Rightarrow> bytes" where
  "path_clean p =
     (let rooted = (p \<noteq> [] \<and> hd p = CHR ''/'');
          step = (\<lambda>e stack. if e = [] \<or> e = ''.'' then stack
                            else if e = ''..'' then if stack \<noteq> [] \<and> last stack \<noteq> ''..'' then butlast stack
                                                   else if rooted then stack else stack @ [e]
                            else stack @ [e]);
          body = join ''/'' (fold step (split_slash p) [])
      in if rooted then ''/'' @ body else if body = [] then ''.'' else body)"

definition path_dir :: "bytes \<Rightarrow> bytes" where
  "path_dir p = path_clean (rev (dropWhile (\<lambda>c. c \<noteq> CHR ''/'') (rev p)))"

definition path_join :: "bytes \<Rightarrow> bytes \<Rightarrow> bytes" where
  "path_join a b =
     (case filter (\<lambda>e. e \<noteq> []) [a, b] of [] \<Rightarrow> [] | es \<Rightarrow> path_clean (join ''/'' es))"

definition applyDefaults :: "AppConfig \<Rightarrow> AppConfig" where
  "applyDefaults c =
     (let s = ap_Source c;
          s1 = (if src_DB s = [] then s\<lparr>src_DB := ''db0''\<rparr> else s);
          s2 = (if src_LocalIP s1 = [] then s1\<lparr>src_LocalIP := src_Host s1\<rparr> else s1);
          c1 = c\<lparr>ap_Source := s2\<rparr>;
          c2 = (if ap_Checkpoint c1 = [] then c1\<lparr>ap_Checkpoint := ''pikawire.checkpoint.json''\<rparr> else c1);
          c3 = (if ap_AckEvery c2 = 0 then c2\<lparr>ap_AckEvery := 1000000000\<rparr> else c2);
          c4 = (if ap_BufferDir c3 = [] then c3\<lparr>ap_BufferDir := path_join (path_dir (ap_Checkpoint c3)) ''pikawire-buffer''\<rparr> else c3);
          c5 = (if ap_BufferFsync c4 = [] then c4\<lparr>ap_BufferFsync := ''none''\<rparr> else c4)
      in if ap_SnapshotBgsave c5 = [] then c5\<lparr>ap_SnapshotBgsave := ''auto''\<rparr> else c5)"

datatype cfg_error = ESource | EBgsavePolicy | EFsyncPolicy | ENoReader | ENoSink | EManySinks
  | EPipelineFields | EFenodes | EDsn | EKafkaFields | EFilePath

definition n_sinks :: "AppConfig \<Rightarrow> nat" where
  "n_sinks c = (if ap_Kafka c \<noteq> None then 1 else 0) + (if ap_File c \<noteq> None then 1 else 0) + (if ap_Pipeline c \<noteq> None then 1 else 0)"

definition validate :: "bool \<Rightarrow> AppConfig \<Rightarrow> cfg_error + AppConfig" where
  "validate reader c =
     (if src_Host (ap_Source c) = [] \<or> src_Port (ap_Source c) = 0 then Inl ESource
      else if ap_SnapshotBgsave c \<notin> {''auto'', ''force''} then Inl EBgsavePolicy
      else if ap_BufferFsync c \<notin> {''none'', ''durable''} then Inl EFsyncPolicy
      else let c1 = (if ap_DumpRoot c = [] then c\<lparr>ap_DumpRoot := ''pikawire-dump''\<rparr> else c)
           in if \<not> reader then Inl ENoReader
              else if n_sinks c1 = 0 then Inl ENoSink
              else if n_sinks c1 > 1 then Inl EManySinks
              else case (case ap_Pipeline c1 of
                           None \<Rightarrow> None
                         | Some p \<Rightarrow>
                             if pc_Driver p = [] \<or> pc_Rules p = [] then Some EPipelineFields
                             else if pc_Driver p = ''doris'' then if pc_Fenodes p = [] then Some EFenodes else None
                             else if pc_DSN p = [] then Some EDsn else None) of
                     Some e \<Rightarrow> Inl e
                   | None \<Rightarrow>
                       if (case ap_Kafka c1 of None \<Rightarrow> False | Some k \<Rightarrow> ks_Brokers k = [] \<or> ks_Topic k = []) then Inl EKafkaFields
                       else if (case ap_File c1 of None \<Rightarrow> False | Some f \<Rightarrow> fc_Path f = []) then Inl EFilePath
                       else Inr c1)"

definition LoadConfig :: "bool \<Rightarrow> AppConfig \<Rightarrow> cfg_error + AppConfig" where
  "LoadConfig reader parsed = validate reader (applyDefaults parsed)"

definition app_SourceID :: "AppConfig \<Rightarrow> bytes" where
  "app_SourceID c = src_Host (ap_Source c) @ '':'' @ format_int (src_Port (ap_Source c))"

section \<open>Sinks and runners\<close>

datatype sink_choice = ChooseDoris DorisConfig "RuleConfig list" | ChooseSql bytes bytes SqlConfig "RuleConfig list"
  | ChooseKafka "bytes list" bytes KafkaConfig bool | ChooseFile bytes bool | NilFile

definition buildSink :: "AppConfig \<Rightarrow> sink_choice" where
  "buildSink c =
     (case ap_Pipeline c of
        Some p \<Rightarrow>
          if pc_Driver p = ''doris''
          then ChooseDoris \<lparr>ds_Fenodes = pc_Fenodes p, ds_User = pc_User p, ds_Password = pc_Password p,
                 ds_MaxBatchRows = pc_MaxBatchRows p, ds_MaxQueueRows = 0, ds_FlushEvery = pc_FlushEvery p, ds_HTTPTimeout = 0,
                 ds_SequenceColumn = pc_SequenceColumn p\<rparr> (pc_Rules p)
          else ChooseSql (pc_Driver p) (pc_DSN p) \<lparr>sq_MaxBatchRows = pc_MaxBatchRows p, sq_FlushEvery = pc_FlushEvery p\<rparr> (pc_Rules p)
      | None \<Rightarrow>
          (case ap_Kafka c of
             Some k \<Rightarrow> ChooseKafka (ks_Brokers k) (ks_Topic k) \<lparr>RequiredAcks = 0, WorkersPerPart = ks_WorkersPerPart k,
                 BatchSize = ks_BatchSize k, BatchTimeout = 0, QueueDepth = 0, Compression = ks_Compression k\<rparr> (ks_IncludeHeartbeats k)
           | None \<Rightarrow> (case ap_File c of Some f \<Rightarrow> ChooseFile (fc_Path f) (fc_IncludeHeartbeats f) | None \<Rightarrow> NilFile)))"

definition makeRunner :: "AppConfig \<Rightarrow> int \<Rightarrow> position \<Rightarrow> Store \<Rightarrow> Metrics option \<Rightarrow> dir \<Rightarrow> Runner" where
  "makeRunner c localPort startAt st m d =
     NewRunner \<lparr>cfg_MasterHost = src_Host (ap_Source c), cfg_MasterPort = src_Port (ap_Source c), cfg_Password = src_Password (ap_Source c),
        cfg_DBName = src_DB (ap_Source c), cfg_LocalIP = src_LocalIP (ap_Source c), cfg_LocalPort = localPort,
        cfg_SourceID = app_SourceID c, cfg_StartAt = startAt, cfg_AckEvery = ap_AckEvery c, cfg_Heartbeat = ap_Heartbeat c,
        cfg_PendingBytesHigh = ap_PendingBytesHigh c, cfg_ReserveFreeBytes = ap_ReserveFreeBytes c,
        cfg_BufferDurable = (ap_BufferFsync c = ''durable'')\<rparr> st m d"

section \<open>How a session ends\<close>

text \<open>
  The deferred calls of \<open>Run\<close>, in the order they are registered once the session runs; a return
  executes them from the last to the first. Waiting for the emit loop returns once that loop has
  stopped, which it does when the context is cancelled or the sink failed: its channel is never
  closed.
\<close>

datatype deferred = DeferCloseRunDone | DeferCancel | DeferFlush | DeferWaitEmit | DeferStopTick

definition run_defers :: "bool \<Rightarrow> deferred list" where
  "run_defers async = [DeferCloseRunDone, DeferCancel] @ (if async then [DeferFlush] else []) @ [DeferWaitEmit, DeferStopTick]"

fun unwind :: "deferred list \<Rightarrow> bool \<Rightarrow> bool \<Rightarrow> bool" where
  "unwind [] cancelled stopped = True"
| "unwind (DeferCancel # ds) cancelled stopped = unwind ds True stopped"
| "unwind (DeferWaitEmit # ds) cancelled stopped = ((cancelled \<or> stopped) \<and> unwind ds cancelled True)"
| "unwind (d # ds) cancelled stopped = unwind ds cancelled stopped"

datatype run_end = RunReturns run_error | RunBlocked

definition run_return :: "bool \<Rightarrow> bool \<Rightarrow> epc \<Rightarrow> run_error \<Rightarrow> run_end" where
  "run_return async cancelled emitter e =
     (if unwind (rev (run_defers async)) cancelled (case emitter of EStopped items \<Rightarrow> True | _ \<Rightarrow> False) then RunReturns e else RunBlocked)"

text \<open>
  \<open>startSession\<close>: the goroutine of the session sends its result once; \<open>early\<close> says whether it arrives
  within the second that a failed start waits for it.
\<close>

datatype session_start = Started | StartFailed run_error | StartBlocked

definition startSession :: "run_error option \<Rightarrow> bool \<Rightarrow> run_error option \<Rightarrow> session_start" where
  "startSession waited early result =
     (case waited of
        None \<Rightarrow> Started
      | Some werr \<Rightarrow>
          let channel = [result];
              realErr = (if early then (case result of Some re \<Rightarrow> re | None \<Rightarrow> werr) else werr);
              channel1 = (if early then tl channel else channel)
          in case channel1 of [] \<Rightarrow> StartBlocked | r # rest \<Rightarrow> StartFailed realErr)"

text \<open>\<open>incrementalLoop\<close> on the results of its successive sessions; \<open>cancelled\<close> while it pauses.\<close>

fun incrementalLoop :: "(run_error option \<times> bool) list \<Rightarrow> run_error option option" where
  "incrementalLoop [] = None"
| "incrementalLoop ((res, cancelled) # rest) =
     (if res = Some ErrStalled then if cancelled then Some (Some ECtxDone) else incrementalLoop rest
      else if res = Some ECtxDone \<or> res = None then Some None
      else Some res)"


section \<open>The snapshot\<close>

text \<open>
  The progress of a snapshot: the store, what its last successful flush left on disk, the number
  of flushes so far (\<open>flush_ok\<close> tells which succeed), the events injected and their number.
\<close>

record dump_progress =
  du_store :: Store
  du_disk :: State
  du_flushes :: nat
  du_injected :: "Event list"
  du_emitted :: nat

definition du_flush :: "(nat \<Rightarrow> bool) \<Rightarrow> dump_progress \<Rightarrow> bool \<times> dump_progress" where
  "du_flush flush_ok p =
     (let ok = flush_ok (du_flushes p); p1 = p\<lparr>du_flushes := du_flushes p + 1\<rparr>
      in if \<not> dirty (du_store p) then (True, p1)
         else if ok then (True, p1\<lparr>du_disk := state (du_store p), du_store := (du_store p)\<lparr>dirty := False\<rparr>\<rparr>)
         else (False, p1))"

definition resume_point :: "position \<Rightarrow> bytes \<Rightarrow> bytes \<Rightarrow> bool \<Rightarrow> bytes \<Rightarrow> SnapshotResume" where
  "resume_point anchor typ key dumped dumpDir =
     \<lparr>AnchorFilenum = Filenum anchor, AnchorOffset = Offset anchor, TypeName = typ, ResumeKey = key, DumpDone = dumped, DumpDir = dumpDir\<rparr>"

definition save_resume :: "(nat \<Rightarrow> bool) \<Rightarrow> SnapshotResume \<Rightarrow> dump_progress \<Rightarrow> dump_progress" where
  "save_resume flush_ok rp p = snd (du_flush flush_ok (p\<lparr>du_store := SetResume rp (du_store p)\<rparr>))"

text \<open>The callback of the engine: inject the event, and every 20000 events record where it is.\<close>

definition dump_emit :: "(nat \<Rightarrow> bool) \<Rightarrow> bool \<Rightarrow> position \<Rightarrow> bytes \<Rightarrow> (nat \<Rightarrow> bool) \<Rightarrow> Event \<Rightarrow> dump_progress \<Rightarrow> bool \<times> dump_progress" where
  "dump_emit flush_ok dur anchor dumpDir inject_ok ev p =
     (if \<not> inject_ok (du_emitted p) then (False, p)
      else let p1 = p\<lparr>du_injected := du_injected p @ [ev], du_emitted := du_emitted p + 1\<rparr>
           in (True, if dur \<and> du_emitted p1 mod 20000 = 0
                     then save_resume flush_ok (resume_point anchor (EvType ev) (EvKey ev) False dumpDir) p1 else p1))"

datatype app_error = AOpenDump | AEmit engine_error | ARelease | AFlush | AFetch dbsync_error | AWipe | ASession run_error
  | ACancelled | AResumeGone | AResumeBacklog buf_error | AReady run_error

text \<open>
  \<open>emitDumpAndRelease\<close>: \<open>opened\<close> is the reader's result list when it opens, \<open>released\<close> whether
  \<open>Release\<close> succeeds.
\<close>

definition emitDumpAndRelease :: "AppConfig \<Rightarrow> (nat \<Rightarrow> bool) \<Rightarrow> position \<Rightarrow> bytes \<Rightarrow> bool \<Rightarrow> bytes \<times> bytes \<Rightarrow> bool \<Rightarrow> (nat \<Rightarrow> bool) \<Rightarrow>
    (next_result \<times> 64 word) list option \<Rightarrow> bool \<Rightarrow> dump_progress \<Rightarrow> app_error option \<times> dump_progress" where
  "emitDumpAndRelease c flush_ok anchor dumpDir dur resume dumpDone inject_ok opened released_ok p0 =
     (let p1 = (if dur then save_resume flush_ok (resume_point anchor (fst resume) (snd resume) dumpDone dumpDir) p0 else p0)
      in case (if dumpDone then (None, p1)
               else case opened of
                      None \<Rightarrow> (Some AOpenDump, p1)
                    | Some results \<Rightarrow>
                        (case engine_Emit \<lparr>eng_DBName = src_DB (ap_Source c), eng_SourceID = app_SourceID c, eng_IncludeTTL = ap_IncludeTTL c\<rparr>
                                anchor (dump_emit flush_ok dur anchor dumpDir inject_ok) results 0 p1 of
                           (Some e, n, p2) \<Rightarrow> (Some (AEmit e), p2)
                         | (None, n, p2) \<Rightarrow>
                             (None, if dur then save_resume flush_ok (resume_point anchor [] [] True dumpDir) p2 else p2))) of
           (Some e, p2) \<Rightarrow> (Some e, p2)
         | (None, p2) \<Rightarrow>
             if \<not> released_ok then (Some ARelease, p2)
             else let p3 = p2\<lparr>du_store := ClearResume (SetSnapshot PhaseDone (du_store p2))\<rparr>
                  in case du_flush flush_ok p3 of (True, p4) \<Rightarrow> (None, p4) | (False, p4) \<Rightarrow> (Some AFlush, p4))"

section \<open>The snapshot loop\<close>

datatype fetch_outcome = FetchOk bytes position | FetchCancelled | FetchPurged | FetchFailed dbsync_error

text \<open>
  One attempt of \<open>runDbsync\<close>: whether the durable backlog could be wiped, the outcome of \<open>Fetch\<close>, the
  inputs of the emission, and how the session ends afterwards.
\<close>

record attempt =
  at_wiped :: bool
  at_fetch :: fetch_outcome
  at_inject :: "nat \<Rightarrow> bool"
  at_opened :: "(next_result \<times> 64 word) list option"
  at_released :: bool
  at_cancelled :: bool
  at_session :: "run_error option"
  at_incremental :: "(run_error option \<times> bool) list"

datatype app_end = AppReturns "app_error option" | AppRunning

definition session_end :: "bool \<Rightarrow> run_error option \<Rightarrow> (run_error option \<times> bool) list \<Rightarrow> app_end" where
  "session_end cancelled res incr =
     (if cancelled then AppReturns (Some ACancelled)
      else if res = Some ECtxDone then AppReturns None
      else if res = Some ErrStalled
           then (case incrementalLoop incr of None \<Rightarrow> AppRunning | Some r \<Rightarrow> AppReturns (map_option ASession r))
      else AppReturns (map_option ASession res))"

fun runDbsync_loop :: "AppConfig \<Rightarrow> (nat \<Rightarrow> bool) \<Rightarrow> bool \<Rightarrow> attempt list \<Rightarrow> dump_progress \<Rightarrow> app_end \<times> dump_progress" where
  "runDbsync_loop c flush_ok force [] p = (AppRunning, p)"
| "runDbsync_loop c flush_ok force (a # as) p =
     (let dur = (ap_BufferFsync c = ''durable'');
          p1 = snd (du_flush flush_ok (p\<lparr>du_store := ResetForRescan (du_store p)\<rparr>))
      in if dur \<and> \<not> at_wiped a then (AppReturns (Some AWipe), p1)
         else case at_fetch a of
                FetchCancelled \<Rightarrow> (AppReturns (Some ACancelled), p1)
              | FetchPurged \<Rightarrow> if \<not> force then runDbsync_loop c flush_ok True as p1
                                else (AppReturns (Some (AFetch (EOnAnchor ErrPurged))), p1)
              | FetchFailed e \<Rightarrow> (AppReturns (Some (AFetch e)), p1)
              | FetchOk dumpDir anchor \<Rightarrow>
                  let st = SetDelivered (Filenum anchor) (Offset anchor) (du_store p1);
                      st1 = (if dur then SetResume (resume_point anchor [] [] False dumpDir) st else st);
                      p2 = snd (du_flush flush_ok (p1\<lparr>du_store := st1\<rparr>))
                  in case emitDumpAndRelease c flush_ok anchor dumpDir dur ([], []) False (at_inject a) (at_opened a) (at_released a) p2 of
                       (Some e, p3) \<Rightarrow> (AppReturns (Some e), p3)
                     | (None, p3) \<Rightarrow> (session_end (at_cancelled a) (at_session a) (at_incremental a), p3))"

section \<open>Resuming a snapshot\<close>

text \<open>
  The start of \<open>runDbsyncResume\<close>: a probe adopts the backlog the crashed run left, finds its tail and
  is shut down; the stream then starts at the tail, or at the anchor when the backlog is empty.
\<close>

definition resume_probe :: "AppConfig \<Rightarrow> io \<Rightarrow> bool \<Rightarrow> SnapshotResume \<Rightarrow> Store \<Rightarrow> dir \<Rightarrow> (app_error + position \<times> int \<times> dir) option" where
  "resume_probe c io dump_there rp st d =
     (let anchor = \<lparr>Filenum = AnchorFilenum rp, Offset = AnchorOffset rp\<rparr>;
          probe = AttachGate NewGateCtl (makeRunner c (src_LocalPort (ap_Source c)) zero_pos st None d)
      in if \<not> dump_there then Some (Inl AResumeGone)
         else case PrepareBacklog io probe of
                None \<Rightarrow> None
              | Some (Some e, tail, n, probe1) \<Rightarrow> Some (Inl (AResumeBacklog e))
              | Some (None, tail, n, probe1) \<Rightarrow>
                  Some (Inr (if tail = zero_pos then anchor else tail, n, disk (Shutdown probe1))))"

text \<open>The session that follows, its dump and its end, as in \<open>runDbsync\<close>.\<close>

definition resume_runner :: "AppConfig \<Rightarrow> position \<Rightarrow> Store \<Rightarrow> dir \<Rightarrow> Runner" where
  "resume_runner c startAt st d =
     AttachGate NewGateCtl (makeRunner c (src_LocalPort (ap_Source c)) startAt st None d)"

definition resume_finish :: "AppConfig \<Rightarrow> (nat \<Rightarrow> bool) \<Rightarrow> SnapshotResume \<Rightarrow> run_error option \<Rightarrow> attempt \<Rightarrow> dump_progress \<Rightarrow>
    (bool \<times> app_end) \<times> dump_progress" where
  "resume_finish c flush_ok rp waited a p =
     (case waited of
        Some e \<Rightarrow> ((False, AppReturns (Some (if e = ErrPurged then AResumeGone else AReady e))), p)
      | None \<Rightarrow>
          (case emitDumpAndRelease c flush_ok \<lparr>Filenum = AnchorFilenum rp, Offset = AnchorOffset rp\<rparr> (DumpDir rp) True
                  (TypeName rp, ResumeKey rp) (DumpDone rp) (at_inject a) (at_opened a) (at_released a) p of
             (Some e, p1) \<Rightarrow> ((True, AppReturns (Some e)), p1)
           | (None, p1) \<Rightarrow> ((True, session_end (at_cancelled a) (at_session a) (at_incremental a)), p1)))"

record resume_inputs =
  ri_io :: io
  ri_dump_there :: bool
  ri_dir :: dir
  ri_ready :: "run_error option"
  ri_attempt :: attempt

definition runDbsyncResume :: "AppConfig \<Rightarrow> (nat \<Rightarrow> bool) \<Rightarrow> SnapshotResume \<Rightarrow> resume_inputs \<Rightarrow> dump_progress \<Rightarrow> (bool \<times> app_end) \<times> dump_progress" where
  "runDbsyncResume c flush_ok rp ri p =
     (case resume_probe c (ri_io ri) (ri_dump_there ri) rp (du_store p) (ri_dir ri) of
        None \<Rightarrow> ((False, AppRunning), p)
      | Some (Inl e) \<Rightarrow> ((False, AppReturns (Some e)), p)
      | Some (Inr (startAt, n, d)) \<Rightarrow> resume_finish c flush_ok rp (ri_ready ri) (ri_attempt ri) p)"

definition runDbsync :: "AppConfig \<Rightarrow> (nat \<Rightarrow> bool) \<Rightarrow> resume_inputs \<Rightarrow> attempt list \<Rightarrow> dump_progress \<Rightarrow> app_end \<times> dump_progress" where
  "runDbsync c flush_ok ri as p =
     (let scan = (\<lambda>q. runDbsync_loop c flush_ok (ap_SnapshotBgsave c = ''force'') as q)
      in case (if ap_BufferFsync c = ''durable'' \<and> Snapshot (state (du_store p)) = PhaseRunning then Resume (state (du_store p)) else None) of
           None \<Rightarrow> scan p
         | Some rp \<Rightarrow>
             (case runDbsyncResume c flush_ok rp ri p of
                ((resumed, AppReturns (Some AResumeGone)), p1) \<Rightarrow> scan p1
              | ((resumed, e), p1) \<Rightarrow> (e, p1)))"

definition RunVersion :: "AppConfig \<Rightarrow> (nat \<Rightarrow> bool) \<Rightarrow> resume_inputs \<Rightarrow> attempt list \<Rightarrow> (run_error option \<times> bool) list \<Rightarrow> dump_progress \<Rightarrow> app_end \<times> dump_progress" where
  "RunVersion c flush_ok ri as incr p =
     (if Snapshot (state (du_store p)) = PhaseDone
      then (case incrementalLoop incr of None \<Rightarrow> AppRunning | Some r \<Rightarrow> AppReturns (map_option ASession r), p)
      else runDbsync c flush_ok ri as p)"


section \<open>Configuration properties\<close>

text \<open>
  C22. A configuration that loads selects exactly one sink and names everything that sink needs: the
  construction never dereferences a missing section, a Doris pipeline has frontends and rules, an
  SQL pipeline a data source and rules, Kafka has brokers and a topic, a file sink a path.
\<close>
theorem loaded_config_selects_one_sink:
  assumes "LoadConfig reader parsed = Inr c"
  shows "n_sinks c = 1 \<and>
    (case buildSink c of
       ChooseDoris d rules \<Rightarrow> ds_Fenodes d \<noteq> [] \<and> rules \<noteq> []
     | ChooseSql driver dsn q rules \<Rightarrow> driver \<noteq> [] \<and> dsn \<noteq> [] \<and> rules \<noteq> []
     | ChooseKafka brokers topic k hb \<Rightarrow> brokers \<noteq> [] \<and> topic \<noteq> []
     | ChooseFile p hb \<Rightarrow> p \<noteq> []
     | NilFile \<Rightarrow> False)"
proof -
  obtain c0 where v: "validate reader c0 = Inr c" using assms by (auto simp: LoadConfig_def)
  have "ap_Pipeline c = ap_Pipeline c0 \<and> ap_Kafka c = ap_Kafka c0 \<and> ap_File c = ap_File c0"
    using v by (auto simp: validate_def Let_def split: if_splits option.splits)
  moreover have "n_sinks c = 1" using v by (auto simp: validate_def Let_def split: if_splits option.splits)
  ultimately show ?thesis
    using v by (auto simp: validate_def buildSink_def n_sinks_def Let_def split: if_splits option.splits)
qed

section \<open>How sessions end\<close>


text \<open>
  A session that fails to start with its reason at hand is never reported: the reason is received
  from the channel that is then received from again, although only one value is ever sent.
\<close>
theorem failed_start_blocks: "startSession (Some werr) True result = StartBlocked"
  by (simp add: startSession_def)

section \<open>Snapshots\<close>

definition not_done :: "dump_progress \<Rightarrow> bool" where
  "not_done p \<longleftrightarrow> Snapshot (state (du_store p)) \<noteq> PhaseDone \<and> Snapshot (du_disk p) \<noteq> PhaseDone"

lemma du_flush_cases:
  "du_flush flush_ok p = (ok, p') \<Longrightarrow> state (du_store p') = state (du_store p) \<and> (du_disk p' = du_disk p \<or> du_disk p' = state (du_store p)) \<and>
     (dirty (du_store p) \<longrightarrow> (ok \<longrightarrow> du_disk p' = state (du_store p)) \<and> (\<not> ok \<longrightarrow> du_disk p' = du_disk p))"
  by (auto simp: du_flush_def Let_def split: if_splits)

lemma not_done_save: "not_done p \<Longrightarrow> not_done (save_resume flush_ok rp p)"
proof -
  assume p: "not_done p"
  obtain ok q where q: "du_flush flush_ok (p\<lparr>du_store := SetResume rp (du_store p)\<rparr>) = (ok, q)" by fastforce
  then show ?thesis using du_flush_cases [OF q] p by (auto simp: save_resume_def not_done_def SetResume_def)
qed

lemma not_done_emit: "not_done p \<Longrightarrow> not_done (snd (dump_emit flush_ok dur anchor dumpDir inject_ok ev p))"
proof -
  assume "not_done p"
  then have "not_done (p\<lparr>du_injected := du_injected p @ [ev], du_emitted := Suc (du_emitted p)\<rparr>)" by (simp add: not_done_def)
  then show ?thesis using \<open>not_done p\<close> not_done_save by (simp add: dump_emit_def Let_def)
qed

lemma engine_Emit_keeps:
  assumes "\<And>ev p. P p \<Longrightarrow> P (snd (emit ev p))"
  shows "P p \<Longrightarrow> P (snd (snd (engine_Emit c pos emit results n p)))"
proof (induction results arbitrary: n p)
  case (Cons r rest)
  obtain res now where r: "r = (res, now)" by fastforce
  show ?case
  proof (cases "\<exists>rec argv. res = NextRec rec \<and> ParseArray (rec_RawRESP rec) = Ok argv \<and> argv \<noteq> []")
    case True
    then obtain rec argv where rec: "res = NextRec rec" "ParseArray (rec_RawRESP rec) = Ok argv" "argv \<noteq> []" by blast
    obtain b q where b: "emit (snapshot_event c pos now n rec argv) p = (b, q)" by fastforce
    have "P q" using assms [OF Cons.prems, of "snapshot_event c pos now n rec argv"] b by simp
    then show ?thesis using r rec b Cons.IH [of q] by (cases b) simp_all
  next
    case False
    then show ?thesis using r Cons.prems by (auto split: next_result.splits outcome.splits)
  qed
qed simp

text \<open>The part of \<open>emitDumpAndRelease\<close> before the release.\<close>

lemma emitDump_before_release:
  assumes "not_done p0"
  obtains (failed) e p2 where "e \<noteq> AFlush" "not_done p2"
      "emitDumpAndRelease c flush_ok anchor dumpDir dur resume dumpDone inject_ok opened released_ok p0 = (Some e, p2)"
  | (flushed) p2 where "not_done p2" "released_ok"
      "emitDumpAndRelease c flush_ok anchor dumpDir dur resume dumpDone inject_ok opened released_ok p0 =
         (case du_flush flush_ok (p2\<lparr>du_store := ClearResume (SetSnapshot PhaseDone (du_store p2))\<rparr>) of
            (True, p4) \<Rightarrow> (None, p4) | (False, p4) \<Rightarrow> (Some AFlush, p4))"
proof -
  let ?ec = "\<lparr>eng_DBName = src_DB (ap_Source c), eng_SourceID = app_SourceID c, eng_IncludeTTL = ap_IncludeTTL c\<rparr>"
  define p1 where "p1 = (if dur then save_resume flush_ok (resume_point anchor (fst resume) (snd resume) dumpDone dumpDir) p0 else p0)"
  define body where "body = (if dumpDone then (None, p1)
               else case opened of
                      None \<Rightarrow> (Some AOpenDump, p1)
                    | Some results \<Rightarrow>
                        (case engine_Emit ?ec anchor (dump_emit flush_ok dur anchor dumpDir inject_ok) results 0 p1 of
                           (Some e, n, p2) \<Rightarrow> (Some (AEmit e), p2)
                         | (None, n, p2) \<Rightarrow>
                             (None, if dur then save_resume flush_ok (resume_point anchor [] [] True dumpDir) p2 else p2)))"
  have n1: "not_done p1" using assms not_done_save by (simp add: p1_def)
  have n2: "not_done (snd body) \<and> fst body \<noteq> Some AFlush"
  proof (cases "dumpDone \<or> opened = None")
    case True
    then show ?thesis using n1 by (auto simp: body_def)
  next
    case False
    then obtain results where o: "opened = Some results" by auto
    obtain e n p2 where e: "engine_Emit ?ec anchor (dump_emit flush_ok dur anchor dumpDir inject_ok) results 0 p1 = (e, n, p2)"
      using prod_cases3 by blast
    have "not_done p2"
      using engine_Emit_keeps [where P = not_done and emit = "dump_emit flush_ok dur anchor dumpDir inject_ok", OF not_done_emit n1,
          of ?ec anchor results 0] e by simp
    then show ?thesis using False o e not_done_save by (cases e) (auto simp: body_def)
  qed
  have eq: "emitDumpAndRelease c flush_ok anchor dumpDir dur resume dumpDone inject_ok opened released_ok p0 =
      (case body of (Some e, p2) \<Rightarrow> (Some e, p2)
         | (None, p2) \<Rightarrow>
             if \<not> released_ok then (Some ARelease, p2)
             else let p3 = p2\<lparr>du_store := ClearResume (SetSnapshot PhaseDone (du_store p2))\<rparr>
                  in case du_flush flush_ok p3 of (True, p4) \<Rightarrow> (None, p4) | (False, p4) \<Rightarrow> (Some AFlush, p4))"
    by (simp only: emitDumpAndRelease_def body_def p1_def Let_def)
  obtain r p2 where r: "body = (r, p2)" by fastforce
  show thesis
  proof (cases r)
    case (Some e)
    then show thesis using failed [of e p2] eq n2 r by simp
  next
    case None
    then show thesis using failed [of ARelease p2] flushed [of p2] eq n2 r by (cases released_ok) (simp_all add: Let_def)
  qed
qed


section \<open>The snapshot loop\<close>

text \<open>
  The snapshot is attempted at most twice: a purged anchor escalates once to a forced save, and a
  second one ends the run.
\<close>
theorem snapshot_attempted_at_most_twice:
  "runDbsync_loop c flush_ok force (a # b # rest) p = runDbsync_loop c flush_ok force [a, b] p"
  by (cases "at_fetch a"; cases "at_fetch b") (simp_all add: Let_def)

section \<open>Release without entries\<close>

text \<open>With no entry received, the release opens the gate at once, whatever is queued for the sink.\<close>

lemma release_without_entries:
  assumes "rls s = LIdle" "gate (rnr s) = Some g" "\<not> gate_hSet g" "buf (rnr s) = None" "bufInflight (rnr s) = 0"
    and "EvPhase ev = PhaseSnapshot" "room (rnr s)"
  shows "\<exists>t. reach marshal s t \<and> rls t = LDone \<and> received t = received s \<and> sunk t = sunk s \<and> emitCh (rnr t) = emitCh (rnr s)"
    and "\<exists>t. reach marshal s t \<and> rls t = LDone \<and> sunk t = sunk s \<and>
      emitCh (rnr t) = emitCh (rnr s) @ [\<lparr>item_ev = ev, item_pos = zero_pos, isPing = False\<rparr>]"
proof -
  have opens: "\<exists>t. reach marshal s t \<and> rls t = LDone \<and> received t = received s \<and> sunk t = sunk s \<and> emitCh (rnr t) = emitCh (rnr u)"
    if u: "reach marshal s u" "rls u = LIdle" "gate (rnr u) = Some g" "buf (rnr u) = None" "bufInflight (rnr u) = 0"
      "received u = received s" "sunk u = sunk s" for u
  proof -
    let ?a = "u\<lparr>rnr := rRequestOpenAt zero_pos (rnr u)\<rparr>"
    have 1: "step marshal u ?a" using step.open_at [OF u(2,3) assms(3)] .
    have 2: "step marshal ?a (?a\<lparr>rls := LCheck\<rparr>)"
      by (rule step.release [where g = "RequestOpenAt zero_pos g"]) (use u in \<open>simp_all add: rRequestOpenAt_def RequestOpenAt_def\<close>)
    have 3: "step marshal (?a\<lparr>rls := LCheck\<rparr>) (?a\<lparr>rnr := release_open (rnr ?a), rls := LDone\<rparr>)"
      using step.check_open [of "?a\<lparr>rls := LCheck\<rparr>" marshal] u
      by (simp add: rRequestOpenAt_def release_ready_def release_count_def)
    show ?thesis
      using reach_step [OF reach_step [OF reach_step [OF u(1) 1] 2] 3] u
      by (intro exI [of _ "?a\<lparr>rnr := release_open (rnr ?a), rls := LDone\<rparr>"]) (simp add: rRequestOpenAt_def release_open_def)
  qed
  then show "\<exists>t. reach marshal s t \<and> rls t = LDone \<and> received t = received s \<and> sunk t = sunk s \<and> emitCh (rnr t) = emitCh (rnr s)"
    using assms reach_start by blast
  have "step marshal s (s\<lparr>rnr := Inject ev (rnr s)\<rparr>)" using step.inject assms by blast
  from reach_step [OF reach_start this] opens [of "s\<lparr>rnr := Inject ev (rnr s)\<rparr>"]
  show "\<exists>t. reach marshal s t \<and> rls t = LDone \<and> sunk t = sunk s \<and>
      emitCh (rnr t) = emitCh (rnr s) @ [\<lparr>item_ev = ev, item_pos = zero_pos, isPing = False\<rparr>]"
    using assms by (auto simp: Inject_def)
qed

text \<open>
  The release, after which the snapshot is recorded as done and its resume coordinates are
  cleared, can complete while a snapshot event is still queued and the sink has taken nothing: a
  crash at that point loses the event, since the next start runs the incremental path only.
\<close>
theorem release_before_snapshot_taken:
  "\<exists>s. reach marshal (boot c st m d fs) s \<and> rls s = LDone \<and> sunk s = [] \<and>
     emitCh (rnr s) = [\<lparr>item_ev = ev\<lparr>EvPhase := PhaseSnapshot\<rparr>, item_pos = zero_pos, isPing = False\<rparr>]"
proof -
  have "room (rnr (boot c st m d fs))" by (simp add: room_def emit_cap_def)
  from release_without_entries(2) [OF _ _ _ _ _ _ this, of NewGateCtl "ev\<lparr>EvPhase := PhaseSnapshot\<rparr>" marshal]
  show ?thesis by (simp add: NewGateCtl_def)
qed

lemma resumed_simps [simp]:
  "rls (start r fs) = LIdle" "rnr (start r fs) = r" "received (start r fs) = []" "sunk (start r fs) = []"
  "gate (resume_runner c at st d) = Some NewGateCtl" "buf (resume_runner c at st d) = None"
  "bufInflight (resume_runner c at st d) = 0" "emitCh (resume_runner c at st d) = []" "\<not> gate_hSet NewGateCtl"
  by (simp_all add: start_def resume_runner_def AttachGate_def makeRunner_def NewRunner_def NewGateCtl_def)

text \<open>
  A resumed snapshot can skip the backlog it was meant to adopt. The probe scans a one-segment
  backlog, reports its end position and is shut down; the session then streams from that end with
  a runner of its own, whose release finds no buffer and completes although none of the backlog's
  records was received, queued or taken by the sink.
\<close>
theorem resume_skips_backlog:
  assumes "io_ok io" "rl \<noteq> []" "list_all wf_rec rl" "ap_BufferFsync c = ''durable''" "pbEnd (last rl) \<noteq> zero_pos"
  shows "\<exists>d. resume_probe c io True rp st [(seg_name 0, frames rl)] = Some (Inr (pbEnd (last rl), int (length rl), d)) \<and>
    (\<exists>s. reach marshal (start (resume_runner c (pbEnd (last rl)) st d) fs) s \<and> rls s = LDone \<and> received s = [] \<and> sunk s = [] \<and>
       emitCh (rnr s) = [])"
proof -
  let ?d = "[(seg_name 0, frames rl)]"
  let ?r = "AttachGate NewGateCtl (makeRunner c (src_LocalPort (ap_Source c)) zero_pos st None ?d)"
  have r: "buf ?r = None" "disk ?r = ?d" "cfg_BufferDurable (cfg ?r)"
    using assms(4) by (simp_all add: AttachGate_def makeRunner_def NewRunner_def)
  define hi where "hi = (if cfg_PendingBytesHigh (cfg ?r) \<le> 0 then 8 * 2 ^ 30 else cfg_PendingBytesHigh (cfg ?r))"
  define resv where "resv = (if cfg_ReserveFreeBytes (cfg ?r) \<le> 0 then 4 * 2 ^ 30 else cfg_ReserveFreeBytes (cfg ?r))"
  have n: "newBufferLocked io ?r = (case newDiskBuffer io (64 * 2 ^ 20) hi resv True True ?d of
      Inl e \<Rightarrow> Inl e | Inr (b, d) \<Rightarrow> Inr (?r\<lparr>buf := Some b, disk := d\<rparr>))"
    by (simp only: newBufferLocked_def Let_def r hi_def resv_def)
  obtain b where b: "newDiskBuffer io (64 * 2 ^ 20) hi resv True True ?d = Inr (b, ?d)" "buf_rel b ?d rl"
    "segs b = [\<lparr>seg_path = seg_name 0, seg_size = int (length (frames rl))\<rparr>]" "ro b = 0" "drainedB b = 0" "drainedC b = 0" "appended b = 0"
    using adopt_single [OF assms(1-3) is_segment_first] by blast
  obtain b' where t: "buf_tail io b ?d = Some (None, pbEnd (last rl), int (length rl), b', ?d)"
    using tail_single_segment [OF b(2,3) assms(2,1) b(4-6)] b(7) by blast
  define d where "d = disk (Shutdown (?r\<lparr>buf := Some b', disk := ?d\<rparr>))"
  have "PrepareBacklog io ?r = Some (None, pbEnd (last rl), int (length rl), ?r\<lparr>buf := Some b', disk := ?d\<rparr>)"
    using n b(1) t r(1) by (simp add: PrepareBacklog_def)
  then have "resume_probe c io True rp st ?d = Some (Inr (pbEnd (last rl), int (length rl), d))"
    using assms(5) by (simp add: resume_probe_def Let_def d_def)
  moreover have "\<exists>s. reach marshal (start (resume_runner c (pbEnd (last rl)) st d) fs) s \<and> rls s = LDone \<and> received s = [] \<and>
      sunk s = [] \<and> emitCh (rnr s) = []"
    using release_without_entries(1) [of "start (resume_runner c (pbEnd (last rl)) st d) fs" NewGateCtl
        "undefined\<lparr>EvPhase := PhaseSnapshot\<rparr>" marshal]
    by (simp add: resumed_simps room_def emit_cap_def)
  ultimately show ?thesis by blast
qed

section \<open>Witnesses\<close>

definition demo_app :: AppConfig where
  "demo_app =
     \<lparr>ap_Source = \<lparr>src_Host = ''pika'', src_Port = 9221, src_Password = [], src_DB = [], src_LocalIP = [], src_LocalPort = 9999\<rparr>,
      ap_Kafka = None, ap_File = Some \<lparr>fc_Path = ''events.json'', fc_IncludeHeartbeats = False\<rparr>, ap_Pipeline = None,
      ap_Checkpoint = ''/var/lib/cp.json'', ap_IncludeTTL = True, ap_AckEvery = 0, ap_Heartbeat = 0, ap_MetricsAddr = [], ap_DumpRoot = [],
      ap_SnapshotBgsave = [], ap_BufferDir = [], ap_PendingBytesHigh = 0, ap_ReserveFreeBytes = 0, ap_BufferFsync = ''durable''\<rparr>"

definition demo_store :: Store where
  "demo_store = \<lparr>path = [], state = empty_state ''pika:9221'', dirty = False\<rparr>"

definition demo_progress :: dump_progress where
  "demo_progress = \<lparr>du_store = demo_store, du_disk = empty_state [], du_flushes = 0, du_injected = [], du_emitted = 0\<rparr>"

definition demo_dump :: "app_error option \<times> dump_progress" where
  "demo_dump = emitDumpAndRelease demo_app (\<lambda>_. True) \<lparr>Filenum = 1, Offset = 100\<rparr> ''dump'' True ([], []) False (\<lambda>_. True)
     (Some []) True demo_progress"

theorem loaded_config_selects_one_sink_witness:
  "n_sinks (projr (LoadConfig True demo_app)) = 1 \<and> buildSink (projr (LoadConfig True demo_app)) = ChooseFile ''events.json'' False"
proof -
  have l: "LoadConfig True demo_app = Inr (projr (LoadConfig True demo_app))" by code_simp
  have "buildSink (projr (LoadConfig True demo_app)) = ChooseFile ''events.json'' False" by code_simp
  then show ?thesis using loaded_config_selects_one_sink [OF l] by simp
qed


theorem resume_skips_backlog_witness:
  "\<exists>d. resume_probe demo_app sample_io True (resume_point \<lparr>Filenum = 1, Offset = 0\<rparr> [] [] True ''dump'') demo_store
      [(seg_name 0, frames [sample_rec 1])] = Some (Inr (pbEnd (sample_rec 1), 1, d)) \<and>
    (\<exists>s. reach (\<lambda>_. None) (start (resume_runner demo_app (pbEnd (sample_rec 1)) demo_store d) Map.empty) s \<and> rls s = LDone \<and>
       received s = [] \<and> sunk s = [] \<and> emitCh (rnr s) = [])"
proof -
  have "pbEnd (last [sample_rec 1]) \<noteq> zero_pos" by code_simp
  then show ?thesis
    using resume_skips_backlog [of sample_io "[sample_rec 1]" demo_app] by (simp add: demo_app_def)
qed

end
