(* ===== verification/KeyModel.thy ===== *)
theory KeyModel
  imports Envelope Wire SqlMapping
begin

text \<open>
  The replay model of the topic verifier (\<^verbatim>\<open>cmd/pikatool/verifykafka.go\<close>): the state of one watched
  key as its events build it up, and the canonical texts by which it is compared with the
  server's replies. A nil Go map is \<^term>\<open>None\<close>; an assignment to it panics, which is the value
  \<^term>\<open>None\<close> of \<open>model_apply\<close>. The normal form of a score, a parse and a shortest print of a double, is
  an argument.
\<close>

section \<open>State\<close>

datatype mtype = MNone | MString | MHash | MList | MSet | MZset

record opModel =
  m_typ :: mtype
  m_s :: bytes
  m_h :: "strmap option"
  m_l :: "bytes list"
  m_set :: "bytes list option"
  m_z :: "strmap option"
  m_events :: nat

definition newModel :: opModel where
  "newModel = \<lparr>m_typ = MNone, m_s = [], m_h = None, m_l = [], m_set = None, m_z = None, m_events = 0\<rparr>"

section \<open>Replay\<close>

fun put_pairs :: "bytes list \<Rightarrow> strmap \<Rightarrow> strmap" where
  "put_pairs (f # v # r) m = put_pairs r (AList.update f v m)"
| "put_pairs _ m = m"

fun put_scores :: "bytes list \<Rightarrow> strmap \<Rightarrow> strmap" where
  "put_scores (sc # x # r) m = put_scores r (AList.update x sc m)"
| "put_scores _ m = m"

text \<open>\<open>put\<close> is the assignment to the map the command needs; it panics on a nil map.\<close>

definition put :: "('m \<Rightarrow> 'm) \<Rightarrow> 'm option \<Rightarrow> ('m option \<Rightarrow> opModel) \<Rightarrow> (bool \<times> opModel) option" where
  "put f mo upd = (case mo of None \<Rightarrow> None | Some x \<Rightarrow> Some (True, upd (Some (f x))))"

definition apply_hash :: "bytes \<Rightarrow> bytes list \<Rightarrow> opModel \<Rightarrow> (bool \<times> opModel) option" where
  "apply_hash c argv m =
     (let m1 = (if m_typ m = MNone then m\<lparr>m_typ := MHash, m_h := Some []\<rparr> else m)
      in if c = ''HSET'' then
           if length argv < 4 then Some (False, m)
           else if m_typ m1 \<noteq> MHash then Some (False, m1)
           else put (AList.update (argv ! 2) (argv ! 3)) (m_h m1) (\<lambda>h. m1\<lparr>m_h := h\<rparr>)
         else if c = ''HMSET'' then
           if m_typ m1 \<noteq> MHash \<or> length argv < 4 \<or> (length argv - 2) mod 2 \<noteq> 0 then Some (False, m1)
           else put (put_pairs (drop 2 argv)) (m_h m1) (\<lambda>h. m1\<lparr>m_h := h\<rparr>)
         else
           if m_typ m \<noteq> MHash \<or> length argv < 3 then Some (False, m)
           else let h = map_option (\<lambda>h. fold AList.delete (drop 2 argv) h) (m_h m)
                in if (case h of None \<Rightarrow> True | Some l \<Rightarrow> l = []) then Some (True, m\<lparr>m_typ := MNone, m_h := None\<rparr>)
                   else Some (True, m\<lparr>m_h := h\<rparr>))"

definition apply_list :: "bytes \<Rightarrow> bytes list \<Rightarrow> opModel \<Rightarrow> (bool \<times> opModel) option" where
  "apply_list c argv m =
     (if c = ''RPUSH'' then
        let m1 = (if m_typ m = MNone then m\<lparr>m_typ := MList, m_l := []\<rparr> else m)
        in if m_typ m1 \<noteq> MList \<or> length argv < 3 then Some (False, m1)
           else Some (True, m1\<lparr>m_l := m_l m1 @ drop 2 argv\<rparr>)
      else if m_typ m \<noteq> MList then Some (False, m)
      else let l = (if m_l m = [] then [] else if c = ''LPOP'' then tl (m_l m) else butlast (m_l m))
           in if l = [] then Some (True, m\<lparr>m_typ := MNone, m_l := []\<rparr>) else Some (True, m\<lparr>m_l := l\<rparr>))"

definition apply_set :: "bytes \<Rightarrow> bytes list \<Rightarrow> opModel \<Rightarrow> (bool \<times> opModel) option" where
  "apply_set c argv m =
     (if c = ''SADD'' then
        let m1 = (if m_typ m = MNone then m\<lparr>m_typ := MSet, m_set := Some []\<rparr> else m)
        in if m_typ m1 \<noteq> MSet \<or> length argv < 3 then Some (False, m1)
           else put (fold List.insert (drop 2 argv)) (m_set m1) (\<lambda>x. m1\<lparr>m_set := x\<rparr>)
      else if m_typ m \<noteq> MSet \<or> length argv < 3 then Some (False, m)
      else let x = map_option (fold removeAll (drop 2 argv)) (m_set m)
           in if (case x of None \<Rightarrow> True | Some l \<Rightarrow> l = []) then Some (True, m\<lparr>m_typ := MNone, m_set := None\<rparr>)
              else Some (True, m\<lparr>m_set := x\<rparr>))"

definition apply_zset :: "bytes \<Rightarrow> bytes list \<Rightarrow> opModel \<Rightarrow> (bool \<times> opModel) option" where
  "apply_zset c argv m =
     (if c = ''ZADD'' then
        let m1 = (if m_typ m = MNone then m\<lparr>m_typ := MZset, m_z := Some []\<rparr> else m)
        in if m_typ m1 \<noteq> MZset \<or> length argv < 4 \<or> (length argv - 2) mod 2 \<noteq> 0 then Some (False, m1)
           else put (put_scores (drop 2 argv)) (m_z m1) (\<lambda>z. m1\<lparr>m_z := z\<rparr>)
      else if m_typ m \<noteq> MZset \<or> length argv < 3 then Some (False, m)
      else let z = map_option (\<lambda>z. fold AList.delete (drop 2 argv) z) (m_z m)
           in if (case z of None \<Rightarrow> True | Some l \<Rightarrow> l = []) then Some (True, m\<lparr>m_typ := MNone, m_z := None\<rparr>)
              else Some (True, m\<lparr>m_z := z\<rparr>))"

definition model_apply :: "Phase \<Rightarrow> bytes \<Rightarrow> bytes list \<Rightarrow> opModel \<Rightarrow> (bool \<times> opModel) option" where
  "model_apply phase cmd argv m =
     (if phase = PhaseHeartbeat then Some (True, m)
      else let m1 = m\<lparr>m_events := m_events m + 1\<rparr>; c = to_upper cmd
           in if c \<in> {''SET'', ''SETEX'', ''PSETEX'', ''GETSET''} then
                if length argv < 3 then Some (False, m1)
                else Some (True, m1\<lparr>m_typ := MString, m_s := argv ! 2, m_h := None, m_l := [], m_set := None, m_z := None\<rparr>)
              else if c \<in> {''DEL'', ''UNLINK''} then
                Some (True, m1\<lparr>m_typ := MNone, m_s := [], m_h := None, m_l := [], m_set := None, m_z := None\<rparr>)
              else if c \<in> {''HSET'', ''HMSET'', ''HDEL''} then apply_hash c argv m1
              else if c \<in> {''RPUSH'', ''LPOP'', ''RPOP''} then apply_list c argv m1
              else if c \<in> {''SADD'', ''SREM''} then apply_set c argv m1
              else if c \<in> {''ZADD'', ''ZREM''} then apply_zset c argv m1
              else Some (True, m1))"

section \<open>Canonical texts\<close>

definition braces :: "bytes \<Rightarrow> bytes list \<Rightarrow> bytes" where
  "braces name xs = name @ ''{'' @ join '','' (sort_strings xs) @ ''}''"

definition eq_pair :: "bytes \<times> bytes \<Rightarrow> bytes" where
  "eq_pair p = fst p @ ''='' @ snd p"

definition canonical :: "(bytes \<Rightarrow> bytes) \<Rightarrow> opModel \<Rightarrow> bytes" where
  "canonical normScore m =
     (case m_typ m of
        MString \<Rightarrow> ''string:'' @ m_s m
      | MHash \<Rightarrow> braces ''hash'' (map eq_pair (case m_h m of None \<Rightarrow> [] | Some h \<Rightarrow> h))
      | MList \<Rightarrow> ''list['' @ join '','' (m_l m) @ '']''
      | MSet \<Rightarrow> braces ''set'' (case m_set m of None \<Rightarrow> [] | Some x \<Rightarrow> x)
      | MZset \<Rightarrow> braces ''zset'' (map (\<lambda>(x, sc). x @ ''='' @ normScore sc) (case m_z m of None \<Rightarrow> [] | Some z \<Rightarrow> z))
      | MNone \<Rightarrow> ''none'')"

text \<open>The fields of a decoded reply.\<close>

definition v_Str :: "Value \<Rightarrow> bytes" where
  "v_Str v = (case v of VBytes b \<Rightarrow> b | VError b \<Rightarrow> b | _ \<Rightarrow> [])"

definition v_Arr :: "Value \<Rightarrow> Value list" where
  "v_Arr v = (case v of VArray vs \<Rightarrow> vs | _ \<Rightarrow> [])"

fun arr_pairs :: "Value list \<Rightarrow> (bytes \<times> bytes) list" where
  "arr_pairs (a # b # r) = (v_Str a, v_Str b) # arr_pairs r"
| "arr_pairs _ = []"

definition pikaCanonical :: "(bytes \<Rightarrow> bytes) \<Rightarrow> bytes \<Rightarrow> Value \<Rightarrow> bytes" where
  "pikaCanonical normScore typ v =
     (if typ = ''none'' then ''none''
      else if typ = ''string'' then (case v of VBytes b \<Rightarrow> ''string:'' @ b | _ \<Rightarrow> ''none'')
      else if typ = ''hash'' then braces ''hash'' (map eq_pair (arr_pairs (v_Arr v)))
      else if typ = ''zset'' then braces ''zset'' (map (\<lambda>(x, sc). x @ ''='' @ normScore sc) (arr_pairs (v_Arr v)))
      else if typ = ''list'' then ''list['' @ join '','' (map v_Str (v_Arr v)) @ '']''
      else if typ = ''set'' then braces ''set'' (map v_Str (v_Arr v))
      else ''none'')"

section \<open>Replay never panics\<close>

text \<open>
  The type of a model says which of its fields hold data, and an aggregate is never empty, as on
  the server.
\<close>

definition model_ok :: "opModel \<Rightarrow> bool" where
  "model_ok m \<longleftrightarrow>
     (m_h m \<noteq> None \<longleftrightarrow> m_typ m = MHash) \<and> (m_set m \<noteq> None \<longleftrightarrow> m_typ m = MSet) \<and> (m_z m \<noteq> None \<longleftrightarrow> m_typ m = MZset) \<and>
     (m_l m \<noteq> [] \<longrightarrow> m_typ m = MList) \<and>
     (\<forall>h. m_h m = Some h \<longrightarrow> distinct (map fst h)) \<and> (\<forall>z. m_z m = Some z \<longrightarrow> distinct (map fst z)) \<and>
     (\<forall>x. m_set m = Some x \<longrightarrow> distinct x)"

lemma distinct_put_pairs: "distinct (map fst m) \<Longrightarrow> distinct (map fst (put_pairs xs m))"
  by (induction xs m rule: put_pairs.induct) (auto simp: distinct_update)

lemma distinct_put_scores: "distinct (map fst m) \<Longrightarrow> distinct (map fst (put_scores xs m))"
  by (induction xs m rule: put_scores.induct) (auto simp: distinct_update)

lemma distinct_delete_all: "distinct (map fst m) \<Longrightarrow> distinct (map fst (fold AList.delete xs m))"
  by (induction xs arbitrary: m) (auto simp: distinct_delete)

lemma distinct_insert_all: "distinct m \<Longrightarrow> distinct (fold List.insert xs m)"
  by (induction xs arbitrary: m) auto

lemma distinct_remove_all: "distinct m \<Longrightarrow> distinct (fold removeAll xs m)"
  by (induction xs arbitrary: m) (auto simp: distinct_removeAll)

lemmas model_facts = distinct_put_pairs distinct_put_scores distinct_delete_all distinct_insert_all distinct_remove_all distinct_update

lemma hash_ok: "model_ok m \<Longrightarrow> \<exists>b m'. apply_hash c argv m = Some (b, m') \<and> model_ok m'"
  by (cases "m_h m"; cases "m_typ m") (auto simp: apply_hash_def model_ok_def put_def Let_def model_facts split: option.splits)

lemma list_ok: "model_ok m \<Longrightarrow> \<exists>b m'. apply_list c argv m = Some (b, m') \<and> model_ok m'"
  by (cases "m_typ m") (auto simp: apply_list_def model_ok_def Let_def)

lemma set_ok: "model_ok m \<Longrightarrow> \<exists>b m'. apply_set c argv m = Some (b, m') \<and> model_ok m'"
  by (cases "m_set m"; cases "m_typ m") (auto simp: apply_set_def model_ok_def put_def Let_def model_facts split: option.splits)

lemma zset_ok: "model_ok m \<Longrightarrow> \<exists>b m'. apply_zset c argv m = Some (b, m') \<and> model_ok m'"
  by (cases "m_z m"; cases "m_typ m") (auto simp: apply_zset_def model_ok_def put_def Let_def model_facts split: option.splits)

lemma apply_ok: "model_ok m \<Longrightarrow> \<exists>b m'. model_apply phase cmd argv m = Some (b, m') \<and> model_ok m'"
proof -
  assume ok: "model_ok m"
  then have "model_ok (m\<lparr>m_events := m_events m + 1\<rparr>)" by (simp add: model_ok_def)
  then show ?thesis
    using ok hash_ok list_ok set_ok zset_ok unfolding model_apply_def Let_def
    by (auto simp: model_ok_def)
qed

fun replay :: "(Phase \<times> bytes \<times> bytes list) list \<Rightarrow> opModel \<Rightarrow> opModel option" where
  "replay [] m = Some m"
| "replay ((phase, cmd, argv) # evs) m = (case model_apply phase cmd argv m of None \<Rightarrow> None | Some (b, m') \<Rightarrow> replay evs m')"

lemma replay_total: "model_ok m \<Longrightarrow> \<exists>m'. replay evs m = Some m' \<and> model_ok m'"
proof (induction evs arbitrary: m)
  case (Cons e evs)
  obtain phase cmd argv where e: "e = (phase, cmd, argv)" by (cases e) auto
  obtain b m1 where "model_apply phase cmd argv m = Some (b, m1)" "model_ok m1" using apply_ok [OF Cons.prems] by blast
  then show ?case using Cons.IH e by simp
qed simp

text \<open>
  C40. Replaying never panics: whatever sequence of commands a topic holds for a key, malformed ones
  and commands of the wrong type included, the replay ends with a model whose type tells which of
  its fields hold data.
\<close>
theorem replay_never_panics: "\<exists>m. replay evs newModel = Some m \<and> model_ok m"
  by (rule replay_total) (simp add: model_ok_def newModel_def)

section \<open>Faithful replies compare equal\<close>

text \<open>
  What the server answers for a key: its type, and the members of its value in an order of the
  server's choice, except for lists.
\<close>

definition serves :: "opModel \<Rightarrow> bytes \<Rightarrow> Value \<Rightarrow> bool" where
  "serves m typ v \<longleftrightarrow>
     (case m_typ m of
        MNone \<Rightarrow> typ = ''none''
      | MString \<Rightarrow> typ = ''string'' \<and> v = VBytes (m_s m)
      | MHash \<Rightarrow> typ = ''hash'' \<and> (\<exists>h. m_h m = Some h \<and> mset (arr_pairs (v_Arr v)) = mset h)
      | MList \<Rightarrow> typ = ''list'' \<and> map v_Str (v_Arr v) = m_l m
      | MSet \<Rightarrow> typ = ''set'' \<and> (\<exists>x. m_set m = Some x \<and> mset (map v_Str (v_Arr v)) = mset x)
      | MZset \<Rightarrow> typ = ''zset'' \<and> (\<exists>z. m_z m = Some z \<and> mset (arr_pairs (v_Arr v)) = mset z))"

lemma braces_mset: "mset xs = mset ys \<Longrightarrow> braces name (map f xs) = braces name (map f ys)"
proof -
  assume "mset xs = mset ys"
  then have "mset (map f xs) = mset (map f ys)" by simp
  then have "sort (map f xs) = sort (map f ys)" by (intro properties_for_sort) simp_all
  then show ?thesis by (simp add: braces_def)
qed

text \<open>
  The comparison raises no false alarm: a server that holds exactly the replayed state renders to
  the same text, whatever order it lists fields and members in.
\<close>
theorem faithful_reply_matches:
  assumes "serves m typ v"
  shows "pikaCanonical normScore typ v = canonical normScore m"
proof -
  have set: "mset xs = mset ys \<Longrightarrow> braces name xs = braces name ys" for name and xs ys :: "bytes list"
    by (drule braces_mset [where f = "\<lambda>x. x" and name = name]) simp
  show ?thesis
  proof (cases "m_typ m")
    case MHash
    then show ?thesis using assms by (auto simp: serves_def pikaCanonical_def canonical_def dest: braces_mset [where f = eq_pair])
  next
    case MZset
    then show ?thesis using assms
      by (auto simp: serves_def pikaCanonical_def canonical_def dest: braces_mset [where f = "\<lambda>(x, sc). x @ ''='' @ normScore sc"])
  next
    case MSet
    then show ?thesis using assms by (auto simp: serves_def pikaCanonical_def canonical_def intro: set)
  qed (use assms in \<open>auto simp: serves_def pikaCanonical_def canonical_def\<close>)
qed

theorem faithful_reply_matches_witness:
  "pikaCanonical (\<lambda>s. s) ''hash'' (VArray [VBytes ''b'', VBytes ''2'', VBytes ''a'', VBytes ''1'']) =
    canonical (\<lambda>s. s) (newModel\<lparr>m_typ := MHash, m_h := Some [(''a'', ''1''), (''b'', ''2'')]\<rparr>)"
  by (rule faithful_reply_matches) (simp add: serves_def newModel_def v_Arr_def v_Str_def add_mset_commute)

text \<open>
  The comparison can miss a difference: separators inside values are not escaped, so a hash with
  one field and a hash with two can render to the same text.
\<close>
theorem canonical_collides:
  "canonical normScore (newModel\<lparr>m_typ := MHash, m_h := Some [(''a'', ''1,b=2'')]\<rparr>) =
   canonical normScore (newModel\<lparr>m_typ := MHash, m_h := Some [(''a'', ''1''), (''b'', ''2'')]\<rparr>)"
  by (simp add: canonical_def newModel_def braces_def eq_pair_def)

end
