(* ===== verification/VerifyKafka.thy ===== *)
theory VerifyKafka
  imports KeyModel "HOL-Library.Product_Lexorder"
begin

text \<open>
  The topic verifier (\<^verbatim>\<open>cmd/pikatool/verifykafka.go\<close>): the watch specifications, the collection of the
  events of all partitions in whatever order they arrive, the replay per key in source order, the
  count of events and the page-wise comparison with the server. Messages are decoded JSON; the
  server is its answer to a command.
\<close>

unbundle bit_operations_syntax

section \<open>Watches\<close>

record watchSpec =
  w_prefix :: bytes
  w_lo :: int
  w_hi :: int
  w_skip :: int
  w_minTotal :: int

text \<open>\<^verbatim>\<open>strings.Split\<close> at a single byte, \<^verbatim>\<open>strings.SplitN\<close> into two, \<^verbatim>\<open>strings.HasSuffix\<close>.\<close>

fun split_on :: "byte \<Rightarrow> bytes \<Rightarrow> bytes list" where
  "split_on x [] = [[]]"
| "split_on x (c # s) =
     (if c = x then [] # split_on x s
      else case split_on x s of [] \<Rightarrow> [[c]] | l # ls \<Rightarrow> (c # l) # ls)"

definition split_two :: "byte \<Rightarrow> bytes \<Rightarrow> bytes list" where
  "split_two x s = (if x \<in> set s then [takeWhile (\<lambda>c. c \<noteq> x) s, tl (dropWhile (\<lambda>c. c \<noteq> x) s)] else [s])"

text \<open>The value \<^verbatim>\<open>strconv.ParseInt\<close> returns next to its error.\<close>

definition int_value :: "bytes \<Rightarrow> int" where
  "int_value s =
     (case parse_int64 s of
        Inr n \<Rightarrow> n
      | Inl ErrSyntax \<Rightarrow> 0
      | Inl ErrRange \<Rightarrow> if hd s = CHR ''-'' then - max_int64 - 1 else max_int64)"

definition colon_end :: "bytes \<Rightarrow> bytes" where
  "colon_end p = (if p \<noteq> [] \<and> last p = CHR '':'' then p else p @ '':'')"

definition parse_watch :: "bytes \<Rightarrow> watchSpec option" where
  "parse_watch spec =
     (let parts = split_on (CHR '':'') (trim_space spec)
      in if length parts \<noteq> 3 \<and> length parts \<noteq> 4 then None
         else let rg = split_two (CHR ''-'') (parts ! 1)
              in if length rg \<noteq> 2 then None
                 else let err1 = isl (parse_int64 (if length parts = 4 then parts ! 2 else rg ! 0));
                          err2 = isl (parse_int64 (rg ! 1)); err3 = isl (parse_int64 (last parts))
                      in if err1 \<or> err2 \<or> err3 then None
                         else Some \<lparr>w_prefix = colon_end (parts ! 0), w_lo = int_value (rg ! 0), w_hi = int_value (rg ! 1),
                                    w_skip = (if length parts = 4 then int_value (parts ! 2) else 0),
                                    w_minTotal = int_value (last parts)\<rparr>)"

definition watched_index :: "watchSpec \<Rightarrow> int \<Rightarrow> bool" where
  "watched_index w i \<longleftrightarrow> w_skip w = 0 \<or> (w_skip w > 0 \<and> i mod w_skip w \<noteq> 0) \<or> (w_skip w < 0 \<and> i mod (- w_skip w) = 0)"

fun matchWatch :: "bytes \<Rightarrow> watchSpec list \<Rightarrow> watchSpec option" where
  "matchWatch k [] = None"
| "matchWatch k (w # ws) =
     (if has_prefix k (w_prefix w) \<and>
         (case parse_int64 (drop (length (w_prefix w)) k) of
            Inl e \<Rightarrow> False
          | Inr idx \<Rightarrow> w_lo w \<le> idx \<and> idx \<le> w_hi w \<and> watched_index w idx)
      then Some w else matchWatch k ws)"

text \<open>The keys a watch names, for ranges that end below the largest integer.\<close>

definition watch_keys :: "watchSpec \<Rightarrow> bytes list" where
  "watch_keys w = map (\<lambda>i. w_prefix w @ format_int i) (filter (watched_index w) [w_lo w..w_hi w])"

section \<open>Collecting\<close>

record pendingEvent =
  pe_rank :: nat
  pe_f :: "32 word"
  pe_o :: "64 word"
  pe_seq :: "64 word"
  pe_phase :: Phase
  pe_cmd :: bytes
  pe_args :: "bytes list"

record rawEvent =
  raw_Phase :: Phase
  raw_Command :: bytes
  raw_Key :: bytes
  raw_Args :: "bytes list"
  raw_ArgsEncoding :: bytes
  raw_Filenum :: "32 word"
  raw_Offset :: "64 word"
  raw_Seq :: "64 word"

record collected =
  totalSnap :: int
  totalIncr :: int
  pending_events :: "(bytes \<times> pendingEvent list) list"
  sampleStats :: "(bytes \<times> nat) list"
  dupSnap :: "bytes list"

definition raw_args :: "rawEvent \<Rightarrow> bytes list" where
  "raw_args raw =
     (if raw_ArgsEncoding raw = ''base64''
      then map (\<lambda>a. case b64_decode a of Some b \<Rightarrow> b | None \<Rightarrow> a) (raw_Args raw) else raw_Args raw)"

definition pending_of :: "rawEvent \<Rightarrow> pendingEvent" where
  "pending_of raw =
     \<lparr>pe_rank = (if raw_Phase raw = PhaseIncremental then 1 else 0), pe_f = raw_Filenum raw, pe_o = raw_Offset raw, pe_seq = raw_Seq raw,
      pe_phase = raw_Phase raw, pe_cmd = raw_Command raw, pe_args = raw_args raw\<rparr>"

text \<open>\<^verbatim>\<open>fnv.New64a\<close>, by which unwatched keys are sampled.\<close>

definition fnv64 :: "bytes \<Rightarrow> 64 word" where
  "fnv64 k = fold (\<lambda>c h. (h XOR of_nat (byte_val c)) * 1099511628211) k 14695981039346656037"

definition lookup_list :: "(bytes \<times> 'a list) list \<Rightarrow> bytes \<Rightarrow> 'a list" where
  "lookup_list m k = (case map_of m k of None \<Rightarrow> [] | Some xs \<Rightarrow> xs)"

text \<open>The locked region in which a partition's reader records one message.\<close>

definition collect :: "watchSpec list \<Rightarrow> 64 word \<Rightarrow> rawEvent \<Rightarrow> collected \<Rightarrow> collected" where
  "collect watches sampleEvery raw c =
     (let c1 = (if raw_Phase raw = PhaseIncremental then c\<lparr>totalIncr := totalIncr c + 1\<rparr> else c\<lparr>totalSnap := totalSnap c + 1\<rparr>);
          k = raw_Key raw
      in if matchWatch k watches \<noteq> None
         then c1\<lparr>pending_events := AList.update k (lookup_list (pending_events c1) k @ [pending_of raw]) (pending_events c1)\<rparr>
         else if fnv64 k mod sampleEvery = 0 \<and> raw_Phase raw \<noteq> PhaseIncremental
         then let n = (case map_of (sampleStats c1) k of None \<Rightarrow> 1 | Some j \<Rightarrow> j + 1)
              in c1\<lparr>sampleStats := AList.update k n (sampleStats c1), dupSnap := (if n > 1 then dupSnap c1 @ [k] else dupSnap c1)\<rparr>
         else c1)"

definition collect_all :: "watchSpec list \<Rightarrow> 64 word \<Rightarrow> rawEvent list \<Rightarrow> collected" where
  "collect_all watches sampleEvery msgs =
     fold (collect watches sampleEvery) msgs \<lparr>totalSnap = 0, totalIncr = 0, pending_events = [], sampleStats = [], dupSnap = []\<rparr>"

section \<open>Replay\<close>

definition pe_key :: "pendingEvent \<Rightarrow> nat \<times> 32 word \<times> 64 word \<times> 64 word" where
  "pe_key e = (pe_rank e, pe_f e, pe_o e, pe_seq e)"

text \<open>The stable sort by phase, position and sequence number, and the replay of a key.\<close>

definition replay_key :: "pendingEvent list \<Rightarrow> opModel option" where
  "replay_key evs = replay (map (\<lambda>e. (pe_phase e, pe_cmd e, pe_args e)) (sort_key pe_key evs)) newModel"

definition model_of :: "collected \<Rightarrow> bytes \<Rightarrow> opModel option" where
  "model_of c k = (case map_of (pending_events c) k of None \<Rightarrow> None | Some evs \<Rightarrow> replay_key evs)"

definition missing :: "collected \<Rightarrow> watchSpec list \<Rightarrow> bytes list" where
  "missing c watches =
     concat (map (\<lambda>w. filter (\<lambda>k. int (case model_of c k of None \<Rightarrow> 0 | Some m \<Rightarrow> m_events m) < w_minTotal w) (watch_keys w)) watches)"

section \<open>Comparison with the server\<close>

definition read_command :: "bytes \<Rightarrow> bytes \<Rightarrow> bytes list option" where
  "read_command t k =
     (if t = ''string'' then Some [''GET'', k]
      else if t = ''hash'' then Some [''HGETALL'', k]
      else if t = ''list'' then Some [''LRANGE'', k, ''0'', ''-1'']
      else if t = ''set'' then Some [''SMEMBERS'', k]
      else if t = ''zset'' then Some [''ZRANGE'', k, ''0'', ''-1'', ''WITHSCORES'']
      else None)"

text \<open>
  One page: the keys with the types the server gave them, and the replies of the reads, consumed
  in order. The result is the mismatching keys, or \<^term>\<open>None\<close> for an index out of range.
\<close>

fun compare_page :: "(bytes \<Rightarrow> bytes) \<Rightarrow> (bytes \<Rightarrow> opModel option) \<Rightarrow> (bytes \<times> bytes) list \<Rightarrow> Value list \<Rightarrow> bytes list option" where
  "compare_page normScore models [] replies = Some []"
| "compare_page normScore models ((k, typ) # rest) replies =
     (let md = (case models k of None \<Rightarrow> newModel | Some m \<Rightarrow> m); want = canonical normScore md
      in if typ = ''none'' then
           map_option (\<lambda>bad. if want = ''none'' then bad else k # bad) (compare_page normScore models rest replies)
         else if typ = ''unknown'' then compare_page normScore models rest replies
         else case replies of
                [] \<Rightarrow> None
              | v # vs \<Rightarrow>
                  map_option (\<lambda>bad. if pikaCanonical normScore typ v = want then bad else k # bad) (compare_page normScore models rest vs))"

definition page_of :: "(bytes list \<Rightarrow> Value) \<Rightarrow> (bytes \<Rightarrow> bytes) \<Rightarrow> (bytes \<Rightarrow> opModel option) \<Rightarrow> bytes list \<Rightarrow> bytes list option" where
  "page_of server normScore models keys =
     (let typed = map (\<lambda>k. (k, v_Str (server [''TYPE'', k]))) keys;
          replies = map server (List.map_filter (\<lambda>(k, t). read_command t k) typed)
      in compare_page normScore models typed replies)"

fun pages :: "(bytes list \<Rightarrow> Value) \<Rightarrow> (bytes \<Rightarrow> bytes) \<Rightarrow> (bytes \<Rightarrow> opModel option) \<Rightarrow> bytes list \<Rightarrow> bytes list option" where
  "pages server normScore models [] = Some []"
| "pages server normScore models (k # ks) =
     (case page_of server normScore models (take 512 (k # ks)) of
        None \<Rightarrow> None
      | Some bad \<Rightarrow> map_option (\<lambda>more. bad @ more) (pages server normScore models (drop 512 (k # ks))))"

datatype verify_end = VerifyOK | VerifyMismatch nat | VerifyViolations nat nat | VerifyPanic

definition verify_topic :: "watchSpec list \<Rightarrow> 64 word \<Rightarrow> (bytes list \<Rightarrow> Value) option \<Rightarrow> (bytes \<Rightarrow> bytes) \<Rightarrow> rawEvent list \<Rightarrow> verify_end" where
  "verify_topic watches sampleEvery server normScore msgs =
     (let c = collect_all watches sampleEvery msgs;
          bad = missing c watches;
          violations = (if bad \<noteq> [] \<or> dupSnap c \<noteq> [] then VerifyViolations (length bad) (length (dupSnap c)) else VerifyOK)
      in if sampleEvery = 0 \<and> list_ex (\<lambda>raw. matchWatch (raw_Key raw) watches = None) msgs then VerifyPanic
         else case server of
           None \<Rightarrow> violations
         | Some sv \<Rightarrow>
             (case pages sv normScore (model_of c) (concat (map watch_keys watches)) of
                None \<Rightarrow> VerifyPanic
              | Some mism \<Rightarrow> if mism \<noteq> [] then VerifyMismatch (length mism) else violations))"

text \<open>\<open>splitHostPort\<close> and the tally of a prefix.\<close>

definition splitHostPort :: "bytes \<Rightarrow> (bytes \<times> int) option" where
  "splitHostPort s =
     (if CHR '':'' \<notin> set s then None
      else let t = takeWhile (\<lambda>c. c \<noteq> CHR '':'') (rev s); i = length s - 1 - length t
           in if i = 0 then None
              else case parse_int64 (rev t) of Inl e \<Rightarrow> None | Inr p \<Rightarrow> Some (take i s, p))"

record tally =
  t_n :: int
  t_min :: int
  t_max :: int

definition tally_add :: "bytes \<Rightarrow> bytes \<Rightarrow> tally \<Rightarrow> tally" where
  "tally_add p k t =
     (if \<not> has_prefix k p then t
      else let t1 = t\<lparr>t_n := t_n t + 1\<rparr>
           in case parse_int64 (drop (length p) k) of
                Inl e \<Rightarrow> t1
              | Inr v \<Rightarrow> t1\<lparr>t_min := (if t_n t1 = 1 \<or> v < t_min t1 then v else t_min t1), t_max := (if v > t_max t1 then v else t_max t1)\<rparr>)"

section \<open>The order of arrival\<close>

lemma collect_pending:
  "map_of (pending_events (collect ws n raw c)) k =
     (if raw_Key raw = k \<and> matchWatch k ws \<noteq> None then Some (lookup_list (pending_events c) k @ [pending_of raw])
      else map_of (pending_events c) k)"
  by (auto simp: collect_def Let_def lookup_list_def)

lemma fold_collect_pending:
  "map_of (pending_events (fold (collect ws n) msgs c)) k =
     (let new = map pending_of (filter (\<lambda>r. raw_Key r = k) msgs)
      in if matchWatch k ws = None \<or> new = [] then map_of (pending_events c) k
         else Some (lookup_list (pending_events c) k @ new))"
proof (induction msgs arbitrary: c)
  case (Cons raw msgs)
  show ?case
  proof (cases "raw_Key raw = k \<and> matchWatch k ws \<noteq> None")
    case True
    then have "lookup_list (pending_events (collect ws n raw c)) k = lookup_list (pending_events c) k @ [pending_of raw]"
      by (simp add: lookup_list_def collect_pending)
    then show ?thesis using True by (auto simp: Cons.IH collect_pending Let_def)
  next
    case False
    then have "map_of (pending_events (collect ws n raw c)) k = map_of (pending_events c) k" by (auto simp: collect_pending)
    then show ?thesis using False by (auto simp: Cons.IH lookup_list_def Let_def)
  qed
qed (simp add: Let_def)

definition key_events :: "rawEvent list \<Rightarrow> bytes \<Rightarrow> pendingEvent list" where
  "key_events msgs k = map pending_of (filter (\<lambda>r. raw_Key r = k) msgs)"

lemma model_of_collected:
  "model_of (collect_all ws n msgs) k =
     (if matchWatch k ws = None \<or> key_events msgs k = [] then None else replay_key (key_events msgs k))"
  using fold_collect_pending [of ws n msgs _ k] by (simp add: model_of_def collect_all_def key_events_def lookup_list_def Let_def)


section \<open>What a passed verification means\<close>

definition known_types :: "bytes list" where
  "known_types = [''none'', ''unknown'', ''string'', ''hash'', ''list'', ''set'', ''zset'']"

text \<open>The verdict the verifier should reach on one key.\<close>

definition key_agrees :: "(bytes list \<Rightarrow> Value) \<Rightarrow> (bytes \<Rightarrow> bytes) \<Rightarrow> (bytes \<Rightarrow> opModel option) \<Rightarrow> bytes \<Rightarrow> bool" where
  "key_agrees server normScore models k \<longleftrightarrow>
     (let typ = v_Str (server [''TYPE'', k]); want = canonical normScore (case models k of None \<Rightarrow> newModel | Some m \<Rightarrow> m)
      in typ = ''unknown'' \<or>
         (case read_command typ k of None \<Rightarrow> want = ''none'' | Some cmd \<Rightarrow> pikaCanonical normScore typ (server cmd) = want))"

lemma page_of_exact:
  assumes "list_all (\<lambda>k. v_Str (server [''TYPE'', k]) \<in> set known_types) keys"
  shows "page_of server normScore models keys = Some (filter (\<lambda>k. \<not> key_agrees server normScore models k) keys)"
  using assms
proof (induction keys)
  case (Cons k keys)
  define t where "t = v_Str (server [''TYPE'', k])"
  have IH: "page_of server normScore models keys = Some (filter (\<lambda>k. \<not> key_agrees server normScore models k) keys)"
    using Cons by simp
  consider (none) "t = ''none''" | (unknown) "t = ''unknown''" | (read) cmd where "read_command t k = Some cmd" "t \<noteq> ''none''" "t \<noteq> ''unknown''"
    using Cons.prems by (auto simp: known_types_def read_command_def t_def)
  then show ?case
  proof cases
    case none
    then have "read_command t k = None" by (simp add: read_command_def)
    then show ?thesis using IH none by (simp add: page_of_def key_agrees_def Let_def List.map_filter_def flip: t_def)
  next
    case unknown
    then have "read_command t k = None" by (simp add: read_command_def)
    then show ?thesis using IH unknown by (simp add: page_of_def key_agrees_def Let_def List.map_filter_def flip: t_def)
  next
    case (read cmd)
    then show ?thesis using IH by (simp add: page_of_def key_agrees_def Let_def List.map_filter_def flip: t_def)
  qed
qed (simp add: page_of_def)

lemma pages_exact:
  assumes "list_all (\<lambda>k. v_Str (server [''TYPE'', k]) \<in> set known_types) keys"
  shows "pages server normScore models keys = Some (filter (\<lambda>k. \<not> key_agrees server normScore models k) keys)"
  using assms
proof (induction server normScore models keys rule: pages.induct)
  case (2 server normScore models k ks)
  have a: "list_all (\<lambda>k. v_Str (server [''TYPE'', k]) \<in> set known_types) (take 512 (k # ks))"
    "list_all (\<lambda>k. v_Str (server [''TYPE'', k]) \<in> set known_types) (drop 512 (k # ks))"
    using "2.prems" by (auto simp: list_all_iff dest: in_set_takeD in_set_dropD simp del: take_Suc_Cons drop_Suc_Cons)
  have f: "filter P (take 512 (k # ks)) @ filter P (drop 512 (k # ks)) = filter P (k # ks)" for P
    by (metis append_take_drop_id filter_append)
  show ?case
    by (simp only: pages.simps page_of_exact [OF a(1)] "2.IH" [OF page_of_exact [OF a(1)] a(2)] option.case option.map f)
qed simp


section \<open>Witnesses and boundary cases\<close>

definition demo_raw :: "Phase \<Rightarrow> 64 word \<Rightarrow> bytes list \<Rightarrow> rawEvent" where
  "demo_raw ph off args =
     \<lparr>raw_Phase = ph, raw_Command = hd args, raw_Key = ''u:1'', raw_Args = args, raw_ArgsEncoding = ''utf8'', raw_Filenum = 1,
      raw_Offset = off, raw_Seq = 0\<rparr>"

definition demo_msgs :: "rawEvent list" where
  "demo_msgs = [demo_raw PhaseIncremental 20 [''set'', ''u:1'', ''b''], demo_raw PhaseSnapshot 10 [''SET'', ''u:1'', ''a'']]"

definition demo_watch :: watchSpec where
  "demo_watch = \<lparr>w_prefix = ''u:'', w_lo = 1, w_hi = 1, w_skip = 0, w_minTotal = 2\<rparr>"

definition demo_server :: "bytes list \<Rightarrow> Value" where
  "demo_server cmd = (if hd cmd = ''TYPE'' then VBytes ''string'' else VBytes ''b'')"


lemma demo_num: "parse_int64 ''1'' = Inr 1" "parse_int64 ''2'' = Inr 2" "parse_int64 ''9'' = Inr 9" "parse_int64 ''x'' = Inl ErrSyntax"
  by (simp_all add: parse_int64_def parse_uint_def is_digit_def digit_val_def max_int64_def Let_def)


text \<open>
  A key of a type the verifier does not read gets no reply of its own but consumes one: the next
  key's reply is compared with it, and with no reply left the index is out of range.
\<close>
theorem unread_type_panics:
  "page_of (\<lambda>cmd. VBytes ''stream'') normScore models [k] = None"
  by (simp add: page_of_def read_command_def v_Str_def List.map_filter_def)

text \<open>A watch with a skip accepts a lower bound that is no number: the skip overwrites its error.\<close>
theorem bad_lower_bound_accepted:
  "parse_watch ''k:x-9:2:1'' = Some \<lparr>w_prefix = ''k:'', w_lo = 0, w_hi = 9, w_skip = 2, w_minTotal = 1\<rparr>"
proof -
  have "trim_space ''k:x-9:2:1'' = ''k:x-9:2:1''" by code_simp
  then show ?thesis by (simp add: parse_watch_def split_two_def int_value_def colon_end_def demo_num Let_def)
qed

end
