(* ===== verification/ExpCodec.thy ===== *)
theory ExpCodec
  imports Binlog Wire
begin

text \<open>
  The decoders of the experiment kit (\<^verbatim>\<open>tools/expkit/exp/binlog.go\<close> and \<^verbatim>\<open>resp.go\<close>). They are written
  independently of the product, so that a capture cannot share its mistakes; the theorems compare
  the two. A reader is the list of the bytes still to come.
\<close>

section \<open>Entries\<close>

record Entry =
  en_Type :: "16 word"
  en_ExecTime :: "32 word"
  en_Filenum :: "32 word"
  en_Offset :: "64 word"
  en_Argv :: "bytes list"

definition line_limit :: nat where
  "line_limit = 2 ^ 24"

definition readLineB :: "bytes \<Rightarrow> (bytes \<times> bytes) option" where
  "readLineB s =
     (let l = takeWhile (\<lambda>c. c \<noteq> nl) s
      in if nl \<notin> set s \<or> length l > line_limit then None
         else Some (if l \<noteq> [] \<and> last l = CHR 0x0D then butlast l else l, drop (Suc (length l)) s))"

text \<open>
  \<^verbatim>\<open>make\<close> panics on a negative size and beyond the largest object of \<open>2\<^sup>4\<^sup>8\<close> bytes, a slice expression on
  a negative bound; the sum of a length and two wraps.
\<close>

fun read_argv :: "nat \<Rightarrow> bytes \<Rightarrow> (unit, bytes list) outcome" where
  "read_argv 0 r = Ok []"
| "read_argv (Suc n) r =
     (case readLineB r of
        None \<Rightarrow> Error ()
      | Some (line, r1) \<Rightarrow>
          if line = [] \<or> hd line \<noteq> CHR ''$'' then Error ()
          else case parse_int64 (tl line) of
                 Inl e \<Rightarrow> Error ()
               | Inr l \<Rightarrow>
                   let size = wrap64 (l + 2)
                   in if size < 0 \<or> size > 2 ^ 48 then Panic
                      else if length r1 < nat size then Error ()
                      else if l < 0 then Panic
                      else case read_argv n (drop (nat size) r1) of Ok argv \<Rightarrow> Ok (take (nat l) r1 # argv) | x \<Rightarrow> x)"

definition ParseRespArray :: "bytes \<Rightarrow> (unit, bytes list) outcome" where
  "ParseRespArray p =
     (case readLineB p of
        None \<Rightarrow> Error ()
      | Some (line, r) \<Rightarrow>
          if line = [] \<or> hd line \<noteq> CHR ''*'' then Error ()
          else case parse_int64 (tl line) of
                 Inl e \<Rightarrow> Error ()
               | Inr n \<Rightarrow> if n < 0 \<or> n * 16 > 2 ^ 48 then Panic else read_argv (nat n) r)"

definition DecodeEntry :: "bytes \<Rightarrow> (unit, Entry) outcome" where
  "DecodeEntry b =
     (if length b < 34 then Error ()
      else if get_u16 b \<noteq> 1 then Error ()
      else if of_nat (length b - 34) \<noteq> get_u32 (drop 30 b) then Error ()
      else case ParseRespArray (drop 34 b) of
             Ok argv \<Rightarrow> Ok \<lparr>en_Type = get_u16 b, en_ExecTime = get_u32 (drop 2 b), en_Filenum = get_u32 (drop 18 b),
                           en_Offset = get_u64 (drop 22 b), en_Argv = argv\<rparr>
           | Error e \<Rightarrow> Error e
           | Panic \<Rightarrow> Panic)"

section \<open>The client\<close>

datatype Val = ESimple bytes | EErr bytes | EInt int | EBulk bytes | ENilBulk | EArr "Val list" | ENilArr

definition writeCmd :: "bytes list \<Rightarrow> bytes" where
  "writeCmd args = ''*'' @ format_int (int (length args)) @ crlf @
     concat (map (\<lambda>a. ''$'' @ format_int (int (length a)) @ crlf @ a @ crlf) args)"

definition exp_readLine :: "bytes \<Rightarrow> (bytes \<times> bytes) option" where
  "exp_readLine s =
     (let l = takeWhile (\<lambda>c. c \<noteq> nl) s
      in if nl \<notin> set s \<or> Suc (length l) > line_limit then None
         else Some (if l \<noteq> [] \<and> last l = CHR 0x0D then butlast l else l, drop (Suc (length l)) s))"

text \<open>The depth bound is the input length, which no reply exceeds.\<close>

fun exp_reply :: "nat \<Rightarrow> bytes \<Rightarrow> (unit, Val \<times> bytes) outcome"
and exp_replies :: "nat \<Rightarrow> nat \<Rightarrow> bytes \<Rightarrow> (unit, Val list \<times> bytes) outcome" where
  "exp_reply 0 s = Error ()"
| "exp_reply (Suc f) s =
     (case exp_readLine s of
        None \<Rightarrow> Error ()
      | Some ([], r) \<Rightarrow> Error ()
      | Some (p # line, r) \<Rightarrow>
          if p = CHR ''+'' then Ok (ESimple line, r)
          else if p = CHR ''-'' then Ok (EErr line, r)
          else if p \<notin> {CHR '':'', CHR ''$'', CHR ''*''} then Error ()
          else case parse_int64 line of
                 Inl e \<Rightarrow> Error ()
               | Inr n \<Rightarrow>
                   if p = CHR '':'' then Ok (EInt n, r)
                   else if n < 0 then Ok (if p = CHR ''$'' then ENilBulk else ENilArr, r)
                   else if p = CHR ''$'' then
                     let size = wrap64 (n + 2)
                     in if size < 0 \<or> size > 2 ^ 48 then Panic
                        else if length r < nat size then Error ()
                        else Ok (EBulk (take (nat n) r), drop (nat size) r)
                   else if n * 64 > 2 ^ 48 then Panic
                   else (case exp_replies f (nat n) r of Ok (vs, r') \<Rightarrow> Ok (EArr vs, r') | Error e \<Rightarrow> Error e | Panic \<Rightarrow> Panic))"
| "exp_replies f 0 s = Ok ([], s)"
| "exp_replies f (Suc n) s =
     (case exp_reply f s of
        Error e \<Rightarrow> Error e
      | Panic \<Rightarrow> Panic
      | Ok (v, r) \<Rightarrow> (case exp_replies f n r of Ok (vs, r') \<Rightarrow> Ok (v # vs, r') | Error e \<Rightarrow> Error e | Panic \<Rightarrow> Panic))"

definition readReplyE :: "bytes \<Rightarrow> (unit, Val \<times> bytes) outcome" where
  "readReplyE s = exp_reply (Suc (length s)) s"

fun Pipeline :: "nat \<Rightarrow> bytes \<Rightarrow> (unit, Val list \<times> bytes) outcome" where
  "Pipeline 0 s = Ok ([], s)"
| "Pipeline (Suc k) s =
     (case readReplyE s of
        Error e \<Rightarrow> Error e
      | Panic \<Rightarrow> Panic
      | Ok (v, r) \<Rightarrow> (case Pipeline k r of Ok (vs, r') \<Rightarrow> Ok (v # vs, r') | Error e \<Rightarrow> Error e | Panic \<Rightarrow> Panic))"


section \<open>The two decoders agree\<close>

lemma takeWhile_line: "nl \<notin> set l \<Longrightarrow> takeWhile (\<lambda>c. c \<noteq> nl) (l @ CHR 0x0D # nl # r) = l @ [CHR 0x0D]"
  by (subst takeWhile_append2) auto

lemma readLineB_text: "nl \<notin> set l \<Longrightarrow> Suc (length l) \<le> line_limit \<Longrightarrow> readLineB (l @ crlf @ r) = Some (l, r)"
  by (simp add: readLineB_def Let_def takeWhile_line)

lemma exp_readLine_text: "nl \<notin> set l \<Longrightarrow> length l + 2 \<le> line_limit \<Longrightarrow> exp_readLine (l @ crlf @ r) = Some (l, r)"
  by (simp add: exp_readLine_def Let_def takeWhile_line)

lemma digits_no_nl: "list_all is_digit ds \<Longrightarrow> nl \<notin> set ds"
  by (auto simp: list_all_iff is_digit_def)

lemma int_line_parsed:
  assumes "int_line h n" "n < 2 ^ 63"
  shows "\<exists>l. h = l @ crlf \<and> nl \<notin> set l \<and> parse_int64 l = Inr (int n)"
proof -
  obtain sg ds where h: "h = sg @ ds @ crlf" "sg = [] \<or> sg = ''-'' \<and> n = 0" "ds \<noteq> []" "list_all is_digit ds" "dec_val ds = n"
    using assms(1) by (auto simp: int_line_def)
  have u: "parse_uint 64 ds = Inr n"
    using h parse_uint_loop_digits [of ds 0 "2 ^ 64 - 1"] assms(2) by (simp add: parse_uint_def flip: dec_val_def)
  obtain d ds' where d: "ds = d # ds'" using h(3) by (cases ds) auto
  then have "d \<noteq> CHR ''+'' \<and> d \<noteq> CHR ''-''" using h(4) by (auto simp: is_digit_def)
  then have "parse_int64 (sg @ ds) = Inr (int n)" using h(2) u d assms(2) by (auto simp: parse_int64_def)
  then show ?thesis using h(1,2,4) digits_no_nl by (intro exI [of _ "sg @ ds"]) auto
qed

lemma read_argv_text:
  "list_all (\<lambda>(h, a). int_line h (length a)) xs \<Longrightarrow> length (bulks_text xs) \<le> line_limit \<Longrightarrow>
     read_argv (length xs) (bulks_text xs @ r) = Ok (map snd xs)"
proof (induction xs arbitrary: r rule: bulks_text.induct)
  case (2 h a xs)
  have len: "length a < 2 ^ 25" using "2.prems"(2) by (simp add: line_limit_def)
  then have "length a < 2 ^ 63" by simp
  then obtain l where l: "h = l @ crlf" "nl \<notin> set l" "parse_int64 l = Inr (int (length a))"
    using int_line_parsed [of h "length a"] "2.prems"(1) by auto
  have "readLineB ((CHR ''$'' # l) @ crlf @ a @ crlf @ bulks_text xs @ r) = Some (CHR ''$'' # l, a @ crlf @ bulks_text xs @ r)"
    using "2.prems"(2) l(1,2) by (intro readLineB_text) auto
  moreover have "wrap64 (int (length a) + 2) = int (length a) + 2" using len by (intro wrap64_id) (simp_all add: max_int64_def)
  moreover have "nat (int (length a) + 2) = length a + 2" by simp
  ultimately show ?case using "2.IH" [of r] "2.prems" l len by (simp add: Let_def)
qed simp

text \<open>
  C24. The independent decoder agrees with the product: every entry that the product decodes and whose
  content its parser accepts is decoded by the experiment kit to the same position, time and
  arguments. Only lines beyond sixteen megabytes are excluded.
\<close>
theorem decoders_agree:
  assumes "DecodeTypeFirst b = Inr it" "ParseArray (Content it) = Ok argv" "length (Content it) \<le> line_limit"
  shows "DecodeEntry b = Ok \<lparr>en_Type = ItemType it, en_ExecTime = ExecTime it, en_Filenum = ItemFilenum it, en_Offset = ItemOffset it, en_Argv = argv\<rparr>"
proof -
  obtain h xs where c: "Content it = ''*'' @ h @ bulks_text xs" "map snd xs = argv" "int_line h (length argv)"
    "list_all (\<lambda>(h, a). int_line h (length a)) xs"
    using ParseArray_shape [OF assms(2)] by blast
  have n: "length xs = length argv" using c(2) by auto
  have "length xs \<le> length (bulks_text xs)" by (induction xs rule: bulks_text.induct) auto
  then have len: "length argv < 2 ^ 25" using n assms(3) c(1) by (simp add: line_limit_def)
  then obtain l where l: "h = l @ crlf" "nl \<notin> set l" "parse_int64 l = Inr (int (length argv))"
    using int_line_parsed [OF c(3)] by auto
  have "readLineB ((CHR ''*'' # l) @ crlf @ bulks_text xs) = Some (CHR ''*'' # l, bulks_text xs)"
    using assms(3) l(1,2) c(1) by (intro readLineB_text) auto
  moreover have "read_argv (length xs) (bulks_text xs @ []) = Ok argv"
    using c assms(3) by (subst read_argv_text) auto
  ultimately have "ParseRespArray (Content it) = Ok argv" using c(1) l len n by (simp add: ParseRespArray_def)
  moreover have "of_nat (length b - 34) = get_u32 (drop 30 b)" if "length b - 34 = unat (get_u32 (drop 30 b))"
    using that by simp
  ultimately show ?thesis
    using assms(1) by (auto simp: DecodeTypeFirst_def DecodeEntry_def headerSize_def TypeFirst_def Let_def simp del: of_nat_diff split: if_splits)
qed

text \<open>The reply that stands for a value of the product's client.\<close>

fun val_of :: "Value \<Rightarrow> Val" where
  "val_of VNil = ENilBulk"
| "val_of (VBytes b) = EBulk b"
| "val_of (VError e) = EErr e"
| "val_of (VArray vs) = EArr (map val_of vs)"

fun val_fits :: "Value \<Rightarrow> bool" where
  "val_fits VNil = True"
| "val_fits (VBytes b) = (int (length b) + 2 \<le> 2 ^ 48)"
| "val_fits (VError e) = (nl \<notin> set e \<and> length e + 3 \<le> line_limit)"
| "val_fits (VArray vs) = (int (length vs) * 64 \<le> 2 ^ 48 \<and> list_all val_fits vs)"

lemma exp_readLine_cons:
  "p \<noteq> nl \<Longrightarrow> nl \<notin> set l \<Longrightarrow> length l + 3 \<le> line_limit \<Longrightarrow> exp_readLine (p # l @ crlf @ r) = Some (p # l, r)"
  using exp_readLine_text [of "p # l" r] by simp

lemma exp_count:
  assumes "int n + 2 \<le> 2 ^ 48"
  shows "length (format_uint n) + 3 \<le> line_limit" "parse_int64 (format_uint n) = Inr (int n)"
proof -
  have "n < 10 ^ Suc 14" using assms by simp
  then show "length (format_uint n) + 3 \<le> line_limit" using format_uint_length [of n 14] by (simp add: line_limit_def)
  show "parse_int64 (format_uint n) = Inr (int n)" using assms by (intro parse_int64_uint) (simp add: max_int64_def)
qed

lemma exp_reply_text:
  "val_fits v \<Longrightarrow> length (value_text v) \<le> f \<Longrightarrow> exp_reply f (value_text v @ rest) = Ok (val_of v, rest)"
proof (induction v arbitrary: f rest)
  case VNil
  then obtain g where "f = Suc g" by (cases f) auto
  moreover have "parse_int64 ''-1'' = Inr (- 1)" by (simp add: parse_int64_def parse_uint_def is_digit_def digit_val_def)
  ultimately show ?case using exp_readLine_cons [of "CHR ''$''" "''-1''" rest] by (simp add: line_limit_def)
next
  case (VBytes b)
  then obtain g where "f = Suc g" by (cases f) auto
  moreover have "wrap64 (int (length b) + 2) = int (length b) + 2"
    using VBytes.prems by (intro wrap64_id) (simp_all add: max_int64_def)
  moreover have "nat (int (length b) + 2) = length b + 2" by simp
  ultimately show ?case
    using exp_readLine_cons [OF _ digits_one_line, of "CHR ''$''" "length b" "b @ crlf @ rest"] exp_count [of "length b"] VBytes.prems
    by (simp add: Let_def)
next
  case (VError e)
  then obtain g where "f = Suc g" by (cases f) auto
  then show ?case using exp_readLine_cons [of "CHR ''-''" e rest] VError.prems by simp
next
  case (VArray vs)
  then obtain g where g: "f = Suc g" by (cases f) auto
  have elems: "exp_replies g (length us) (concat (map value_text us) @ rest) = Ok (map val_of us, rest)" if "set us \<subseteq> set vs" for us
    using that
  proof (induction us)
    case (Cons u us)
    have "length (value_text u) \<le> length (concat (map value_text vs))"
      using Cons.prems by (simp add: length_concat) (rule member_le_sum_list, auto)
    then have "length (value_text u) \<le> g" using VArray.prems g by simp
    then show ?case using Cons VArray.IH [of u g] VArray.prems by (auto simp: list_all_iff)
  qed simp
  have "int (length vs) + 2 \<le> 2 ^ 48" using VArray.prems by simp
  then show ?case
    using g elems [of vs] VArray.prems exp_count [of "length vs"]
      exp_readLine_cons [OF _ digits_one_line, of "CHR ''*''" "length vs" "concat (map value_text vs) @ rest"]
    by simp
qed

lemma Pipeline_text:
  "list_all val_fits vs \<Longrightarrow> Pipeline (length vs) (concat (map value_text vs) @ rest) = Ok (map val_of vs, rest)"
proof (induction vs)
  case (Cons v vs)
  then show ?case
    using exp_reply_text [of v "Suc (length (value_text v @ concat (map value_text vs) @ rest))" "concat (map value_text vs) @ rest"]
    by (simp add: readReplyE_def)
qed simp

lemma writeCmd_text: "writeCmd args = SerializeArray args"
proof -
  have "concat (map (\<lambda>a. ''$'' @ format_int (int (length a)) @ crlf @ a @ crlf) args) = serialize_bulks args"
    by (induction args) simp_all
  then show ?thesis by (simp add: writeCmd_def SerializeArray_def)
qed

text \<open>
  The two clients agree on both directions: they write a command as the same bytes, and a pipeline
  of replies is read by the experiment kit as the same values in the same order as by the product,
  up to the end of the replies.
\<close>
theorem clients_agree:
  assumes "list_all val_fits vs" "list_all value_fits vs"
  shows "writeCmd args = SerializeArray args \<and>
    do_replies (length vs) (concat (map value_text vs) @ rest) = Ok (vs, rest) \<and>
    Pipeline (length vs) (concat (map value_text vs) @ rest) = Ok (map val_of vs, rest)"
proof -
  have "do_replies (length vs) (concat (map value_text vs) @ rest) = Ok (vs, rest)"
    using assms(2)
  proof (induction vs)
    case (Cons v vs)
    then show ?case
      using read_value_text [of v "Suc (length (value_text v @ concat (map value_text vs) @ rest))" "concat (map value_text vs) @ rest"]
      by (simp add: readValue_def)
  qed simp
  then show ?thesis using Pipeline_text [OF assms(1)] writeCmd_text by simp
qed

theorem clients_agree_witness:
  "writeCmd [''PING''] = SerializeArray [''PING''] \<and>
   Pipeline 2 (''$1'' @ crlf @ ''a'' @ crlf @ ''$-1'' @ crlf @ ''x'') = Ok ([EBulk ''a'', ENilBulk], ''x'')"
proof -
  have "format_uint 1 = ''1''" by code_simp
  then show ?thesis using clients_agree [of "[VBytes ''a'', VNil]" "[''PING'']" "''x''"] by (simp add: numeral_2_eq_2)
qed

theorem decoders_agree_witness:
  "DecodeEntry (put_u16 1 @ put_u32 7 @ put_u32 0 @ put_u64 0 @ put_u32 3 @ put_u64 500 @ put_u32 4 @ ''*0'' @ crlf) =
     Ok \<lparr>en_Type = 1, en_ExecTime = 7, en_Filenum = 3, en_Offset = 500, en_Argv = []\<rparr>"
proof -
  let ?b = "put_u16 1 @ put_u32 7 @ put_u32 0 @ put_u64 0 @ put_u32 3 @ put_u64 500 @ put_u32 4 @ ''*0'' @ crlf"
  have "DecodeTypeFirst ?b = Inr \<lparr>ItemType = 1, ExecTime = 7, TermID = 0, LogicID = 0, ItemFilenum = 3, ItemOffset = 500, Content = ''*0'' @ crlf\<rparr>"
    by code_simp
  moreover have "ParseArray (''*0'' @ crlf) = Ok []" by code_simp
  ultimately show ?thesis using decoders_agree [of ?b _ "[]"] by (simp add: line_limit_def)
qed

text \<open>
  The independent decoder has no guard on a negative count or length: such a record stops the
  capture with a panic where the product returns an error.
\<close>
theorem negative_count_panics:
  "ParseRespArray (''*-1'' @ crlf) = Panic \<and> ParseRespArray (''*1'' @ crlf @ ''$-1'' @ crlf @ crlf) = Panic \<and>
   ParseArray (''*-1'' @ crlf) = Error NegativeArrayLength"
proof -
  have n: "parse_int64 ''-1'' = Inr (- 1)" "parse_int64 ''1'' = Inr 1"
    by (simp_all add: parse_int64_def parse_uint_def is_digit_def digit_val_def)
  have "readLineB (''*-1'' @ crlf) = Some (''*-1'', [])" "readLineB (''*1'' @ crlf @ ''$-1'' @ crlf @ crlf) = Some (''*1'', ''$-1'' @ crlf @ crlf)"
    "readLineB (''$-1'' @ crlf @ crlf) = Some (''$-1'', crlf)"
    by (simp_all add: readLineB_def line_limit_def)
  moreover have "ParseArray (''*-1'' @ crlf) = Error NegativeArrayLength" by code_simp
  ultimately show ?thesis using n by (simp add: ParseRespArray_def wrap64_def numeral_2_eq_2)
qed

end
