(* ===== verification/AuditJoin.thy ===== *)
theory AuditJoin
  imports Position GoStd
begin

text \<open>
  The audit tool of the experiment kit (\<^verbatim>\<open>tools/expkit/cmd/audit/main.go\<close>): it joins an independent
  capture of the binlog with the event stream of the product and decides whether the consistency
  contract holds. Modelled are the two passes over the files, the merge join with its cursor over
  the incremental events, all counters and the verdict; the samples it prints and its reading of
  the flags are left out (\<open>hOver\<close> is the position of the flag, where it is set). A line of a file is
  decoded JSON, a line that is no JSON, or a line beyond the scanner's limit.
\<close>

section \<open>Inputs\<close>

datatype 'a jline = JLong | JBad | JRec 'a

record audit_event =
  ae_phase :: bytes
  ae_key :: bytes
  ae_command :: bytes
  ae_pos :: position

record gt_line =
  gl_start :: position
  gl_end :: position
  gl_cmd :: bytes
  gl_key :: bytes
  gl_bad :: bytes

record gtRec =
  gt_start :: position
  gt_end :: position
  gt_cmd :: bytes
  gt_key :: bytes

text \<open>\<open>None\<close> is a fatal error. The scan of the events does not ask why it ended.\<close>

fun scan_events :: "audit_event jline list \<Rightarrow> audit_event list option" where
  "scan_events [] = Some []"
| "scan_events (JLong # ls) = Some []"
| "scan_events (JBad # ls) = None"
| "scan_events (JRec e # ls) = map_option ((#) e) (scan_events ls)"

definition gt_of_line :: "gt_line \<Rightarrow> gtRec" where
  "gt_of_line r =
     \<lparr>gt_start = gl_start r, gt_end = (if IsZero (gl_end r) then gl_start r else gl_end r), gt_cmd = to_upper (gl_cmd r), gt_key = gl_key r\<rparr>"

fun streamGT :: "gt_line jline list \<Rightarrow> gtRec list option" where
  "streamGT [] = Some []"
| "streamGT (JLong # ls) = None"
| "streamGT (JBad # ls) = None"
| "streamGT (JRec r # ls) = (if gl_bad r \<noteq> [] then streamGT ls else map_option ((#) (gt_of_line r)) (streamGT ls))"

section \<open>The first pass\<close>

record pass1 =
  p1_h :: "position option"
  p1_firstInc :: "position option"
  p1_corrKeys :: "bytes list"
  p1_snap :: nat
  p1_corr :: nat
  p1_total :: nat
  p1_drift :: nat
  p1_orderBad :: nat

definition pass1_start :: pass1 where
  "pass1_start = \<lparr>p1_h = None, p1_firstInc = None, p1_corrKeys = [], p1_snap = 0, p1_corr = 0, p1_total = 0, p1_drift = 0, p1_orderBad = 0\<rparr>"

definition pass1_step :: "position option \<Rightarrow> audit_event \<Rightarrow> pass1 \<Rightarrow> pass1" where
  "pass1_step hOver e s =
     (let s = s\<lparr>p1_total := p1_total s + 1\<rparr>
      in if ae_phase e = ''snapshot'' then s\<lparr>p1_snap := p1_snap s + 1\<rparr>
         else if ae_phase e = ''correction'' then
           let h = (case p1_h s of Some h \<Rightarrow> h | None \<Rightarrow> (case hOver of Some h \<Rightarrow> h | None \<Rightarrow> ae_pos e))
           in s\<lparr>p1_corr := p1_corr s + 1, p1_h := Some h,
                p1_drift := p1_drift s + (if ae_pos e \<noteq> h then 1 else 0),
                p1_corrKeys := (if to_upper (ae_command e) = ''DEL'' then List.insert (ae_key e) (p1_corrKeys s) else p1_corrKeys s),
                p1_orderBad := p1_orderBad s + (if p1_firstInc s \<noteq> None then 1 else 0)\<rparr>
         else if ae_phase e = ''incremental'' then
           s\<lparr>p1_firstInc := (case p1_firstInc s of None \<Rightarrow> Some (ae_pos e) | p \<Rightarrow> p)\<rparr>
         else s)"

text \<open>The position \<open>H\<close>: that of the corrections, else that of the first incremental event.\<close>

definition audit_h :: "pass1 \<Rightarrow> position option" where
  "audit_h s = (case p1_h s of Some h \<Rightarrow> Some h | None \<Rightarrow> p1_firstInc s)"

section \<open>The merge join\<close>

record incIter =
  ii_rest :: "audit_event list"
  ii_cur :: "audit_event option"
  ii_total :: nat
  ii_orderBad :: nat

fun inc_scan :: "audit_event list \<Rightarrow> (audit_event \<times> audit_event list) option" where
  "inc_scan [] = None"
| "inc_scan (e # es) = (if ae_phase e = ''incremental'' then Some (e, es) else inc_scan es)"

definition inc_next :: "incIter \<Rightarrow> incIter" where
  "inc_next it =
     (case inc_scan (ii_rest it) of
        None \<Rightarrow> it\<lparr>ii_rest := [], ii_cur := None\<rparr>
      | Some (e, es) \<Rightarrow>
          it\<lparr>ii_rest := es, ii_cur := Some e, ii_total := ii_total it + 1,
             ii_orderBad := ii_orderBad it + (case ii_cur it of Some c \<Rightarrow> if \<not> After (ae_pos e) (ae_pos c) then 1 else 0 | None \<Rightarrow> 0)\<rparr>)"

lemma inc_scan_length: "inc_scan es = Some (e, es') \<Longrightarrow> length es' < length es"
  by (induction es) (auto split: if_splits)

record join_state =
  j_it :: incIter
  j_missing :: nat
  j_ghost :: nat
  j_mismatched :: nat
  j_folded :: nat
  j_extra :: nat
  j_gtN :: nat
  j_dup :: nat
  j_gaps :: nat
  j_tail :: nat
  j_havePrev :: bool
  j_prevStart :: position
  j_lastEnd :: position

text \<open>Events before an entry of the capture have no entry of their own.\<close>

function drain_before :: "position \<Rightarrow> join_state \<Rightarrow> join_state" where
  "drain_before p s =
     (case ii_cur (j_it s) of
        None \<Rightarrow> s
      | Some c \<Rightarrow> if \<not> After (ae_pos c) p \<and> ae_pos c \<noteq> p then drain_before p (s\<lparr>j_extra := j_extra s + 1, j_it := inc_next (j_it s)\<rparr>) else s)"
  by pat_completeness auto
termination
  by (relation "measure (\<lambda>(p, s). length (ii_rest (j_it s)) + (if ii_cur (j_it s) = None then 0 else 1))")
    (auto simp: inc_next_def split: option.splits dest!: inc_scan_length)

declare drain_before.simps [simp del]

text \<open>The flag that guards the check of the capture starts unset, and no statement sets it.\<close>

definition note_gap :: "gtRec \<Rightarrow> join_state \<Rightarrow> join_state" where
  "note_gap g s =
     (let s1 = (if \<not> j_havePrev s then s
                else if gt_start g = j_prevStart s then s\<lparr>j_dup := j_dup s + 1\<rparr>
                else if Filenum (gt_start g) = Filenum (j_prevStart s) \<and> gt_start g \<noteq> j_lastEnd s \<and> After (gt_start g) (j_prevStart s)
                then s\<lparr>j_gaps := j_gaps s + 1\<rparr>
                else s)
      in s1\<lparr>j_gtN := j_gtN s + 1, j_prevStart := gt_start g, j_lastEnd := gt_end g\<rparr>)"

definition advance :: "join_state \<Rightarrow> join_state" where
  "advance s = s\<lparr>j_it := inc_next (j_it s)\<rparr>"

definition cur_at :: "position \<Rightarrow> join_state \<Rightarrow> bool" where
  "cur_at p s \<longleftrightarrow> (case ii_cur (j_it s) of None \<Rightarrow> False | Some c \<Rightarrow> ae_pos c = p)"

definition folded :: "position \<Rightarrow> gtRec \<Rightarrow> bool" where
  "folded h g \<longleftrightarrow> \<not> After (gt_end g) h"

definition join_folded :: "bytes list \<Rightarrow> gtRec \<Rightarrow> join_state \<Rightarrow> join_state" where
  "join_folded corrKeys g s =
     (let s1 = (if cur_at (gt_start g) s then advance (s\<lparr>j_ghost := j_ghost s + 1\<rparr>) else s)
      in if gt_key g \<notin> set corrKeys then s1\<lparr>j_folded := j_folded s1 + 1\<rparr> else s1)"

definition join_beyond :: "gtRec \<Rightarrow> join_state \<Rightarrow> join_state" where
  "join_beyond g s =
     (case ii_cur (j_it s) of
        None \<Rightarrow> s\<lparr>j_tail := j_tail s + 1\<rparr>
      | Some c \<Rightarrow>
          if ae_pos c \<noteq> gt_start g then s\<lparr>j_missing := j_missing s + 1\<rparr>
          else advance (if to_upper (ae_command c) \<noteq> gt_cmd g \<or> ae_key c \<noteq> gt_key g then s\<lparr>j_mismatched := j_mismatched s + 1\<rparr> else s))"

definition join_step :: "position \<Rightarrow> bytes list \<Rightarrow> gtRec \<Rightarrow> join_state \<Rightarrow> join_state" where
  "join_step h corrKeys g s =
     (let s1 = note_gap g s
      in case ii_cur (j_it s1) of
           None \<Rightarrow> s1\<lparr>j_tail := j_tail s1 + 1\<rparr>
         | Some c \<Rightarrow>
             let s2 = drain_before (gt_start g) s1
             in if folded h g then join_folded corrKeys g s2 else join_beyond g s2)"

function drain_all :: "join_state \<Rightarrow> join_state" where
  "drain_all s = (case ii_cur (j_it s) of None \<Rightarrow> s | Some c \<Rightarrow> drain_all (s\<lparr>j_extra := j_extra s + 1, j_it := inc_next (j_it s)\<rparr>))"
  by pat_completeness auto
termination
  by (relation "measure (\<lambda>s. length (ii_rest (j_it s)) + (if ii_cur (j_it s) = None then 0 else 1))")
    (auto simp: inc_next_def split: option.splits dest!: inc_scan_length)

declare drain_all.simps [simp del]

definition join_start :: "audit_event list \<Rightarrow> join_state" where
  "join_start es =
     \<lparr>j_it = inc_next \<lparr>ii_rest = es, ii_cur = None, ii_total = 0, ii_orderBad = 0\<rparr>, j_missing = 0, j_ghost = 0, j_mismatched = 0, j_folded = 0,
      j_extra = 0, j_gtN = 0, j_dup = 0, j_gaps = 0, j_tail = 0, j_havePrev = False,
      j_prevStart = \<lparr>Filenum = 0, Offset = 0\<rparr>, j_lastEnd = \<lparr>Filenum = 0, Offset = 0\<rparr>\<rparr>"

definition join_run :: "position \<Rightarrow> bytes list \<Rightarrow> gtRec list \<Rightarrow> join_state \<Rightarrow> join_state" where
  "join_run h corrKeys gts s = drain_all (fold (join_step h corrKeys) gts s)"

section \<open>The verdict\<close>

definition join_bad :: "join_state \<Rightarrow> nat" where
  "join_bad s = j_missing s + j_ghost s + j_folded s + j_mismatched s + j_extra s + ii_orderBad (j_it s)"

text \<open>\<open>None\<close> where the tool dies, else whether it passes.\<close>

definition audit :: "position option \<Rightarrow> gt_line jline list \<Rightarrow> audit_event jline list \<Rightarrow> bool option" where
  "audit hOver gtLines evLines =
     (case scan_events evLines of
        None \<Rightarrow> None
      | Some es \<Rightarrow>
          let p = fold (pass1_step hOver) es pass1_start
          in case audit_h p of
               None \<Rightarrow> None
             | Some h \<Rightarrow>
                 (case streamGT gtLines of
                    None \<Rightarrow> None
                  | Some gts \<Rightarrow>
                      let s = join_run h (p1_corrKeys p) gts (join_start es)
                      in Some (\<not> (join_bad s > 0 \<or> j_gaps s > 0 \<or> p1_drift p > 0 \<or> p1_orderBad p > 0))))"

section \<open>What a passed audit shows\<close>

definition incs :: "audit_event list \<Rightarrow> audit_event list" where
  "incs es = filter (\<lambda>e. ae_phase e = ''incremental'') es"

text \<open>The incremental events the join has not passed yet, the current one first.\<close>

definition todo :: "join_state \<Rightarrow> audit_event list" where
  "todo s = (case ii_cur (j_it s) of None \<Rightarrow> [] | Some c \<Rightarrow> c # incs (ii_rest (j_it s)))"

lemma todo_cong: "j_it t = j_it s \<Longrightarrow> todo t = todo s"
  by (simp add: todo_def split: option.split)

lemma tail_frame [simp]: "join_bad (s\<lparr>j_tail := n\<rparr>) = join_bad s" "todo (s\<lparr>j_tail := n\<rparr>) = todo s"
  by (simp add: join_bad_def) (rule todo_cong, simp)

lemma inc_scan_incs: "inc_scan es = None \<longleftrightarrow> incs es = []" "inc_scan es = Some (e, es') \<Longrightarrow> incs es = e # incs es'"
  by (induction es) (auto simp: incs_def split: if_splits)

lemma todo_next:
  assumes "todo s = c # cs"
  shows "todo (s\<lparr>j_it := inc_next (j_it s)\<rparr>) = cs"
    "ii_orderBad (inc_next (j_it s)) =
       ii_orderBad (j_it s) + (case cs of [] \<Rightarrow> 0 | d # _ \<Rightarrow> if After (ae_pos d) (ae_pos c) then 0 else 1)"
proof -
  have c: "ii_cur (j_it s) = Some c" "cs = incs (ii_rest (j_it s))" using assms by (auto simp: todo_def split: option.splits)
  show "todo (s\<lparr>j_it := inc_next (j_it s)\<rparr>) = cs"
    using c inc_scan_incs [of "ii_rest (j_it s)"] by (auto simp: todo_def inc_next_def split: option.splits)
  show "ii_orderBad (inc_next (j_it s)) =
       ii_orderBad (j_it s) + (case cs of [] \<Rightarrow> 0 | d # _ \<Rightarrow> if After (ae_pos d) (ae_pos c) then 0 else 1)"
    using c inc_scan_incs [of "ii_rest (j_it s)"] by (auto simp: inc_next_def split: option.splits)
qed

lemma todo_cur: "todo s = [] \<longleftrightarrow> ii_cur (j_it s) = None" "todo s = c # cs \<Longrightarrow> ii_cur (j_it s) = Some c"
  by (auto simp: todo_def split: option.splits)

lemma next_bad: "ii_orderBad it \<le> ii_orderBad (inc_next it)"
  by (auto simp: inc_next_def split: option.splits)

lemma extra_bad: "join_bad s < join_bad (s\<lparr>j_extra := j_extra s + 1, j_it := inc_next (j_it s)\<rparr>)"
  using next_bad [of "j_it s"] by (simp add: join_bad_def)

lemma drain_before_bad: "drain_before p s = s \<or> join_bad s < join_bad (drain_before p s)"
proof (induction p s rule: drain_before.induct)
  case (1 p s)
  show ?case
  proof (cases "ii_cur (j_it s)")
    case None
    then show ?thesis by (simp add: drain_before.simps)
  next
    case (Some c)
    show ?thesis
    proof (cases "\<not> After (ae_pos c) p \<and> ae_pos c \<noteq> p")
      case True
      let ?t = "s\<lparr>j_extra := j_extra s + 1, j_it := inc_next (j_it s)\<rparr>"
      have "drain_before p s = drain_before p ?t" using Some True by (subst drain_before.simps) simp
      then show ?thesis using "1.IH" [OF Some True] extra_bad [of s] by auto
    next
      case False
      then have "drain_before p s = s" using Some by (subst drain_before.simps) auto
      then show ?thesis ..
    qed
  qed
qed

lemma drain_all_bad: "todo s = [] \<or> join_bad s < join_bad (drain_all s)"
proof (induction s rule: drain_all.induct)
  case (1 s)
  show ?case
  proof (cases "ii_cur (j_it s)")
    case (Some c)
    let ?t = "s\<lparr>j_extra := j_extra s + 1, j_it := inc_next (j_it s)\<rparr>"
    have "join_bad ?t \<le> join_bad (drain_all ?t)"
      using "1.IH" [OF Some] drain_all.simps [of ?t] by (auto simp: todo_cur)
    then show ?thesis using Some extra_bad [of s] by (subst drain_all.simps) (simp add: Some)
  qed (simp add: todo_cur)
qed

lemma note_gap_frame [simp]: "j_it (note_gap g s) = j_it s" "join_bad (note_gap g s) = join_bad s"
  by (auto simp: note_gap_def join_bad_def Let_def)

lemma note_gap_todo [simp]: "todo (note_gap g s) = todo s"
  by (rule todo_cong) simp

text \<open>
  A step of the join that counts nothing: at the end of the events it does nothing, in the folded
  window it keeps them, beyond it takes exactly the event of its entry.
\<close>

definition clean_step :: "position \<Rightarrow> bytes list \<Rightarrow> gtRec \<Rightarrow> join_state \<Rightarrow> join_state \<Rightarrow> bool" where
  "clean_step h corrKeys g s t \<longleftrightarrow>
     (case todo s of
        [] \<Rightarrow> todo t = []
      | c # cs \<Rightarrow>
          if folded h g then todo t = todo s \<and> gt_key g \<in> set corrKeys
          else todo t = cs \<and> (ae_pos c, to_upper (ae_command c), ae_key c) = (gt_start g, gt_cmd g, gt_key g) \<and>
            (case cs of [] \<Rightarrow> True | d # _ \<Rightarrow> After (ae_pos d) (ae_pos c)))"

lemma advance_bad:
  assumes "todo s = c # cs"
  shows "todo (advance s) = cs" "join_bad s \<le> join_bad (advance s)"
    "join_bad (advance s) = join_bad s \<Longrightarrow> (case cs of [] \<Rightarrow> True | d # _ \<Rightarrow> After (ae_pos d) (ae_pos c))"
  using todo_next [OF assms] next_bad [of "j_it s"]
  by (auto simp: advance_def join_bad_def split: list.splits if_splits)

lemma folded_bad:
  "join_bad s \<le> join_bad (join_folded corrKeys g s)"
  "join_bad (join_folded corrKeys g s) = join_bad s \<Longrightarrow> todo (join_folded corrKeys g s) = todo s \<and> gt_key g \<in> set corrKeys"
proof -
  have up: "join_bad (s\<lparr>j_ghost := j_ghost s + 1\<rparr>) = join_bad s + 1" "join_bad (t\<lparr>j_folded := j_folded t + 1\<rparr>) = join_bad t + 1" for t
    by (simp_all add: join_bad_def)
  have adv: "join_bad t \<le> join_bad (advance t)" for t using next_bad [of "j_it t"] by (simp add: advance_def join_bad_def)
  show "join_bad s \<le> join_bad (join_folded corrKeys g s)"
    using up(2) adv [of "s\<lparr>j_ghost := j_ghost s + 1\<rparr>"] up(1) by (auto simp: join_folded_def Let_def)
  show "join_bad (join_folded corrKeys g s) = join_bad s \<Longrightarrow> todo (join_folded corrKeys g s) = todo s \<and> gt_key g \<in> set corrKeys"
    using up(2) adv [of "s\<lparr>j_ghost := j_ghost s + 1\<rparr>"] up(1) by (auto simp: join_folded_def Let_def split: if_splits)
qed

lemma beyond_bad:
  assumes "todo s = c # cs"
  shows "join_bad s \<le> join_bad (join_beyond g s)"
    "join_bad (join_beyond g s) = join_bad s \<Longrightarrow> todo (join_beyond g s) = cs \<and>
       (ae_pos c, to_upper (ae_command c), ae_key c) = (gt_start g, gt_cmd g, gt_key g) \<and> (case cs of [] \<Rightarrow> True | d # _ \<Rightarrow> After (ae_pos d) (ae_pos c))"
proof -
  let ?m = "s\<lparr>j_mismatched := j_mismatched s + 1\<rparr>"
  have m: "todo ?m = c # cs" "join_bad ?m = join_bad s + 1" "join_bad (s\<lparr>j_missing := j_missing s + 1\<rparr>) = join_bad s + 1"
    using assms todo_cong [of ?m s] by (simp_all add: join_bad_def)
  note cur = todo_cur(2) [OF assms] and a = advance_bad [OF assms] advance_bad [OF m(1)]
  show "join_bad s \<le> join_bad (join_beyond g s)" using cur a m by (auto simp: join_beyond_def)
  show "join_bad (join_beyond g s) = join_bad s \<Longrightarrow> todo (join_beyond g s) = cs \<and>
       (ae_pos c, to_upper (ae_command c), ae_key c) = (gt_start g, gt_cmd g, gt_key g) \<and> (case cs of [] \<Rightarrow> True | d # _ \<Rightarrow> After (ae_pos d) (ae_pos c))"
    using cur a m by (auto simp: join_beyond_def split: if_splits)
qed

lemma join_step_bad:
  "join_bad s \<le> join_bad (join_step h corrKeys g s) \<and>
   (join_bad (join_step h corrKeys g s) = join_bad s \<longrightarrow> clean_step h corrKeys g s (join_step h corrKeys g s))"
proof (cases "todo s")
  case Nil
  then have "ii_cur (j_it s) = None" by (simp add: todo_cur)
  then show ?thesis using Nil by (simp add: join_step_def Let_def clean_step_def)
next
  case (Cons c cs)
  let ?s1 = "note_gap g s"
  let ?s2 = "drain_before (gt_start g) ?s1"
  have step: "join_step h corrKeys g s = (if folded h g then join_folded corrKeys g ?s2 else join_beyond g ?s2)"
    using todo_cur(2) [OF Cons] by (simp add: join_step_def Let_def)
  from drain_before_bad [of "gt_start g" ?s1] consider "?s2 = ?s1" | "join_bad s < join_bad ?s2" by fastforce
  then show ?thesis
  proof cases
    case 1
    have t: "todo ?s1 = c # cs" using Cons by simp
    show ?thesis
      using step 1 folded_bad [where s = ?s1 and corrKeys = corrKeys and g = g] beyond_bad [OF t, of g] Cons by (auto simp: clean_step_def)
  next
    case 2
    have "join_bad ?s2 \<le> join_bad (join_beyond g ?s2)"
      using beyond_bad(1) [of ?s2] by (cases "todo ?s2") (auto simp: join_beyond_def todo_cur join_bad_def)
    then show ?thesis using step 2 folded_bad(1) [where s = ?s2 and corrKeys = corrKeys and g = g] by auto
  qed
qed

lemma fold_bad: "join_bad s \<le> join_bad (fold (join_step h corrKeys) gts s)"
proof (induction gts arbitrary: s)
  case (Cons g gts)
  show ?case using Cons.IH [of "join_step h corrKeys g s"] join_step_bad [of s h corrKeys g] by simp
qed simp

lemma run_bad: "join_bad s \<le> join_bad (join_run h corrKeys gts s)"
  using fold_bad [of s h corrKeys gts] drain_all_bad [of "fold (join_step h corrKeys) gts s"]
  by (auto simp: join_run_def todo_cur drain_all.simps [of "fold (join_step h corrKeys) gts s"])

lemma join_sound:
  "join_bad (join_run h corrKeys gts s) = 0 \<Longrightarrow> \<exists>gts1 gts2. gts = gts1 @ gts2 \<and>
     map (\<lambda>e. (ae_pos e, to_upper (ae_command e), ae_key e)) (todo s) =
       map (\<lambda>g. (gt_start g, gt_cmd g, gt_key g)) (filter (\<lambda>g. \<not> folded h g) gts1) \<and>
     (\<forall>g \<in> set gts1. folded h g \<longrightarrow> gt_key g \<in> set corrKeys) \<and>
     successively (\<lambda>x y. After (ae_pos y) (ae_pos x)) (todo s)"
proof (induction gts arbitrary: s)
  case Nil
  then have "todo s = []" using drain_all_bad [of s] by (auto simp: join_run_def)
  then show ?case by simp
next
  case (Cons g gts)
  let ?t = "join_step h corrKeys g s"
  have run: "join_run h corrKeys (g # gts) s = join_run h corrKeys gts ?t" by (simp add: join_run_def)
  then have "join_bad ?t = 0" using Cons.prems run_bad [of ?t h corrKeys gts] by simp
  then have clean: "clean_step h corrKeys g s ?t" using join_step_bad [of s h corrKeys g] by simp
  obtain gts1 gts2 where ih: "gts = gts1 @ gts2"
    "map (\<lambda>e. (ae_pos e, to_upper (ae_command e), ae_key e)) (todo ?t) =
       map (\<lambda>g. (gt_start g, gt_cmd g, gt_key g)) (filter (\<lambda>g. \<not> folded h g) gts1)"
    "\<forall>g \<in> set gts1. folded h g \<longrightarrow> gt_key g \<in> set corrKeys" "successively (\<lambda>x y. After (ae_pos y) (ae_pos x)) (todo ?t)"
    using Cons.IH [of ?t] Cons.prems run by auto
  show ?case
  proof (cases "todo s")
    case Nil
    then show ?thesis by (intro exI [of _ "[]"] exI [of _ "g # gts"]) simp
  next
    case (Cons c cs)
    then have "map (\<lambda>e. (ae_pos e, to_upper (ae_command e), ae_key e)) (todo s) =
       map (\<lambda>g. (gt_start g, gt_cmd g, gt_key g)) (filter (\<lambda>g. \<not> folded h g) (g # gts1)) \<and>
       (folded h g \<longrightarrow> gt_key g \<in> set corrKeys) \<and> successively (\<lambda>x y. After (ae_pos y) (ae_pos x)) (todo s)"
      using clean ih(2,4) by (cases cs) (auto simp: clean_step_def split: if_splits)
    then show ?thesis using ih by (intro exI [of _ "g # gts1"] exI [of _ gts2]) auto
  qed
qed

lemma todo_start: "todo (join_start es) = incs es"
  using inc_scan_incs [of es] by (auto simp: todo_def join_start_def inc_next_def split: option.splits)

definition corrected :: "bytes \<Rightarrow> audit_event list \<Rightarrow> bool" where
  "corrected k es \<longleftrightarrow> (\<exists>e \<in> set es. ae_phase e = ''correction'' \<and> to_upper (ae_command e) = ''DEL'' \<and> ae_key e = k)"

lemma pass1_corrKeys: "k \<in> set (p1_corrKeys (fold (pass1_step hOver) es s)) \<longleftrightarrow> k \<in> set (p1_corrKeys s) \<or> corrected k es"
  by (induction es arbitrary: s) (auto simp: corrected_def pass1_step_def Let_def)

text \<open>
  C32. A passed audit shows what its contract says: with \<open>H\<close> the position it determined, the incremental
  events of the product, in their order, are strictly increasing and are exactly the captured entries
  beyond \<open>H\<close> of some first part of the capture, one event per entry with its position, command and
  key; none of them lies in the folded window, and every key written in that window has a
  correction.
\<close>
theorem audit_pass_sound:
  assumes "audit hOver gtLines evLines = Some True"
  shows "\<exists>es gts h gts1 gts2. scan_events evLines = Some es \<and> streamGT gtLines = Some gts \<and>
    audit_h (fold (pass1_step hOver) es pass1_start) = Some h \<and> gts = gts1 @ gts2 \<and>
    map (\<lambda>e. (ae_pos e, to_upper (ae_command e), ae_key e)) (incs es) =
      map (\<lambda>g. (gt_start g, gt_cmd g, gt_key g)) (filter (\<lambda>g. \<not> folded h g) gts1) \<and>
    sorted_wrt (\<lambda>x y. After (ae_pos y) (ae_pos x)) (incs es) \<and>
    (\<forall>g \<in> set gts1. folded h g \<longrightarrow> corrected (gt_key g) es)"
proof -
  obtain es gts h where r: "scan_events evLines = Some es" "streamGT gtLines = Some gts"
    "audit_h (fold (pass1_step hOver) es pass1_start) = Some h"
    "join_bad (join_run h (p1_corrKeys (fold (pass1_step hOver) es pass1_start)) gts (join_start es)) = 0"
    using assms by (auto simp: audit_def Let_def split: option.splits)
  have "transp (\<lambda>x y. After (ae_pos y) (ae_pos x))" by (rule transpI) (rule pos_after.after_trans)
  then have succ: "successively (\<lambda>x y. After (ae_pos y) (ae_pos x)) xs \<longleftrightarrow> sorted_wrt (\<lambda>x y. After (ae_pos y) (ae_pos x)) xs" for xs
    using successively_conv_sorted_wrt by blast
  have keys: "k \<in> set (p1_corrKeys (fold (pass1_step hOver) es pass1_start)) \<longleftrightarrow> corrected k es" for k
    by (simp add: pass1_corrKeys pass1_start_def)
  from join_sound [OF r(4)] obtain gts1 gts2 where g: "gts = gts1 @ gts2"
    "map (\<lambda>e. (ae_pos e, to_upper (ae_command e), ae_key e)) (incs es) =
      map (\<lambda>g. (gt_start g, gt_cmd g, gt_key g)) (filter (\<lambda>g. \<not> folded h g) gts1)"
    "\<forall>g \<in> set gts1. folded h g \<longrightarrow> corrected (gt_key g) es" "sorted_wrt (\<lambda>x y. After (ae_pos y) (ae_pos x)) (incs es)"
    unfolding todo_start succ keys by (elim exE conjE)
  show ?thesis
    by (rule exI [of _ es], rule exI [of _ gts], rule exI [of _ h], rule exI [of _ gts1], rule exI [of _ gts2]) (intro conjI r(1-3) g)
qed

section \<open>Runs\<close>

definition pos1 :: "64 word \<Rightarrow> position" where
  "pos1 off = \<lparr>Filenum = 1, Offset = off\<rparr>"

definition inc_event :: "64 word \<Rightarrow> audit_event" where
  "inc_event off = \<lparr>ae_phase = ''incremental'', ae_key = ''k'', ae_command = ''set'', ae_pos = pos1 off\<rparr>"

definition captured :: "64 word \<Rightarrow> 64 word \<Rightarrow> gt_line" where
  "captured a b = \<lparr>gl_start = pos1 a, gl_end = pos1 b, gl_cmd = ''SET'', gl_key = ''k'', gl_bad = []\<rparr>"

lemma demo_audit: "audit None [JRec (captured 10 20), JRec (captured 20 30)] [JRec (inc_event 10), JRec (inc_event 20)] = Some True"
  by code_simp

theorem audit_pass_sound_witness:
  "\<exists>es gts h gts1 gts2. scan_events [JRec (inc_event 10), JRec (inc_event 20)] = Some es \<and>
    streamGT [JRec (captured 10 20), JRec (captured 20 30)] = Some gts \<and>
    audit_h (fold (pass1_step None) es pass1_start) = Some h \<and> gts = gts1 @ gts2 \<and>
    map (\<lambda>e. (ae_pos e, to_upper (ae_command e), ae_key e)) (incs es) =
      map (\<lambda>g. (gt_start g, gt_cmd g, gt_key g)) (filter (\<lambda>g. \<not> folded h g) gts1)"
  using audit_pass_sound [OF demo_audit] by blast

text \<open>
  The capture is never checked: no run counts a gap or a repeated entry, whatever the capture holds.
\<close>

definition blind :: "join_state \<Rightarrow> bool" where
  "blind s \<longleftrightarrow> \<not> j_havePrev s \<and> j_gaps s = 0 \<and> j_dup s = 0"

lemma blind_start: "blind (join_start es)"
  by (simp add: blind_def join_start_def)

lemma blind_drain_before: "blind s \<Longrightarrow> blind (drain_before p s)"
proof (induction p s rule: drain_before.induct)
  case (1 p s)
  then show ?case by (subst drain_before.simps) (auto simp: blind_def split: option.split)
qed

lemma blind_drain_all: "blind s \<Longrightarrow> blind (drain_all s)"
proof (induction s rule: drain_all.induct)
  case (1 s)
  then show ?case by (subst drain_all.simps) (auto simp: blind_def split: option.split)
qed

lemma blind_step: "blind s \<Longrightarrow> blind (join_step h corrKeys g s)"
proof -
  assume s: "blind s"
  let ?s2 = "drain_before (gt_start g) (note_gap g s)"
  have "blind (note_gap g s)" using s by (simp add: blind_def note_gap_def)
  moreover from this have "blind ?s2" by (rule blind_drain_before)
  moreover from this have "blind (join_folded corrKeys g ?s2)" "blind (join_beyond g ?s2)"
    by (auto simp: blind_def join_folded_def join_beyond_def advance_def Let_def split: option.split)
  ultimately show ?thesis by (auto simp: join_step_def Let_def blind_def split: option.split)
qed

lemma blind_fold: "blind s \<Longrightarrow> blind (fold (join_step h corrKeys) gts s)"
  by (induction gts arbitrary: s) (auto simp: blind_step)

text \<open>
  The audit promises to check that the capture has no gap (A5), but its counters of gaps and of
  repeated entries stay zero on every input, because the flag that guards them is never set.
\<close>
theorem audit_ignores_gaps:
  "j_gaps (join_run h corrKeys gts (join_start es)) = 0 \<and> j_dup (join_run h corrKeys gts (join_start es)) = 0"
  using blind_drain_all [OF blind_fold [OF blind_start [of es], of h corrKeys gts]] by (simp add: join_run_def blind_def)

text \<open>
  The audit does not notice a lost tail: the product delivered one of three captured entries, and
  the audit passes, as it passes when a line beyond the scanner's limit hides the rest of the events.
\<close>
theorem audit_passes_lost_tail:
  "audit None [JRec (captured 10 20), JRec (captured 20 30), JRec (captured 30 40)] [JRec (inc_event 10)] = Some True \<and>
   audit None [JRec (captured 10 20)] [JRec (inc_event 10), JLong, JRec (inc_event 5)] = Some True"
  by code_simp

end
