(* ===== verification/BinlogCat.thy ===== *)
theory BinlogCat
  imports ExpCodec AuditJoin
begin

text \<open>
  The capture tool of the experiment kit (\<^verbatim>\<open>tools/expkit/cmd/binlogcat/main.go\<close>): an independent
  replica that records every binlog entry it is sent, in the file the audit takes as the truth.
  Modelled are the handshake, the receive loop with its ticks and acknowledgements, the decoding of
  every entry and the resumption of a lost session; the messages arrive decoded, and the network is
  the list of what each call reports. The buffering of the output file is left out.
\<close>

section \<open>State and messages\<close>

datatype bad_mark = Fine | Undecoded | OutOfOrder

record cat_record =
  rc_start :: position
  rc_end :: position
  rc_Cmd :: bytes
  rc_Key :: bytes
  rc_Argc :: nat
  rc_Ex :: "32 word"
  rc_Bad :: bad_mark
  rc_Raw :: bytes

record cat_ack =
  ca_from :: position
  ca_to :: position
  ca_first :: bool

record cat =
  lastSeen :: position
  firstUnackedC :: position
  cat_out :: "cat_record list"
  cat_n :: nat
  cat_bad :: nat
  cat_acks :: "cat_ack list"

definition cat_start :: "position \<Rightarrow> cat" where
  "cat_start st = \<lparr>lastSeen = st, firstUnackedC = zero_pos, cat_out = [], cat_n = 0, cat_bad = 0, cat_acks = []\<rparr>"

record sync_result =
  sr_session :: int
  sr_offset :: "position option"
  sr_binlog :: bytes

datatype cat_recv = RTimeout | RFailed | ROther | RTrySync int | RBinlog "sync_result list"

section \<open>Entries\<close>

definition no_record :: "position \<Rightarrow> cat_record" where
  "no_record e = \<lparr>rc_start = zero_pos, rc_end = e, rc_Cmd = [], rc_Key = [], rc_Argc = 0, rc_Ex = 0, rc_Bad = Fine, rc_Raw = []\<rparr>"

text \<open>The record of an entry and the position it counts as; an empty command has no first argument.\<close>

definition capture_entry :: "position \<Rightarrow> sync_result \<Rightarrow> (unit, cat_record \<times> position) outcome" where
  "capture_entry seen res =
     (let cur = (case sr_offset res of None \<Rightarrow> zero_pos | Some p \<Rightarrow> p);
          rec = no_record cur
      in case DecodeEntry (sr_binlog res) of
           Panic \<Rightarrow> Panic
         | Error e \<Rightarrow> Ok (rec\<lparr>rc_Bad := Undecoded, rc_Raw := take 64 (sr_binlog res)\<rparr>, cur)
         | Ok item \<Rightarrow>
             if en_Argv item = [] then Panic
             else let p = \<lparr>Filenum = en_Filenum item, Offset = en_Offset item\<rparr>;
                      c = (if IsZero cur then p else cur)
                  in Ok (rec\<lparr>rc_start := p, rc_Ex := en_ExecTime item, rc_Cmd := en_Argv item ! 0, rc_Argc := length (en_Argv item),
                            rc_Key := (if length (en_Argv item) > 1 then en_Argv item ! 1 else []),
                            rc_Bad := (if \<not> After c seen then OutOfOrder else Fine)\<rparr>, c))"

definition take_record :: "cat_record \<Rightarrow> position \<Rightarrow> cat \<Rightarrow> cat" where
  "take_record rec cur c =
     c\<lparr>lastSeen := (if After cur (lastSeen c) then cur else lastSeen c),
       firstUnackedC := (if IsZero (firstUnackedC c) then cur else firstUnackedC c),
       cat_out := cat_out c @ [rec], cat_n := cat_n c + 1,
       cat_bad := cat_bad c + (if rc_Bad rec \<noteq> Fine then 1 else 0)\<rparr>"

fun cat_results :: "int \<Rightarrow> sync_result list \<Rightarrow> bool \<Rightarrow> cat \<Rightarrow> (unit, bool \<times> cat) outcome" where
  "cat_results sid [] had c = Ok (had, c)"
| "cat_results sid (res # ress) had c =
     (if sr_session res \<noteq> sid \<or> sr_binlog res = [] then cat_results sid ress had c
      else case capture_entry (lastSeen c) res of
             Ok (rec, cur) \<Rightarrow> cat_results sid ress True (take_record rec cur c)
           | Error e \<Rightarrow> Error e
           | Panic \<Rightarrow> Panic)"

section \<open>The receive loop\<close>

definition send_ack :: "bool \<Rightarrow> cat \<Rightarrow> cat" where
  "send_ack first c = c\<lparr>cat_acks := cat_acks c @ [\<lparr>ca_from = firstUnackedC c, ca_to = lastSeen c, ca_first = first\<rparr>]\<rparr>"

text \<open>
  One turn: whether the ticker fired and which of its two sends succeeded, what the receive
  reported, and whether the acknowledgement of a batch was sent. The result says whether the loop
  goes on. A failed send of the tick does not skip the receive.
\<close>

record cat_turn =
  ct_tick :: bool
  ct_trySync :: bool
  ct_tickAck :: bool
  ct_recv :: cat_recv
  ct_batchAck :: bool

definition cat_tick :: "cat_turn \<Rightarrow> cat \<Rightarrow> bool \<times> cat" where
  "cat_tick t c =
     (if \<not> ct_tick t then (True, c)
      else if \<not> ct_trySync t then (False, c)
      else if \<not> IsZero (firstUnackedC c) then
        (if ct_tickAck t then (True, (send_ack False c)\<lparr>firstUnackedC := zero_pos\<rparr>) else (False, c))
      else (True, if ct_tickAck t then c\<lparr>cat_acks := cat_acks c @ [\<lparr>ca_from = zero_pos, ca_to = zero_pos, ca_first = False\<rparr>]\<rparr> else c))"

definition cat_turn_step :: "int \<Rightarrow> cat_turn \<Rightarrow> cat \<Rightarrow> (unit, bool \<times> cat) outcome" where
  "cat_turn_step sid t c =
     (case cat_tick t c of
        (ok, c1) \<Rightarrow>
          (case ct_recv t of
             RTimeout \<Rightarrow> Ok (ok, c1)
           | RFailed \<Rightarrow> Ok (False, c1)
           | ROther \<Rightarrow> Ok (ok, c1)
           | RTrySync s \<Rightarrow> Ok (ok, c1)
           | RBinlog ress \<Rightarrow>
               (case cat_results sid ress False c1 of
                  Ok (had, c2) \<Rightarrow>
                    if had \<and> \<not> IsZero (firstUnackedC c2) then
                      (if ct_batchAck t then Ok (ok, (send_ack False c2)\<lparr>firstUnackedC := zero_pos\<rparr>) else Ok (False, c2))
                    else Ok (ok, c2)
                | Error e \<Rightarrow> Error e
                | Panic \<Rightarrow> Panic)))"

fun cat_live :: "int \<Rightarrow> cat_turn list \<Rightarrow> cat \<Rightarrow> (unit, cat) outcome" where
  "cat_live sid [] c = Ok c"
| "cat_live sid (t # ts) c =
     (case cat_turn_step sid t c of
        Ok (ok, c1) \<Rightarrow> if ok then cat_live sid ts c1 else Ok c1
      | Error e \<Rightarrow> Error e
      | Panic \<Rightarrow> Panic)"

section \<open>Sessions\<close>

text \<open>At most ten messages are read for the answer to the synchronization request.\<close>

fun try_sid :: "nat \<Rightarrow> cat_recv list \<Rightarrow> int" where
  "try_sid 0 ms = 0"
| "try_sid (Suc n) [] = 0"
| "try_sid (Suc n) (m # ms) =
     (case m of
        RTimeout \<Rightarrow> 0
      | RFailed \<Rightarrow> 0
      | RTrySync s \<Rightarrow> if s \<noteq> 0 then s else try_sid n ms
      | _ \<Rightarrow> try_sid n ms)"

record cat_session =
  cs_dial :: bool
  cs_meta :: bool
  cs_trySync :: bool
  cs_replies :: "cat_recv list"
  cs_firstAck :: bool
  cs_turns :: "cat_turn list"

definition cat_session_run :: "cat_session \<Rightarrow> cat \<Rightarrow> (unit, cat) outcome" where
  "cat_session_run s c =
     (let sid = try_sid 10 (cs_replies s)
      in if \<not> cs_dial s \<or> \<not> cs_meta s \<or> \<not> cs_trySync s \<or> sid = 0 \<or> \<not> cs_firstAck s then Ok c
         else cat_live sid (cs_turns s)
                (c\<lparr>cat_acks := cat_acks c @ [\<lparr>ca_from = lastSeen c, ca_to = lastSeen c, ca_first = True\<rparr>], firstUnackedC := zero_pos\<rparr>))"

fun cat_run :: "cat_session list \<Rightarrow> cat \<Rightarrow> (unit, cat) outcome" where
  "cat_run [] c = Ok c"
| "cat_run (s # ss) c =
     (case cat_session_run s c of Ok c1 \<Rightarrow> cat_run ss c1 | Error e \<Rightarrow> Error e | Panic \<Rightarrow> Panic)"

text \<open>The line of a record, as the audit reads it.\<close>

definition record_line :: "cat_record \<Rightarrow> gt_line" where
  "record_line r = \<lparr>gl_start = rc_start r, gl_end = rc_end r, gl_cmd = rc_Cmd r, gl_key = rc_Key r,
     gl_bad = (case rc_Bad r of Fine \<Rightarrow> [] | Undecoded \<Rightarrow> ''bad'' | OutOfOrder \<Rightarrow> ''out-of-order'')\<rparr>"

section \<open>What a capture is worth\<close>

text \<open>The position the audit gives a record.\<close>

definition counted :: "cat_record \<Rightarrow> position" where
  "counted r = gt_end (gt_of_line (record_line r))"

definition good :: "cat_record list \<Rightarrow> cat_record list" where
  "good xs = filter (\<lambda>r. rc_Bad r = Fine) xs"

definition cat_inv :: "position \<Rightarrow> cat \<Rightarrow> bool" where
  "cat_inv st c \<longleftrightarrow> st \<le> lastSeen c \<and> firstUnackedC c \<le> lastSeen c \<and>
     sorted_wrt (<) (map counted (good (cat_out c))) \<and>
     (\<forall>r \<in> set (good (cat_out c)). st < counted r \<and> counted r \<le> lastSeen c) \<and>
     (\<forall>a \<in> set (cat_acks c). ca_from a \<le> ca_to a \<and> ca_to a \<le> lastSeen c) \<and>
     cat_n c = length (cat_out c) \<and> cat_bad c = length (cat_out c) - length (good (cat_out c))"

lemma After_less: "After a b \<longleftrightarrow> b < a"
  by (rule pos_after.after_iff)

lemma capture_entry_counted:
  "capture_entry seen res = Ok (rec, cur) \<Longrightarrow> rc_Bad rec = Fine \<Longrightarrow> counted rec = cur \<and> seen < cur"
  by (auto simp: capture_entry_def Let_def counted_def gt_of_line_def record_line_def no_record_def After_less
    split: outcome.splits if_splits option.splits)

lemma take_record_inv:
  assumes "cat_inv st c" "capture_entry (lastSeen c) res = Ok (rec, cur)"
  shows "cat_inv st (take_record rec cur c)"
proof -
  let ?m = "if lastSeen c < cur then cur else lastSeen c"
  have m: "lastSeen c \<le> ?m" "cur \<le> ?m" by auto
  have g: "rc_Bad rec = Fine \<Longrightarrow> counted rec = cur \<and> lastSeen c < cur" using capture_entry_counted [OF assms(2)] by blast
  have len: "length (good (cat_out c)) \<le> length (cat_out c)" by (simp add: good_def)
  show ?thesis
    using assms(1) m g len unfolding cat_inv_def take_record_def
    by (auto simp: After_less good_def sorted_wrt_append dest: le_less_trans)
qed

lemma cat_results_inv: "cat_inv st c \<Longrightarrow> cat_results sid ress had c = Ok (had', c') \<Longrightarrow> cat_inv st c'"
proof (induction ress arbitrary: had c)
  case (Cons res ress)
  show ?case
  proof (cases "sr_session res \<noteq> sid \<or> sr_binlog res = []")
    case False
    then obtain rec cur where r: "capture_entry (lastSeen c) res = Ok (rec, cur)"
      "cat_results sid ress True (take_record rec cur c) = Ok (had', c')"
      using Cons.prems(2) by (auto split: outcome.splits)
    then show ?thesis using Cons.IH take_record_inv [OF Cons.prems(1) r(1)] by blast
  qed (use Cons in auto)
qed simp

lemma ack_inv: "cat_inv st c \<Longrightarrow> cat_inv st ((send_ack f c)\<lparr>firstUnackedC := zero_pos\<rparr>)"
  by (auto simp: cat_inv_def send_ack_def)

lemma cat_tick_inv: "cat_inv st c \<Longrightarrow> cat_tick t c = (ok, c') \<Longrightarrow> cat_inv st c'"
  using ack_inv [of st c False] by (auto simp: cat_tick_def cat_inv_def split: if_splits)

lemma cat_turn_inv:
  assumes "cat_inv st c" "cat_turn_step sid t c = Ok (ok, c')"
  shows "cat_inv st c'"
proof -
  obtain ok1 c1 where t: "cat_tick t c = (ok1, c1)" by fastforce
  have i: "cat_inv st c1" by (rule cat_tick_inv [OF assms(1) t])
  show ?thesis
  proof (cases "ct_recv t")
    case (RBinlog ress)
    with assms(2) t obtain had c2 where r: "cat_results sid ress False c1 = Ok (had, c2)"
      by (auto simp: cat_turn_step_def split: outcome.splits)
    have "c' = c2 \<or> c' = (send_ack False c2)\<lparr>firstUnackedC := zero_pos\<rparr>"
      using assms(2) t r RBinlog by (auto simp: cat_turn_step_def split: if_splits)
    then show ?thesis using cat_results_inv [OF i r] ack_inv by blast
  qed (use assms(2) t i in \<open>auto simp: cat_turn_step_def\<close>)
qed

lemma cat_live_inv: "cat_inv st c \<Longrightarrow> cat_live sid ts c = Ok c' \<Longrightarrow> cat_inv st c'"
  by (induction sid ts c rule: cat_live.induct) (auto split: outcome.splits if_splits dest: cat_turn_inv)

lemma cat_session_inv:
  assumes "cat_inv st c" "cat_session_run s c = Ok c'"
  shows "cat_inv st c'"
proof -
  let ?c1 = "c\<lparr>cat_acks := cat_acks c @ [\<lparr>ca_from = lastSeen c, ca_to = lastSeen c, ca_first = True\<rparr>], firstUnackedC := zero_pos\<rparr>"
  have "cat_inv st ?c1" using assms(1) by (auto simp: cat_inv_def)
  then show ?thesis using assms cat_live_inv [of st ?c1] by (auto simp: cat_session_run_def Let_def split: if_splits)
qed

lemma cat_run_inv: "cat_inv st c \<Longrightarrow> cat_run ss c = Ok c' \<Longrightarrow> cat_inv st c'"
  by (induction ss c rule: cat_run.induct) (auto split: outcome.splits dest: cat_session_inv)

lemma cat_start_inv: "cat_inv st (cat_start st)"
  by (simp add: cat_inv_def cat_start_def good_def)

lemma streamGT_records: "streamGT (map (\<lambda>r. JRec (record_line r)) xs) = Some (map (\<lambda>r. gt_of_line (record_line r)) (good xs))"
  by (induction xs) (auto simp: good_def record_line_def split: bad_mark.split)


section \<open>Runs\<close>

definition demo_payload :: "bytes \<Rightarrow> bytes" where
  "demo_payload content = put_u16 1 @ put_u32 7 @ put_u32 0 @ put_u64 0 @ put_u32 1 @ put_u64 500 @ put_u32 (of_nat (length content)) @ content"

definition demo_sync :: "bytes \<Rightarrow> cat_session" where
  "demo_sync content = \<lparr>cs_dial = True, cs_meta = True, cs_trySync = True, cs_replies = [ROther, RTrySync 9], cs_firstAck = True,
     cs_turns = [\<lparr>ct_tick = True, ct_trySync = True, ct_tickAck = True,
       ct_recv = RBinlog [\<lparr>sr_session = 9, sr_offset = Some \<lparr>Filenum = 1, Offset = 600\<rparr>, sr_binlog = demo_payload content\<rparr>],
       ct_batchAck = True\<rparr>]\<rparr>"

lemma DecodeEntry_payload:
  "length content < 2 ^ 32 \<Longrightarrow> DecodeEntry (demo_payload content) =
     (case ParseRespArray content of
        Ok argv \<Rightarrow> Ok \<lparr>en_Type = 1, en_ExecTime = 7, en_Filenum = 1, en_Offset = 500, en_Argv = argv\<rparr>
      | Error e \<Rightarrow> Error e
      | Panic \<Rightarrow> Panic)"
  by (simp add: DecodeEntry_def demo_payload_def codec_simps split: outcome.split)

lemma demo_payload_nonempty: "demo_payload x \<noteq> []"
proof -
  have "length (demo_payload x) > 0" by (simp add: demo_payload_def)
  then show ?thesis by auto
qed

lemma demo_arrays:
  "ParseRespArray (''*1'' @ crlf @ ''$4'' @ crlf @ ''PING'' @ crlf) = Ok [''PING'']" "ParseRespArray (''*0'' @ crlf) = Ok []"
proof -
  have n: "parse_int64 ''4'' = Inr 4" "parse_int64 ''1'' = Inr 1" "parse_int64 ''0'' = Inr 0"
    by (simp_all add: parse_int64_def parse_uint_def is_digit_def digit_val_def)
  have "readLineB (''*0'' @ crlf) = Some (''*0'', [])"
    "readLineB (''*1'' @ crlf @ ''$4'' @ crlf @ ''PING'' @ crlf) = Some (''*1'', ''$4'' @ crlf @ ''PING'' @ crlf)"
    "readLineB (''$4'' @ crlf @ ''PING'' @ crlf) = Some (''$4'', ''PING'' @ crlf)"
    by (simp_all add: readLineB_def line_limit_def)
  then show "ParseRespArray (''*1'' @ crlf @ ''$4'' @ crlf @ ''PING'' @ crlf) = Ok [''PING'']" "ParseRespArray (''*0'' @ crlf) = Ok []"
    using n by (simp_all add: ParseRespArray_def wrap64_def numeral_2_eq_2)
qed

lemma demo_capture:
  "cat_run [demo_sync (''*1'' @ crlf @ ''$4'' @ crlf @ ''PING'' @ crlf)] (cat_start \<lparr>Filenum = 1, Offset = 500\<rparr>) =
     Ok \<lparr>lastSeen = \<lparr>Filenum = 1, Offset = 600\<rparr>, firstUnackedC = zero_pos,
         cat_out = [\<lparr>rc_start = \<lparr>Filenum = 1, Offset = 500\<rparr>, rc_end = \<lparr>Filenum = 1, Offset = 600\<rparr>, rc_Cmd = ''PING'', rc_Key = [],
           rc_Argc = 1, rc_Ex = 7, rc_Bad = Fine, rc_Raw = []\<rparr>],
         cat_n = 1, cat_bad = 0,
         cat_acks = [\<lparr>ca_from = \<lparr>Filenum = 1, Offset = 500\<rparr>, ca_to = \<lparr>Filenum = 1, Offset = 500\<rparr>, ca_first = True\<rparr>,
           \<lparr>ca_from = zero_pos, ca_to = zero_pos, ca_first = False\<rparr>,
           \<lparr>ca_from = \<lparr>Filenum = 1, Offset = 600\<rparr>, ca_to = \<lparr>Filenum = 1, Offset = 600\<rparr>, ca_first = False\<rparr>]\<rparr>"
proof -
  let ?r = "\<lparr>sr_session = 9, sr_offset = Some \<lparr>Filenum = 1, Offset = 600\<rparr>, sr_binlog = demo_payload (''*1'' @ crlf @ ''$4'' @ crlf @ ''PING'' @ crlf)\<rparr>"
  have "capture_entry \<lparr>Filenum = 1, Offset = 500\<rparr> ?r =
      Ok (\<lparr>rc_start = \<lparr>Filenum = 1, Offset = 500\<rparr>, rc_end = \<lparr>Filenum = 1, Offset = 600\<rparr>, rc_Cmd = ''PING'', rc_Key = [],
           rc_Argc = 1, rc_Ex = 7, rc_Bad = Fine, rc_Raw = []\<rparr>, \<lparr>Filenum = 1, Offset = 600\<rparr>)"
    using demo_arrays(1) by (simp add: capture_entry_def DecodeEntry_payload no_record_def After_def zero_pos_def Let_def)
  moreover note demo_payload_nonempty
  moreover have "try_sid 10 [ROther, RTrySync 9] = 9" by (simp add: eval_nat_numeral)
  ultimately show ?thesis
    by (simp add: cat_session_run_def demo_sync_def cat_start_def cat_turn_step_def cat_tick_def take_record_def send_ack_def After_def zero_pos_def)
qed


text \<open>
  An entry with an empty command stops the capture: the tool takes its first argument without
  looking whether there is one.
\<close>
theorem empty_command_panics:
  "cat_run [demo_sync (''*0'' @ crlf)] (cat_start \<lparr>Filenum = 1, Offset = 500\<rparr>) = Panic"
proof -
  have "try_sid 10 [ROther, RTrySync 9] = 9" by (simp add: eval_nat_numeral)
  moreover note demo_payload_nonempty
  moreover have "DecodeEntry (demo_payload (''*0'' @ crlf)) = Ok \<lparr>en_Type = 1, en_ExecTime = 7, en_Filenum = 1, en_Offset = 500, en_Argv = []\<rparr>"
    using demo_arrays(2) by (simp add: DecodeEntry_payload)
  ultimately show ?thesis
    by (simp add: cat_session_run_def demo_sync_def cat_start_def cat_turn_step_def cat_tick_def capture_entry_def Let_def)
qed

end
