(* ===== verification/Replay.thy ===== *)
theory Replay
  imports KafkaSink AuditJoin ExpCodec
begin

text \<open>
  Two tools of the experiment kit that read the event stream of the product: \<^verbatim>\<open>cmd/ordchk/main.go\<close>,
  which counts violations of the order of positions over the whole stream and per key, and
  \<^verbatim>\<open>cmd/replay/main.go\<close>, which applies the stream to another server. A file is the list of its
  decoded lines, as for the audit.
\<close>

section \<open>The order checker\<close>

record ordchk =
  oc_last :: position
  oc_bad :: nat
  oc_total :: nat
  oc_keyLast :: "(bytes \<times> position) list"
  oc_keyViol :: "(bytes \<times> nat) list"
  oc_badLines :: "nat list"

definition ordchk_start :: ordchk where
  "ordchk_start = \<lparr>oc_last = zero_pos, oc_bad = 0, oc_total = 0, oc_keyLast = [], oc_keyViol = [], oc_badLines = []\<rparr>"

definition key_step :: "bytes \<Rightarrow> position \<Rightarrow> ordchk \<Rightarrow> ordchk" where
  "key_step k p s =
     (let viol = (case map_of (oc_keyLast s) k of None \<Rightarrow> False | Some lp \<Rightarrow> \<not> After p lp);
          n = (case map_of (oc_keyViol s) k of None \<Rightarrow> 0 | Some n \<Rightarrow> n)
      in s\<lparr>oc_keyViol := (if viol then AList.update k (n + 1) (oc_keyViol s) else oc_keyViol s),
           oc_keyLast := AList.update k p (oc_keyLast s)\<rparr>)"

definition ordchk_step :: "nat \<Rightarrow> audit_event \<Rightarrow> ordchk \<Rightarrow> ordchk" where
  "ordchk_step sample e s =
     (if ae_phase e \<noteq> ''incremental'' then s
      else let p = ae_pos e;
               s1 = s\<lparr>oc_total := oc_total s + 1\<rparr>;
               s2 = (if oc_total s1 > 1 \<and> \<not> After p (oc_last s1)
                     then s1\<lparr>oc_bad := oc_bad s1 + 1,
                             oc_badLines := (if length (oc_badLines s1) < sample then oc_badLines s1 @ [oc_total s1] else oc_badLines s1)\<rparr>
                     else s1)
           in key_step (ae_key e) p (s2\<lparr>oc_last := p\<rparr>))"

definition ordchk_run :: "nat \<Rightarrow> audit_event jline list \<Rightarrow> ordchk option" where
  "ordchk_run sample ls = map_option (\<lambda>es. fold (ordchk_step sample) es ordchk_start) (scan_events ls)"

definition oc_violations :: "ordchk \<Rightarrow> nat" where
  "oc_violations s = sum_list (map snd (oc_keyViol s))"

section \<open>The replay\<close>

record ev =
  re_Phase :: bytes
  re_Key :: bytes
  re_Args :: "bytes list"
  re_Enc :: bytes
  re_pos :: position

definition dedupe_key :: "position \<Rightarrow> 64 word" where
  "dedupe_key p = push_bit 48 (ucast (Filenum p)) OR Offset p"

definition shard_of :: "nat \<Rightarrow> bytes \<Rightarrow> nat" where
  "shard_of workers k = unat (hashKey k) mod workers"

record replay_state =
  rp_total :: nat
  rp_skipped :: nat
  rp_deduped :: nat
  rp_seen :: "64 word list"
  rp_shards :: "ev list list"

definition replay_start :: "nat \<Rightarrow> replay_state" where
  "replay_start workers = \<lparr>rp_total = 0, rp_skipped = 0, rp_deduped = 0, rp_seen = [], rp_shards = replicate workers []\<rparr>"

definition dispatch :: "nat \<Rightarrow> ev \<Rightarrow> replay_state \<Rightarrow> replay_state" where
  "dispatch workers e s =
     (let i = shard_of workers (re_Key e)
      in s\<lparr>rp_shards := (rp_shards s)[i := rp_shards s ! i @ [e]], rp_total := rp_total s + 1\<rparr>)"

definition replay_step :: "nat \<Rightarrow> bool \<Rightarrow> ev \<Rightarrow> replay_state \<Rightarrow> replay_state" where
  "replay_step workers dedupe e s =
     (if re_Phase e = ''heartbeat'' \<or> re_Args e = [] then s\<lparr>rp_skipped := rp_skipped s + 1\<rparr>
      else if dedupe \<and> re_Phase e = ''incremental'' then
        if dedupe_key (re_pos e) \<in> set (rp_seen s) then s\<lparr>rp_deduped := rp_deduped s + 1\<rparr>
        else dispatch workers e (s\<lparr>rp_seen := dedupe_key (re_pos e) # rp_seen s\<rparr>)
      else dispatch workers e s)"

text \<open>\<open>None\<close> where a line is no JSON and the program exits.\<close>

fun replay_scan :: "nat \<Rightarrow> bool \<Rightarrow> ev jline list \<Rightarrow> replay_state \<Rightarrow> replay_state option" where
  "replay_scan workers dedupe [] s = Some s"
| "replay_scan workers dedupe (JLong # ls) s = Some s"
| "replay_scan workers dedupe (JBad # ls) s = None"
| "replay_scan workers dedupe (JRec e # ls) s = replay_scan workers dedupe ls (replay_step workers dedupe e s)"

text \<open>An argument that cannot be decoded is sent as the empty string and counted as an error.\<close>

definition replay_args :: "ev \<Rightarrow> bytes list" where
  "replay_args e =
     (if re_Enc e = ''base64'' then map (\<lambda>a. case b64_decode a of None \<Rightarrow> [] | Some b \<Rightarrow> b) (re_Args e) else re_Args e)"

definition b64_errors :: "ev \<Rightarrow> nat" where
  "b64_errors e = (if re_Enc e = ''base64'' then length (filter (\<lambda>a. b64_decode a = None) (re_Args e)) else 0)"

fun worker_pipes :: "nat \<Rightarrow> bytes list list \<Rightarrow> ev list \<Rightarrow> bytes list list list" where
  "worker_pipes batch buf [] = (if buf = [] then [] else [buf])"
| "worker_pipes batch buf (e # es) =
     (let buf1 = buf @ [replay_args e]
      in if length buf1 \<ge> batch then buf1 # worker_pipes batch [] es else worker_pipes batch buf1 es)"

text \<open>The applied commands and the errors of one pipeline: every command of a failed one is an error.\<close>

definition flush_counts :: "bytes list list \<Rightarrow> Val list option \<Rightarrow> nat \<times> nat" where
  "flush_counts buf reps =
     (case reps of
        None \<Rightarrow> (0, length buf)
      | Some vs \<Rightarrow> (length (filter (\<lambda>v. \<not> (\<exists>e. v = EErr e)) vs), length (filter (\<lambda>v. \<exists>e. v = EErr e) vs)))"

text \<open>
  A worker that cannot connect takes nothing from its channel of 4096 events, so that the reader
  of the file waits for ever once it is full (\<open>None\<close>). \<open>server\<close> answers the pipelines of a worker.
\<close>

definition worker_counts :: "nat \<Rightarrow> (bytes list list \<Rightarrow> Val list option) \<Rightarrow> bool \<Rightarrow> ev list \<Rightarrow> (nat \<times> nat) option" where
  "worker_counts batch server dialed es =
     (if \<not> dialed then (if length es > 4096 then None else Some (0, 0))
      else let cs = map (\<lambda>p. flush_counts p (server p)) (worker_pipes batch [] es)
           in Some (sum_list (map fst cs), sum_list (map snd cs) + sum_list (map b64_errors es)))"

text \<open>The replay passes when every worker ends and none counted an error.\<close>

definition replay_passes :: "nat \<Rightarrow> (bytes list list \<Rightarrow> Val list option) \<Rightarrow> bool list \<Rightarrow> replay_state \<Rightarrow> bool option" where
  "replay_passes batch server dials s =
     (let cs = map (\<lambda>(d, es). worker_counts batch server d es) (zip dials (rp_shards s))
      in if None \<in> set cs then None else Some (sum_list (map (snd \<circ> the) cs) = 0))"

section \<open>The order checker is exact\<close>

abbreviation later :: "audit_event \<Rightarrow> audit_event \<Rightarrow> bool" where
  "later x y \<equiv> After (ae_pos y) (ae_pos x)"

definition key_incs :: "bytes \<Rightarrow> audit_event list \<Rightarrow> audit_event list" where
  "key_incs k es = filter (\<lambda>e. ae_key e = k) (incs es)"

lemma later_sorted: "successively later xs \<longleftrightarrow> sorted_wrt later xs"
proof -
  have "transp later" by (rule transpI) (rule pos_after.after_trans)
  then show ?thesis using successively_conv_sorted_wrt by blast
qed

lemma incs_snoc: "incs (es @ [e]) = incs es @ (if ae_phase e = ''incremental'' then [e] else [])"
  by (simp add: incs_def)

lemma key_incs_snoc: "key_incs k (es @ [e]) = key_incs k es @ (if ae_phase e = ''incremental'' \<and> ae_key e = k then [e] else [])"
  by (simp add: key_incs_def incs_snoc)

lemma ordchk_global:
  "oc_total (fold (ordchk_step n) es ordchk_start) = length (incs es) \<and>
   (incs es \<noteq> [] \<longrightarrow> oc_last (fold (ordchk_step n) es ordchk_start) = ae_pos (last (incs es))) \<and>
   (oc_bad (fold (ordchk_step n) es ordchk_start) = 0 \<longleftrightarrow> successively later (incs es))"
proof (induction es rule: rev_induct)
  case Nil
  then show ?case by (simp add: ordchk_start_def incs_def)
next
  case (snoc e es)
  then show ?case
    by (auto simp: incs_snoc ordchk_step_def key_step_def Let_def successively_append_iff)
qed

lemma update_nonempty: "AList.update k v m \<noteq> []"
  by (cases m) auto

lemma ordchk_step_keys:
  assumes "ae_phase e = ''incremental''"
  shows "oc_keyLast (ordchk_step n e s) = AList.update (ae_key e) (ae_pos e) (oc_keyLast s)"
    "oc_keyViol (ordchk_step n e s) = [] \<longleftrightarrow>
       oc_keyViol s = [] \<and> (\<forall>lp. map_of (oc_keyLast s) (ae_key e) = Some lp \<longrightarrow> After (ae_pos e) lp)"
  using assms update_nonempty by (simp_all add: ordchk_step_def key_step_def Let_def split: option.split)

lemma ordchk_keys:
  "(\<forall>k. map_of (oc_keyLast (fold (ordchk_step n) es ordchk_start)) k =
     (if key_incs k es = [] then None else Some (ae_pos (last (key_incs k es))))) \<and>
   (oc_keyViol (fold (ordchk_step n) es ordchk_start) = [] \<longleftrightarrow> (\<forall>k. successively later (key_incs k es)))"
proof (induction es rule: rev_induct)
  case Nil
  then show ?case by (simp add: ordchk_start_def key_incs_def incs_def)
next
  case (snoc e es)
  let ?s = "fold (ordchk_step n) es ordchk_start"
  show ?case
  proof (cases "ae_phase e = ''incremental''")
    case True
    let ?k = "ae_key e"
    let ?viol = "key_incs ?k es \<noteq> [] \<and> \<not> After (ae_pos e) (ae_pos (last (key_incs ?k es)))"
    have step: "oc_keyViol (ordchk_step n e ?s) = [] \<longleftrightarrow> oc_keyViol ?s = [] \<and> \<not> ?viol"
      using snoc ordchk_step_keys(2) [OF True] by simp
    have "(\<forall>k. successively later (key_incs k (es @ [e]))) \<longleftrightarrow> (\<forall>k. successively later (key_incs k es)) \<and> \<not> ?viol"
      using True by (auto simp: key_incs_snoc successively_append_iff)
    then show ?thesis using step snoc True ordchk_step_keys(1) [OF True] by (simp add: key_incs_snoc update_conv)
  next
    case False
    then show ?thesis using snoc by (simp add: ordchk_step_def key_incs_snoc)
  qed
qed

text \<open>
  The order checker is exact: it reports no violation of the order of the stream exactly when the
  positions of its incremental events increase strictly, and no violation for a key exactly when
  those of every single key do.
\<close>
theorem ordchk_exact:
  assumes "scan_events ls = Some es"
  shows "\<exists>s. ordchk_run n ls = Some s \<and> oc_total s = length (incs es) \<and>
    (oc_bad s = 0 \<longleftrightarrow> sorted_wrt later (incs es)) \<and>
    (oc_keyViol s = [] \<longleftrightarrow> (\<forall>k. sorted_wrt later (key_incs k es)))"
  using assms ordchk_global [of n es] ordchk_keys [of n es] by (simp add: ordchk_run_def later_sorted)

theorem ordchk_exact_witness:
  "\<exists>s. ordchk_run 5 [JRec (inc_event 10), JRec (inc_event 20), JRec (inc_event 15)] = Some s \<and> oc_total s = 3 \<and>
    oc_bad s \<noteq> 0 \<and> oc_keyViol s \<noteq> []"
proof -
  let ?es = "[inc_event 10, inc_event 20, inc_event 15]"
  have "scan_events (map JRec ?es) = Some ?es" by simp
  moreover have "length (incs ?es) = 3" "\<not> sorted_wrt later (incs ?es)" "\<not> sorted_wrt later (key_incs ''k'' ?es)" by code_simp+
  ultimately show ?thesis using ordchk_exact [of "map JRec ?es" ?es 5] by auto
qed

section \<open>What the replay applies\<close>

text \<open>
  The reference: heartbeats and events without arguments are left out, and of the incremental
  events with one position only the first is kept.
\<close>

fun first_deliveries :: "bool \<Rightarrow> position set \<Rightarrow> ev list \<Rightarrow> ev list" where
  "first_deliveries dedupe seen [] = []"
| "first_deliveries dedupe seen (e # es) =
     (if re_Phase e = ''heartbeat'' \<or> re_Args e = [] then first_deliveries dedupe seen es
      else if dedupe \<and> re_Phase e = ''incremental'' then
        if re_pos e \<in> seen then first_deliveries dedupe seen es
        else e # first_deliveries dedupe (insert (re_pos e) seen) es
      else e # first_deliveries dedupe seen es)"

definition packs :: "position \<Rightarrow> bool" where
  "packs p \<longleftrightarrow> unat (Filenum p) < 2 ^ 16 \<and> unat (Offset p) < 2 ^ 48"

lemma unat_filenum: "unat (ucast (f :: 32 word) :: 64 word) = unat f"
  using unsigned_less [of f, where 'a = nat] by (simp add: unsigned_ucast_eq take_bit_nat_eq_self)

lemma drop_shift: "unat (x :: 64 word) < 2 ^ 16 \<Longrightarrow> drop_bit 48 (push_bit 48 x) = x"
proof -
  assume "unat x < 2 ^ 16"
  then have "unat (push_bit 48 x) = unat x * 2 ^ 48" by (simp add: push_bit_eq_mult unat_word_ariths)
  then show ?thesis by (simp add: word_unat_eq_iff unat_div drop_bit_eq_div)
qed

lemma dedupe_key_parts:
  assumes "packs p"
  shows "take_bit 48 (dedupe_key p) = Offset p" "drop_bit 48 (dedupe_key p) = ucast (Filenum p)"
proof -
  have o: "drop_bit 48 (Offset p) = 0" "take_bit 48 (Offset p) = Offset p"
    using assms by (simp_all add: packs_def drop_bit_eq_div word_unat_eq_iff unat_div take_bit_eq_mod unat_arith_simps)
  have "unat (Filenum p) < 2 ^ 16" using assms by (simp add: packs_def)
  then have "unat (ucast (Filenum p) :: 64 word) < 2 ^ 16" by (simp add: unat_filenum)
  then have "drop_bit 48 (push_bit 48 (ucast (Filenum p) :: 64 word)) = ucast (Filenum p)" by (rule drop_shift)
  then show "drop_bit 48 (dedupe_key p) = ucast (Filenum p)" using o(1) by (simp only: dedupe_key_def drop_bit_or or.right_neutral)
  have "take_bit 48 (push_bit 48 (ucast (Filenum p) :: 64 word)) = 0" by (simp add: take_bit_push_bit)
  then show "take_bit 48 (dedupe_key p) = Offset p" using o(2) by (simp only: dedupe_key_def take_bit_or or.left_neutral)
qed

lemma dedupe_key_inj:
  assumes "packs p" "packs q"
  shows "dedupe_key p = dedupe_key q \<longleftrightarrow> p = q"
proof
  assume k: "dedupe_key p = dedupe_key q"
  have "Offset p = Offset q" "(ucast (Filenum p) :: 64 word) = ucast (Filenum q)"
    using k dedupe_key_parts [OF assms(1)] dedupe_key_parts [OF assms(2)] by simp_all
  moreover from this(2) have "Filenum p = Filenum q" by (simp add: word_unat_eq_iff unat_filenum)
  ultimately show "p = q" by simp
qed simp

lemma replay_scan_fold: "replay_scan w dedupe (map JRec es) s = Some (fold (replay_step w dedupe) es s)"
  by (induction es arbitrary: s) simp_all

lemma dispatch_shards:
  assumes "length (rp_shards s) = w" "0 < w"
  shows "length (rp_shards (dispatch w e s)) = w"
    "i < w \<Longrightarrow> rp_shards (dispatch w e s) ! i = rp_shards s ! i @ (if shard_of w (re_Key e) = i then [e] else [])"
    "rp_total (dispatch w e s) = Suc (rp_total s)" "rp_skipped (dispatch w e s) = rp_skipped s"
    "rp_deduped (dispatch w e s) = rp_deduped s" "rp_seen (dispatch w e s) = rp_seen s"
  using assms by (auto simp: dispatch_def Let_def shard_of_def)

lemma replay_fold:
  assumes "0 < w" "length (rp_shards s) = w" "set (rp_seen s) = dedupe_key ` S" "\<forall>p \<in> S. packs p" "list_all (\<lambda>e. packs (re_pos e)) es"
  shows "length (rp_shards (fold (replay_step w dedupe) es s)) = w \<and>
    (\<forall>i < w. rp_shards (fold (replay_step w dedupe) es s) ! i =
       rp_shards s ! i @ filter (\<lambda>e. shard_of w (re_Key e) = i) (first_deliveries dedupe S es)) \<and>
    rp_total (fold (replay_step w dedupe) es s) = rp_total s + length (first_deliveries dedupe S es) \<and>
    rp_total (fold (replay_step w dedupe) es s) + rp_skipped (fold (replay_step w dedupe) es s) + rp_deduped (fold (replay_step w dedupe) es s) =
      rp_total s + rp_skipped s + rp_deduped s + length es"
  using assms(2-5)
proof (induction es arbitrary: s S)
  case (Cons e es)
  let ?t = "replay_step w dedupe e s"
  have mem: "dedupe_key (re_pos e) \<in> set (rp_seen s) \<longleftrightarrow> re_pos e \<in> S"
    using Cons.prems dedupe_key_inj by fastforce
  consider "re_Phase e = ''heartbeat'' \<or> re_Args e = []"
    | "\<not> (re_Phase e = ''heartbeat'' \<or> re_Args e = [])" "dedupe \<and> re_Phase e = ''incremental''" "re_pos e \<in> S"
    | "\<not> (re_Phase e = ''heartbeat'' \<or> re_Args e = [])" "dedupe \<and> re_Phase e = ''incremental''" "re_pos e \<notin> S"
    | "\<not> (re_Phase e = ''heartbeat'' \<or> re_Args e = [])" "\<not> (dedupe \<and> re_Phase e = ''incremental'')"
    by blast
  then show ?case
  proof cases
    case 1
    then show ?thesis using Cons.IH [of ?t S] Cons.prems by (simp add: replay_step_def)
  next
    case 2
    then show ?thesis using Cons.IH [of ?t S] Cons.prems mem by (simp add: replay_step_def)
  next
    case 3
    let ?s = "s\<lparr>rp_seen := dedupe_key (re_pos e) # rp_seen s\<rparr>"
    have "?t = dispatch w e ?s" using 3 mem by (simp add: replay_step_def)
    then show ?thesis
      using Cons.IH [of ?t "insert (re_pos e) S"] Cons.prems 3 dispatch_shards [where s = ?s and w = w and e = e] assms(1) by simp
  next
    case 4
    then have "?t = dispatch w e s" by (auto simp: replay_step_def)
    then show ?thesis using Cons.IH [of ?t S] Cons.prems 4 dispatch_shards [where s = s and w = w and e = e] assms(1) by auto
  qed
qed simp

lemma worker_pipes_concat: "concat (worker_pipes batch buf es) = buf @ map replay_args es"
  by (induction batch buf es rule: worker_pipes.induct) (auto simp: Let_def)

lemma worker_pipes_nonempty: "p \<in> set (worker_pipes batch buf es) \<Longrightarrow> p \<noteq> []"
  by (induction batch buf es rule: worker_pipes.induct) (auto simp: Let_def split: if_splits)


definition inc_ev :: "32 word \<Rightarrow> 64 word \<Rightarrow> ev" where
  "inc_ev f off = \<lparr>re_Phase = ''incremental'', re_Key = ''k'', re_Args = [''SET'', ''k'', ''v''], re_Enc = ''utf8'',
     re_pos = \<lparr>Filenum = f, Offset = off\<rparr>\<rparr>"


text \<open>
  The packed position is not injective: the second of two different events whose file numbers
  agree in their low sixteen bits, or one of whose offsets reaches two to the forty-eighth, is
  taken for a repetition and lost.
\<close>
theorem replay_drops_collision:
  "map_option (\<lambda>s. (rp_total s, rp_deduped s)) (replay_scan 1 True (map JRec [inc_ev 1 10, inc_ev 65537 10]) (replay_start 1)) = Some (1, 1) \<and>
   map_option (\<lambda>s. (rp_total s, rp_deduped s)) (replay_scan 1 True (map JRec [inc_ev 1 10, inc_ev 0 281474976710666]) (replay_start 1)) = Some (1, 1)"
proof -
  have "dedupe_key \<lparr>Filenum = 65537, Offset = 10\<rparr> = dedupe_key \<lparr>Filenum = 1, Offset = 10\<rparr>"
    "dedupe_key \<lparr>Filenum = 0, Offset = 281474976710666\<rparr> = dedupe_key \<lparr>Filenum = 1, Offset = 10\<rparr>"
    by (simp_all add: dedupe_key_def)
  then show ?thesis by (simp add: replay_step_def dispatch_def inc_ev_def replay_start_def Let_def)
qed

text \<open>
  A worker that cannot connect is not an error: the replay passes although none of its events was
  applied, and it never ends once more than 4096 events wait for that worker.
\<close>
theorem replay_passes_without_server:
  "replay_passes batch server [False] (s\<lparr>rp_shards := [es]\<rparr>) = (if length es > 4096 then None else Some True)"
  by (simp add: replay_passes_def worker_counts_def)

text \<open>
  With every worker connected the verdict is right: the replay passes exactly when no argument
  failed to decode, every pipeline was answered and no answer is an error.
\<close>
theorem replay_verdict_connected:
  assumes "length dials = length (rp_shards s)" "list_all id dials"
  shows "replay_passes batch server dials s = Some (\<forall>es \<in> set (rp_shards s).
     (\<forall>e \<in> set es. b64_errors e = 0) \<and>
     (\<forall>p \<in> set (worker_pipes batch [] es). \<exists>vs. server p = Some vs \<and> (\<forall>v \<in> set vs. \<forall>e. v \<noteq> EErr e)))"
proof -
  let ?ok = "\<lambda>p. \<exists>vs. server p = Some vs \<and> (\<forall>v \<in> set vs. \<forall>e. v \<noteq> EErr e)"
  have "snd (flush_counts p (server p)) = 0 \<longleftrightarrow> ?ok p" if "p \<noteq> []" for p
    using that by (auto simp: flush_counts_def filter_empty_conv split: option.split)
  then have w: "snd (the (worker_counts batch server True es)) = 0 \<longleftrightarrow>
      (\<forall>e \<in> set es. b64_errors e = 0) \<and> (\<forall>p \<in> set (worker_pipes batch [] es). ?ok p)" for es
    using worker_pipes_nonempty [of _ batch "[]" es] by (auto simp: worker_counts_def Let_def)
  have "map (\<lambda>(d, es). worker_counts batch server d es) (zip dials (rp_shards s)) = map (worker_counts batch server True) (rp_shards s)"
    using assms by (intro nth_equalityI) (auto simp: list_all_length)
  moreover have "None \<notin> set (map (worker_counts batch server True) (rp_shards s))" by (auto simp: worker_counts_def Let_def)
  ultimately show ?thesis using w by (simp add: replay_passes_def Let_def)
qed

end
