(* ===== verification/Compare.thy ===== *)
theory Compare
  imports ExpCodec "HOL-Library.Multiset"
begin

text \<open>
  The state comparison of the experiment kit (\<^verbatim>\<open>tools/expkit/cmd/compare/main.go\<close>): it scans the keys
  of a source and of a target server, splits the common keys among workers and compares the type
  and the value of each. A connection is what its pipelines return (\<open>None\<close> for an error); the
  canonical form of a score (\<^verbatim>\<open>strconv.ParseFloat\<close>, then \<^verbatim>\<open>FormatFloat\<close>) is the argument \<open>canon\<close>. The report
  file and the printed samples are left out.
\<close>

section \<open>Replies\<close>

fun val_S :: "Val \<Rightarrow> bytes" where
  "val_S (ESimple s) = s"
| "val_S (EErr s) = s"
| "val_S (EBulk s) = s"
| "val_S _ = []"

fun val_Nil :: "Val \<Rightarrow> bool" where
  "val_Nil ENilBulk = True"
| "val_Nil ENilArr = True"
| "val_Nil _ = False"

fun is_array :: "Val \<Rightarrow> bool" where
  "is_array (EArr vs) = True"
| "is_array ENilArr = True"
| "is_array _ = False"

fun val_Items :: "Val \<Rightarrow> Val list" where
  "val_Items (EArr vs) = vs"
| "val_Items _ = []"

section \<open>Scanning\<close>

text \<open>The replies to the scan requests in their order; \<open>None\<close> is an error or a connection that ended.\<close>

fun scanAll :: "Val list \<Rightarrow> bytes list \<Rightarrow> bytes list option" where
  "scanAll [] keys = None"
| "scanAll (v # vs) keys =
     (if \<not> is_array v \<or> length (val_Items v) \<noteq> 2 then None
      else let keys1 = fold (\<lambda>k. List.insert (val_S k)) (val_Items (val_Items v ! 1)) keys
           in if val_S (val_Items v ! 0) = ''0'' then Some keys1 else scanAll vs keys1)"

section \<open>Values\<close>

definition readFor :: "bytes \<Rightarrow> bytes \<Rightarrow> bytes list option" where
  "readFor typ k =
     (if typ = ''string'' then Some [''GET'', k]
      else if typ = ''hash'' then Some [''HGETALL'', k]
      else if typ = ''set'' then Some [''SMEMBERS'', k]
      else if typ = ''zset'' then Some [''ZRANGE'', k, ''0'', ''-1'', ''WITHSCORES'']
      else if typ = ''list'' then Some [''LRANGE'', k, ''0'', ''-1'']
      else None)"

definition strEq :: "Val \<Rightarrow> Val \<Rightarrow> bool" where
  "strEq a b \<longleftrightarrow> val_Nil a \<and> val_Nil b \<or> \<not> val_Nil a \<and> \<not> val_Nil b \<and> val_S a = val_S b"

fun item_pairs :: "Val list \<Rightarrow> (bytes \<times> bytes) list" where
  "item_pairs (a # b # vs) = (val_S a, val_S b) # item_pairs vs"
| "item_pairs _ = []"

text \<open>\<^verbatim>\<open>fmt.Sprint\<close> of a slice of strings.\<close>

fun spaced :: "bytes list \<Rightarrow> bytes" where
  "spaced [] = []"
| "spaced [x] = x"
| "spaced (x # xs) = x @ '' '' @ spaced xs"

definition norm_items :: "(bytes \<Rightarrow> bytes) \<Rightarrow> bytes \<Rightarrow> Val \<Rightarrow> bytes list" where
  "norm_items canon typ v =
     (if typ = ''list'' then map val_S (val_Items v)
      else sort_strings (if typ = ''hash'' then map (\<lambda>(f, x). f @ ''='' @ x) (item_pairs (val_Items v))
                 else if typ = ''set'' then map val_S (val_Items v)
                 else if typ = ''zset'' then map (\<lambda>(m, sc). m @ '':'' @ canon sc) (item_pairs (val_Items v))
                 else []))"

definition norm :: "(bytes \<Rightarrow> bytes) \<Rightarrow> bytes \<Rightarrow> Val \<Rightarrow> bytes" where
  "norm canon typ v = (if \<not> is_array v then ''ERR:'' @ val_S v else ''['' @ spaced (norm_items canon typ v) @ '']'')"

definition arrEq :: "(bytes \<Rightarrow> bytes) \<Rightarrow> bytes \<Rightarrow> Val \<Rightarrow> Val \<Rightarrow> bool" where
  "arrEq canon typ a b \<longleftrightarrow> norm canon typ a = norm canon typ b"

definition digest :: "Val \<Rightarrow> bytes" where
  "digest v =
     (case v of
        EErr e \<Rightarrow> ''E:'' @ e
      | _ \<Rightarrow>
          if \<not> is_array v then (if val_Nil v then ''<nil>'' else val_S v)
          else let s = concat (map (\<lambda>it. val_S it @ [CHR 0x00]) (val_Items v))
               in if length s > 80 then format_uint (length s) @ '':'' @ take 40 s @ [CHR 0xE2, CHR 0x80, CHR 0xA6] else s)"

section \<open>Batches\<close>

record diff =
  d_Key :: bytes
  d_Kind :: bytes
  d_Src :: bytes
  d_Tgt :: bytes

type_synonym pipe = "bytes list list \<Rightarrow> Val list option"

text \<open>The first pass: what the types of a key on the two sides ask for, a difference, a read or nothing.\<close>

definition type_diff :: "bytes \<Rightarrow> Val \<Rightarrow> Val \<Rightarrow> diff list" where
  "type_diff k s t =
     (if val_S s \<noteq> val_S t then [\<lparr>d_Key = k, d_Kind = ''type'', d_Src = val_S s, d_Tgt = val_S t\<rparr>]
      else if val_S s = ''none'' then []
      else case readFor (val_S s) k of
             None \<Rightarrow> [\<lparr>d_Key = k, d_Kind = ''unsupported-type'', d_Src = val_S s, d_Tgt = []\<rparr>]
           | Some rc \<Rightarrow> [])"

definition live_read :: "bytes \<Rightarrow> Val \<Rightarrow> Val \<Rightarrow> bytes list option" where
  "live_read k s t = (if val_S s \<noteq> val_S t \<or> val_S s = ''none'' then None else readFor (val_S s) k)"

definition value_diff :: "(bytes \<Rightarrow> bytes) \<Rightarrow> bytes \<Rightarrow> bytes \<Rightarrow> Val \<Rightarrow> Val \<Rightarrow> diff list" where
  "value_diff canon k typ s t =
     (if typ = ''string'' then
        if strEq s t then [] else [\<lparr>d_Key = k, d_Kind = ''value-string'', d_Src = digest s, d_Tgt = digest t\<rparr>]
      else if typ \<in> {''hash'', ''set'', ''zset'', ''list''} then
        if arrEq canon typ s t then [] else [\<lparr>d_Key = k, d_Kind = ''value-'' @ typ, d_Src = digest s, d_Tgt = digest t\<rparr>]
      else [])"

definition compareBatch :: "(bytes \<Rightarrow> bytes) \<Rightarrow> pipe \<Rightarrow> pipe \<Rightarrow> bytes list \<Rightarrow> diff list \<times> bool" where
  "compareBatch canon cs ct keys =
     (let typeCmds = map (\<lambda>k. [''TYPE'', k]) keys
      in case cs typeCmds of
           None \<Rightarrow> ([], False)
         | Some tsS \<Rightarrow>
             (case ct typeCmds of
                None \<Rightarrow> ([], False)
              | Some tsT \<Rightarrow>
                  let typed = zip keys (zip tsS tsT);
                      d1 = concat (map (\<lambda>(k, s, t). type_diff k s t) typed);
                      live = filter (\<lambda>(k, s, t). live_read k s t \<noteq> None) typed;
                      cmds = map (\<lambda>(k, s, t). the (live_read k s t)) live
                  in case cs cmds of
                       None \<Rightarrow> (d1, False)
                     | Some vs \<Rightarrow>
                         (case ct cmds of
                            None \<Rightarrow> (d1, False)
                          | Some vt \<Rightarrow>
                              (d1 @ concat (map (\<lambda>((k, s, t), v, w). value_diff canon k (val_S s) v w) (zip live (zip vs vt))), True))))"

function compare_batches :: "(bytes \<Rightarrow> bytes) \<Rightarrow> pipe \<Rightarrow> pipe \<Rightarrow> bytes list \<Rightarrow> diff list" where
  "compare_batches canon cs ct keys =
     (if keys = [] then []
      else case compareBatch canon cs ct (take 100 keys) of
             (ds, True) \<Rightarrow> ds @ compare_batches canon cs ct (drop 100 keys)
           | (ds, False) \<Rightarrow> ds @ [\<lparr>d_Key = keys ! 0, d_Kind = ''batch-err'', d_Src = [], d_Tgt = []\<rparr>])"
  by pat_completeness auto
termination
  by (relation "measure (\<lambda>(canon, cs, ct, keys). length keys)") auto

declare compare_batches.simps [simp del]

text \<open>A worker: \<open>None\<close> where the connection to the source or to the target cannot be opened.\<close>

definition compare_worker :: "(bytes \<Rightarrow> bytes) \<Rightarrow> pipe option \<Rightarrow> pipe option \<Rightarrow> bytes list \<Rightarrow> diff list" where
  "compare_worker canon dialS dialT keys =
     (case dialS of
        None \<Rightarrow> [\<lparr>d_Key = [], d_Kind = ''dial-src'', d_Src = [], d_Tgt = []\<rparr>]
      | Some cs \<Rightarrow>
          (case dialT of
             None \<Rightarrow> [\<lparr>d_Key = [], d_Kind = ''dial-tgt'', d_Src = [], d_Tgt = []\<rparr>]
           | Some ct \<Rightarrow> compare_batches canon cs ct keys))"

section \<open>The program\<close>

definition perWorker :: "nat \<Rightarrow> nat \<Rightarrow> nat" where
  "perWorker n workers = (n + workers - 1) div workers"

definition worker_slice :: "bytes list \<Rightarrow> nat \<Rightarrow> nat \<Rightarrow> bytes list" where
  "worker_slice common per w = (let lo = w * per; hi = min (lo + per) (length common) in take (hi - lo) (drop lo common))"

text \<open>The workers are started until one has no keys.\<close>

definition worker_slices :: "bytes list \<Rightarrow> nat \<Rightarrow> bytes list list" where
  "worker_slices common workers =
     takeWhile (\<lambda>ks. ks \<noteq> []) (map (worker_slice common (perWorker (length common) workers)) [0..<workers])"

definition value_diffs :: "diff list \<Rightarrow> nat" where
  "value_diffs ds = length (filter (\<lambda>d. d_Kind d \<notin> {''batch-err'', ''dial-src'', ''dial-tgt''}) ds)"

definition compare_passes :: "(bytes \<Rightarrow> bytes) \<Rightarrow> (nat \<Rightarrow> pipe option) \<Rightarrow> (nat \<Rightarrow> pipe option) \<Rightarrow> nat \<Rightarrow> bytes list \<Rightarrow> bytes list \<Rightarrow> bool" where
  "compare_passes canon dialS dialT workers src tgt =
     (let onlySrc = sort_strings (filter (\<lambda>k. k \<notin> set tgt) src);
          common = sort_strings (filter (\<lambda>k. k \<in> set tgt) src);
          onlyTgt = sort_strings (filter (\<lambda>k. k \<notin> set src) tgt);
          slices = worker_slices common workers;
          diffs = concat (map (\<lambda>(w, ks). compare_worker canon (dialS w) (dialT w) ks) (enumerate 0 slices))
      in \<not> (value_diffs diffs > 0 \<or> onlySrc \<noteq> [] \<or> onlyTgt \<noteq> []))"

section \<open>Every key is compared once\<close>

lemma take_slices:
  "concat (map (worker_slice xs per) [0..<w]) = take (w * per) xs"
proof (induction w)
  case (Suc w)
  have "worker_slice xs per w = take per (drop (w * per) xs)"
    by (simp add: worker_slice_def Let_def min_def)
  then show ?case using Suc take_add [of "w * per" per xs] by (simp add: add.commute)
qed simp

lemma perWorker_covers: "0 < w \<Longrightarrow> n \<le> w * perWorker n w"
proof -
  assume w: "0 < w"
  let ?q = "(n + w - 1) div w"
  have "n + w - 1 = w * ?q + (n + w - 1) mod w" by simp
  moreover have "(n + w - 1) mod w < w" using w by simp
  ultimately have "n + w - 1 < w * ?q + w" by linarith
  then show ?thesis using w by (simp add: perWorker_def)
qed

lemma worker_slice_take: "worker_slice xs per w = take per (drop (w * per) xs)"
  by (simp add: worker_slice_def Let_def min_def)

lemma worker_slice_empty: "worker_slice xs per w = [] \<Longrightarrow> w \<le> v \<Longrightarrow> worker_slice xs per v = []"
proof -
  assume e: "worker_slice xs per w = []" and v: "w \<le> v"
  have "w * per \<le> v * per" using v by (rule mult_le_mono1)
  then have "length xs \<le> v * per" if "length xs \<le> w * per" using that by (rule le_trans [rotated])
  then show ?thesis using e by (auto simp: worker_slice_take)
qed

lemma concat_takeWhile:
  "sorted_wrt (\<lambda>xs ys. xs = [] \<longrightarrow> ys = []) xss \<Longrightarrow> concat (takeWhile (\<lambda>xs. xs \<noteq> []) xss) = concat xss"
  by (induction xss) (auto simp: concat_eq_Nil_conv)

lemma worker_slices_concat:
  assumes "0 < workers"
  shows "concat (worker_slices common workers) = common"
proof -
  let ?per = "perWorker (length common) workers"
  have "sorted_wrt (\<lambda>xs ys. xs = [] \<longrightarrow> ys = []) (map (worker_slice common ?per) [0..<workers])"
    using worker_slice_empty [of common ?per] by (auto simp: sorted_wrt_map sorted_wrt_iff_nth_less)
  then show ?thesis using perWorker_covers [OF assms, of "length common"]
    by (simp add: worker_slices_def concat_takeWhile take_slices)
qed

section \<open>The verdict\<close>

text \<open>Servers that answer every command, with \<open>f\<close> and \<open>g\<close>.\<close>

definition answers :: "(bytes list \<Rightarrow> Val) \<Rightarrow> pipe" where
  "answers f cmds = Some (map f cmds)"

definition same_value :: "(bytes \<Rightarrow> bytes) \<Rightarrow> (bytes list \<Rightarrow> Val) \<Rightarrow> (bytes list \<Rightarrow> Val) \<Rightarrow> bytes \<Rightarrow> bool" where
  "same_value canon f g k \<longleftrightarrow>
     (let typ = val_S (f [''TYPE'', k])
      in typ = val_S (g [''TYPE'', k]) \<and>
         (typ = ''none'' \<or>
          (case readFor typ k of
             None \<Rightarrow> False
           | Some rc \<Rightarrow> if typ = ''string'' then strEq (f rc) (g rc) else arrEq canon typ (f rc) (g rc))))"

lemma value_diffs_simps [simp]:
  "value_diffs [] = 0" "value_diffs (xs @ ys) = value_diffs xs + value_diffs ys"
  "value_diffs (concat xss) = sum_list (map value_diffs xss)"
  by (simp_all add: value_diffs_def filter_concat length_concat comp_def) (induction xss, simp_all add: value_diffs_def)

definition key_diffs :: "(bytes \<Rightarrow> bytes) \<Rightarrow> (bytes list \<Rightarrow> Val) \<Rightarrow> (bytes list \<Rightarrow> Val) \<Rightarrow> bytes \<Rightarrow> diff list" where
  "key_diffs canon f g k =
     (let s = f [''TYPE'', k]; t = g [''TYPE'', k]
      in type_diff k s t @ (case live_read k s t of None \<Rightarrow> [] | Some rc \<Rightarrow> value_diff canon k (val_S s) (f rc) (g rc)))"

lemma readFor_types: "readFor typ k = Some rc \<Longrightarrow> typ \<in> {''string'', ''hash'', ''set'', ''zset'', ''list''}"
  by (auto simp: readFor_def split: if_splits)

lemma key_diffs_same: "value_diffs (key_diffs canon f g k) = 0 \<longleftrightarrow> same_value canon f g k"
  using readFor_types [of "val_S (f [''TYPE'', k])" k]
  by (auto simp: key_diffs_def same_value_def Let_def type_diff_def live_read_def value_diff_def value_diffs_def split: option.splits)

lemma zip_same: "zip xs (zip (map f xs) (map g xs)) = map (\<lambda>x. (x, f x, g x)) xs"
  by (induction xs) simp_all

lemma sum_live:
  "sum_list (map (\<lambda>x. n x + (case h x of None \<Rightarrow> 0 | Some rc \<Rightarrow> m x rc)) xs) =
     sum_list (map n xs) + sum_list (map (\<lambda>x. m x (the (h x))) (filter (\<lambda>x. h x \<noteq> None) xs))" for n :: "'a \<Rightarrow> nat"
  by (induction xs) (auto split: option.split)

lemma compareBatch_answers:
  "\<exists>ds. compareBatch canon (answers f) (answers g) keys = (ds, True) \<and>
     value_diffs ds = sum_list (map (\<lambda>k. value_diffs (key_diffs canon f g k)) keys)"
proof -
  let ?rd = "\<lambda>k. live_read k (f [''TYPE'', k]) (g [''TYPE'', k])"
  let ?live = "filter (\<lambda>k. ?rd k \<noteq> None) keys"
  let ?cmds = "map (\<lambda>k. the (?rd k)) ?live"
  let ?d1 = "concat (map (\<lambda>k. type_diff k (f [''TYPE'', k]) (g [''TYPE'', k])) keys)"
  let ?d2 = "concat (map (\<lambda>k. value_diff canon k (val_S (f [''TYPE'', k])) (f (the (?rd k))) (g (the (?rd k)))) ?live)"
  have z: "zip (map h xs) (zip (map p xs) (map q xs)) = map (\<lambda>x. (h x, p x, q x)) xs"
    for h :: "bytes \<Rightarrow> bytes \<times> Val \<times> Val" and p q :: "bytes \<Rightarrow> Val" and xs
    by (induction xs) simp_all
  have "compareBatch canon (answers f) (answers g) keys = (?d1 @ ?d2, True)"
    by (simp add: compareBatch_def answers_def Let_def zip_same filter_map comp_def z)
  moreover have "value_diffs (?d1 @ ?d2) = sum_list (map (\<lambda>k. value_diffs (key_diffs canon f g k)) keys)"
    using sum_live [where n = "\<lambda>k. value_diffs (type_diff k (f [''TYPE'', k]) (g [''TYPE'', k]))" and h = ?rd
      and m = "\<lambda>k rc. value_diffs (value_diff canon k (val_S (f [''TYPE'', k])) (f rc) (g rc))" and xs = keys]
    by (simp add: key_diffs_def Let_def comp_def option.case_distrib [of value_diffs] cong: option.case_cong)
  ultimately show ?thesis by blast
qed

lemma compare_batches_answers:
  "value_diffs (compare_batches canon (answers f) (answers g) keys) = 0 \<longleftrightarrow> (\<forall>k \<in> set keys. same_value canon f g k)"
proof (induction "length keys" arbitrary: keys rule: less_induct)
  case less
  show ?case
  proof (cases "keys = []")
    case False
    obtain ds where ds: "compareBatch canon (answers f) (answers g) (take 100 keys) = (ds, True)"
      "value_diffs ds = sum_list (map (\<lambda>k. value_diffs (key_diffs canon f g k)) (take 100 keys))"
      using compareBatch_answers by blast
    have "value_diffs ds = 0 \<longleftrightarrow> (\<forall>k \<in> set (take 100 keys). same_value canon f g k)"
      using ds(2) by (simp add: key_diffs_same)
    moreover have "set keys = set (take 100 keys) \<union> set (drop 100 keys)" by (metis append_take_drop_id set_append)
    ultimately show ?thesis
      using less [of "drop 100 keys"] False ds(1) compare_batches.simps [of canon "answers f" "answers g" keys] by auto
  qed (simp add: compare_batches.simps)
qed

text \<open>
  With every connection up and the servers answering, the verdict is right: the comparison passes
  exactly when both servers have the same keys and every key has the same type and an equal value
  on both. Each common key is compared by exactly one worker.
\<close>
theorem compare_verdict:
  assumes "0 < workers" "\<And>w. dialS w = Some (answers f)" "\<And>w. dialT w = Some (answers g)"
  shows "(compare_passes canon dialS dialT workers src tgt \<longleftrightarrow> set src = set tgt \<and> (\<forall>k \<in> set src. same_value canon f g k)) \<and>
    concat (worker_slices (sort_strings src) workers) = sort_strings src"
proof -
  have e: "map (\<lambda>(w, ks). h ks) (enumerate n xss) = map h xss" for h :: "bytes list \<Rightarrow> diff list" and xss n
    by (induction xss arbitrary: n) simp_all
  have v: "value_diffs (concat (map (\<lambda>(w, ks). compare_worker canon (dialS w) (dialT w) ks) (enumerate 0 (worker_slices common workers)))) = 0 \<longleftrightarrow>
      (\<forall>k \<in> set common. same_value canon f g k)" for common
  proof -
    have "set common = (\<Union>ks \<in> set (worker_slices common workers). set ks)"
      by (metis worker_slices_concat [OF assms(1)] set_concat)
    then show ?thesis by (simp add: compare_worker_def assms(2,3) e comp_def compare_batches_answers del: value_diffs_simps(3)) (auto simp: compare_batches_answers)
  qed
  have s: "sort_strings xs = [] \<longleftrightarrow> (\<forall>x \<in> set xs. False)" for xs
    by (metis length_0_conv length_sort list.set(1) empty_iff last_in_set)
  show ?thesis using v worker_slices_concat [OF assms(1)]
    by (auto simp: compare_passes_def Let_def s simp del: value_diffs_simps(3))
qed

section \<open>What equal means\<close>

definition wordy :: "bytes \<Rightarrow> bool" where
  "wordy x \<longleftrightarrow> x \<noteq> [] \<and> CHR '' '' \<notin> set x"

lemma spaced_head:
  assumes "wordy x"
  shows "takeWhile (\<lambda>c. c \<noteq> CHR '' '') (spaced (x # xs)) = x" "drop (Suc (length x)) (spaced (x # xs)) = spaced xs"
  using assms by (cases xs; auto simp: wordy_def takeWhile_tail)+

lemma spaced_inj: "list_all wordy xs \<Longrightarrow> list_all wordy ys \<Longrightarrow> spaced xs = spaced ys \<Longrightarrow> xs = ys"
proof (induction xs arbitrary: ys)
  case Nil
  then show ?case by (cases ys rule: spaced.cases) (auto simp: wordy_def)
next
  case (Cons x xs)
  have "spaced (x # xs) \<noteq> []" using Cons.prems(1) by (cases xs) (auto simp: wordy_def)
  then obtain y zs where y: "ys = y # zs" using Cons.prems(3) by (cases ys) auto
  have "x = y" using spaced_head(1) [of x xs] spaced_head(1) [of y zs] Cons.prems y by simp
  moreover from this have "spaced xs = spaced zs" using spaced_head(2) [of x xs] spaced_head(2) [of y zs] Cons.prems y by simp
  ultimately show ?case using Cons.IH [of zs] Cons.prems y by simp
qed

lemma sort_mset: "sort xs = sort ys \<longleftrightarrow> mset xs = mset ys"
proof
  show "sort xs = sort ys \<Longrightarrow> mset xs = mset ys" by (metis mset_sort)
  show "mset xs = mset ys \<Longrightarrow> sort xs = sort ys"
    using sorted_list_of_multiset_mset [of xs] sorted_list_of_multiset_mset [of ys] by simp
qed

text \<open>
  Lists and sets without blanks are compared exactly: two lists are equal for the comparison only
  if they have the same elements in the same order, two sets only if they have the same members.
\<close>
theorem arrEq_exact:
  assumes "list_all wordy (map val_S vs)" "list_all wordy (map val_S ws)"
  shows "(arrEq canon ''list'' (EArr vs) (EArr ws) \<longleftrightarrow> map val_S vs = map val_S ws) \<and>
    (arrEq canon ''set'' (EArr vs) (EArr ws) \<longleftrightarrow> mset (map val_S vs) = mset (map val_S ws))"
proof -
  have l: "spaced (map val_S vs) = spaced (map val_S ws) \<longleftrightarrow> map val_S vs = map val_S ws"
    using spaced_inj [OF assms] by auto
  have "list_all wordy (sort_strings (map val_S vs))" "list_all wordy (sort_strings (map val_S ws))"
    using assms by (simp_all add: list_all_iff)
  then have "spaced (sort_strings (map val_S vs)) = spaced (sort_strings (map val_S ws)) \<longleftrightarrow> sort_strings (map val_S vs) = sort_strings (map val_S ws)"
    using spaced_inj by auto
  moreover have "sort_strings (map val_S vs) = sort_strings (map val_S ws) \<longleftrightarrow> mset (map val_S vs) = mset (map val_S ws)"
    by (rule sort_mset)
  ultimately show ?thesis using l by (simp add: arrEq_def norm_def norm_items_def)
qed

theorem arrEq_exact_witness:
  "arrEq id ''set'' (EArr [EBulk ''b'', EBulk ''a'']) (EArr [EBulk ''a'', EBulk ''b'']) \<and>
   \<not> arrEq id ''list'' (EArr [EBulk ''b'', EBulk ''a'']) (EArr [EBulk ''a'', EBulk ''b''])"
  using arrEq_exact [of "[EBulk ''b'', EBulk ''a'']" "[EBulk ''a'', EBulk ''b'']" id] by (simp add: wordy_def)

text \<open>
  Different values can be equal for the comparison: elements are joined by blanks, an empty list
  reads like a list of one empty element, and a field and its value are joined by an equals sign.
\<close>
theorem arrEq_collides:
  "arrEq canon ''list'' (EArr [EBulk ''a b'']) (EArr [EBulk ''a'', EBulk ''b'']) \<and>
   arrEq canon ''list'' (EArr [EBulk []]) (EArr []) \<and>
   arrEq canon ''hash'' (EArr [EBulk ''a=b'', EBulk ''c'']) (EArr [EBulk ''a'', EBulk ''b=c''])"
  by (simp add: arrEq_def norm_def norm_items_def)

text \<open>
  A lost connection is not a difference: with the keys scanned and every later connection to the
  target refused, the comparison passes whatever the values are.
\<close>
theorem compare_passes_unreachable:
  "compare_passes canon (\<lambda>w. Some cs) (\<lambda>w. None) workers src src"
proof -
  have "value_diffs (compare_worker canon (Some cs) None ks) = 0" for ks by (simp add: compare_worker_def value_diffs_def)
  then show ?thesis by (simp add: compare_passes_def Let_def case_prod_beta)
qed

theorem compare_verdict_witness:
  "\<not> compare_passes id (\<lambda>w. Some (answers (\<lambda>c. if c ! 0 = ''TYPE'' then ESimple ''string'' else EBulk ''x'')))
      (\<lambda>w. Some (answers (\<lambda>c. if c ! 0 = ''TYPE'' then ESimple ''string'' else EBulk ''y''))) 2 [''k''] [''k'']"
proof -
  let ?f = "\<lambda>c :: bytes list. if c ! 0 = ''TYPE'' then ESimple ''string'' else EBulk ''x''"
  let ?g = "\<lambda>c :: bytes list. if c ! 0 = ''TYPE'' then ESimple ''string'' else EBulk ''y''"
  have "\<not> same_value id ?f ?g ''k''" by (simp add: same_value_def readFor_def strEq_def)
  then show ?thesis
    using compare_verdict [of 2 "\<lambda>w. Some (answers ?f)" ?f "\<lambda>w. Some (answers ?g)" ?g id "[''k'']" "[''k'']"] by auto
qed

end
