(* ===== verification/Load.thy ===== *)
theory Load
  imports GoStd
begin

text \<open>
  The data set loader \<^verbatim>\<open>cmd/pikatool/load.go\<close>: the commands it writes for every key, the windows of
  keys each worker claims, and what a worker and the whole command report. Flags are the fields of
  \<open>load_cfg\<close>; what a pipeline of commands is answered is an argument. Progress lines are left out.
\<close>

section \<open>Commands\<close>

record load_cfg =
  lc_keys :: int
  lc_workers :: int
  lc_batch :: int
  lc_prefix :: bytes
  lc_vsize :: nat
  lc_hashEvery :: int
  lc_listEvery :: int
  lc_setEvery :: int
  lc_zsetEvery :: int

text \<open>
  The digits are appended into the value's own array, which the filler then completes. Digits that
  do not fit are appended to a new array, and the value stays as it was made, all zero.
\<close>

definition load_val :: "nat \<Rightarrow> int \<Rightarrow> bytes" where
  "load_val vsize k =
     (let b = format_uint (nat (k mod 2 ^ 64))
      in if length b \<le> vsize then b @ replicate (vsize - length b) CHR ''x'' else replicate vsize CHR 0x00)"

definition valSuffix :: "int \<Rightarrow> char \<Rightarrow> bytes" where
  "valSuffix k tag = tag # format_int k"

definition due :: "int \<Rightarrow> int \<Rightarrow> bool" where
  "due every k \<longleftrightarrow> every > 0 \<and> k mod every = 0"

definition load_key :: "load_cfg \<Rightarrow> int \<Rightarrow> bytes" where
  "load_key cfg k = lc_prefix cfg @ format_int k"

definition key_cmds :: "load_cfg \<Rightarrow> int \<Rightarrow> bytes list list" where
  "key_cmds cfg k =
     (let key = load_key cfg k;
          d = format_int k
      in (if \<not> due (lc_hashEvery cfg) k then [[''SET'', key, load_val (lc_vsize cfg) k]]
          else [[''HSET'', ''h'' @ key, ''f1'', load_val (lc_vsize cfg) k], [''HSET'', ''h'' @ key, ''f2'', valSuffix k CHR ''f'']]) @
         (if due (lc_listEvery cfg) k then [[''RPUSH'', ''l'' @ key, ''L'' @ d @ ''0'', ''L'' @ d @ ''1'', ''L'' @ d @ ''2'']] else []) @
         (if due (lc_setEvery cfg) k then [[''SADD'', ''s'' @ key, ''S'' @ d @ ''0'', ''S'' @ d @ ''1'', ''S'' @ d @ ''2'']] else []) @
         (if due (lc_zsetEvery cfg) k then [[''ZADD'', ''z'' @ key, ''1'', ''Z'' @ d @ ''1'', ''2'', ''Z'' @ d @ ''2'', ''3'', ''Z'' @ d @ ''3'']] else []))"

section \<open>Windows\<close>

definition load_workers :: "load_cfg \<Rightarrow> int" where
  "load_workers cfg = (if lc_workers cfg > lc_keys cfg then lc_keys cfg else lc_workers cfg)"

text \<open>The windows of keys a worker claims, from round \<open>r\<close> on. The loop has no other end than the last key.\<close>

partial_function (option) load_windows :: "int \<Rightarrow> int \<Rightarrow> int \<Rightarrow> int \<Rightarrow> (int \<times> int) list option" where
  "load_windows keys batch w r =
     (let lo = wrap64 (r * batch)
      in if lo \<ge> keys then Some []
         else let hi = wrap64 (lo + batch);
                  hi = (if hi > keys then keys else hi)
              in Option.bind (load_windows keys batch w (wrap64 (r + w))) (\<lambda>ws. Some ((lo, hi) # ws)))"

definition window_keys :: "(int \<times> int) list \<Rightarrow> int list" where
  "window_keys ws = concat (map (\<lambda>(lo, hi). [lo..hi - 1]) ws)"

section \<open>Workers\<close>

text \<open>
  The answer to a pipeline is an error of the connection (\<open>None\<close>) or a flag for each reply that says
  whether it is an error. The result is the keys written and whether the worker reported an error.
  \<open>cancelled\<close> says after which window the context is found cancelled.
\<close>

fun load_worker :: "load_cfg \<Rightarrow> (bytes list list \<Rightarrow> bool list option) \<Rightarrow> ((int \<times> int) \<Rightarrow> bool) \<Rightarrow> (int \<times> int) list \<Rightarrow> int list \<times> bool" where
  "load_worker cfg answer cancelled [] = ([], False)"
| "load_worker cfg answer cancelled ((lo, hi) # ws) =
     (case answer (concat (map (key_cmds cfg) [lo..hi - 1])) of
        None \<Rightarrow> ([], True)
      | Some es \<Rightarrow>
          if True \<in> set es then ([], True)
          else if cancelled (lo, hi) then ([lo..hi - 1], False)
          else case load_worker cfg answer cancelled ws of (ks, e) \<Rightarrow> ([lo..hi - 1] @ ks, e))"

text \<open>The command succeeds unless some worker reported an error.\<close>

definition load_success :: "(int list \<times> bool) list \<Rightarrow> bool" where
  "load_success results = (\<not> (\<exists>r \<in> set results. snd r))"

section \<open>Every key is claimed once\<close>

definition claimed :: "int \<Rightarrow> int \<Rightarrow> int \<Rightarrow> int \<Rightarrow> int set" where
  "claimed keys batch w r = {k. 0 \<le> k \<and> k < keys \<and> r \<le> k div batch \<and> w dvd k div batch - r}"

lemma claimed_step:
  assumes "0 < batch" "0 < w" "0 \<le> r" "r * batch < keys"
  shows "claimed keys batch w r = {r * batch..<min (r * batch + batch) keys} \<union> claimed keys batch w (r + w)"
    "{r * batch..<min (r * batch + batch) keys} \<inter> claimed keys batch w (r + w) = {}"
proof -
  have q: "k div batch = r \<longleftrightarrow> r * batch \<le> k \<and> k < r * batch + batch" for k
  proof
    assume "k div batch = r"
    then have "r * batch + k mod batch = k" using div_mult_mod_eq [of k batch] by simp
    moreover have "0 \<le> k mod batch" "k mod batch < batch" using assms(1) by simp_all
    ultimately show "r * batch \<le> k \<and> k < r * batch + batch" by simp
  next
    assume "r * batch \<le> k \<and> k < r * batch + batch"
    then show "k div batch = r" by (intro int_div_pos_eq [of _ _ _ "k - r * batch"]) (auto simp: mult.commute)
  qed
  have d: "r \<le> q \<and> w dvd q - r \<longleftrightarrow> q = r \<or> r + w \<le> q \<and> w dvd q - (r + w)" for q
  proof -
    have "q - (r + w) = q - r + - 1 * w" by simp
    then have "w dvd q - (r + w) \<longleftrightarrow> w dvd q - r" by (metis dvd_add_times_triv_right_iff)
    then show ?thesis using assms(2) zdvd_imp_le [of w "q - r"] by auto
  qed
  have nn: "0 \<le> r * batch" using assms by simp
  show "claimed keys batch w r = {r * batch..<min (r * batch + batch) keys} \<union> claimed keys batch w (r + w)"
  proof (rule set_eqI)
    fix k
    show "k \<in> claimed keys batch w r \<longleftrightarrow> k \<in> {r * batch..<min (r * batch + batch) keys} \<union> claimed keys batch w (r + w)"
      using d [of "k div batch"] q [of k] nn by (simp add: claimed_def) linarith
  qed
  show "{r * batch..<min (r * batch + batch) keys} \<inter> claimed keys batch w (r + w) = {}"
  proof (rule equals0I)
    fix k
    assume k: "k \<in> {r * batch..<min (r * batch + batch) keys} \<inter> claimed keys batch w (r + w)"
    then have "k div batch = r" using q [of k] by simp
    then show False using k assms(2) by (simp add: claimed_def)
  qed
qed

lemma claimed_done: "0 < batch \<Longrightarrow> keys \<le> r * batch \<Longrightarrow> claimed keys batch w r = {}"
proof -
  assume a: "0 < batch" "keys \<le> r * batch"
  have "k div batch < r" if "k < keys" for k
  proof -
    have "k div batch * batch \<le> k" using a(1) div_mult_mod_eq [of k batch] pos_mod_sign [OF a(1), of k] by linarith
    then have "k div batch * batch < r * batch" using that a(2) by linarith
    then show ?thesis using a(1) by (simp add: mult_less_cancel_right)
  qed
  then show ?thesis by (fastforce simp: claimed_def)
qed

lemma window_keys_Cons: "window_keys ((lo, hi) # ws) = [lo..hi - 1] @ window_keys ws"
  by (simp add: window_keys_def)

lemma set_window: "set [lo..hi - 1] = {lo..<hi}" for lo hi :: int
  by auto

lemma load_windows_claim:
  assumes "0 < batch" "0 < w" "0 \<le> r" "r < keys + w" "keys * batch + w * batch + batch \<le> max_int64"
  shows "\<exists>ws. load_windows keys batch w r = Some ws \<and> set (window_keys ws) = claimed keys batch w r \<and> distinct (window_keys ws)"
  using assms(3,4)
proof (induction "nat (keys - r * batch)" arbitrary: r rule: less_induct)
  case less
  have "r * batch \<le> (keys + w) * batch" using less.prems assms(1) by (intro mult_right_mono) simp_all
  then have le: "r * batch + batch \<le> max_int64" using assms(5) by (simp add: distrib_right)
  have nn: "0 \<le> r * batch" using less.prems assms(1) by simp
  have lo: "wrap64 (r * batch) = r * batch" "wrap64 (r * batch + batch) = r * batch + batch"
    using le nn assms(1) by (intro wrap64_id; simp)+
  show ?case
  proof (cases "keys \<le> r * batch")
    case True
    then show ?thesis using claimed_done [OF assms(1) True, of w] lo by (subst load_windows.simps) (simp add: Let_def window_keys_def)
  next
    case False
    have "r \<le> r * batch" using less.prems(1) assms(1) mult_left_mono [of 1 batch r] by simp
    then have r: "r + w < keys + w" using False by simp
    have "keys \<le> keys * batch" using False nn assms(1) mult_left_mono [of 1 batch keys] by simp
    moreover have "w \<le> w * batch" using assms(1,2) mult_left_mono [of 1 batch w] by simp
    ultimately have "r + w \<le> max_int64" using r assms(1,5) by linarith
    then have rw: "wrap64 (r + w) = r + w" using less.prems assms(2) by (intro wrap64_id) simp_all
    have "0 < w * batch" using assms(1,2) by simp
    then have "nat (keys - (r + w) * batch) < nat (keys - r * batch)" using False by (simp add: distrib_right)
    from less.hyps [OF this] less.prems r assms(2) obtain ws where ws: "load_windows keys batch w (r + w) = Some ws"
      "set (window_keys ws) = claimed keys batch w (r + w)" "distinct (window_keys ws)" by auto
    let ?hi = "min (r * batch + batch) keys"
    have run: "load_windows keys batch w r = Some ((r * batch, ?hi) # ws)"
      using False lo rw ws(1) by (subst load_windows.simps) (simp add: Let_def min_def)
    have "r * batch < keys" using False by simp
    note st = claimed_step [OF assms(1,2) less.prems(1) this]
    have "set (window_keys ((r * batch, ?hi) # ws)) = claimed keys batch w r" "distinct (window_keys ((r * batch, ?hi) # ws))"
      unfolding window_keys_Cons set_append distinct_append set_window using st ws(2,3) by auto
    then show ?thesis using run by blast
  qed
qed

lemma distinct_concat_map:
  "distinct is \<Longrightarrow> (\<And>i. i \<in> set is \<Longrightarrow> distinct (f i)) \<Longrightarrow>
     (\<And>i j. i \<in> set is \<Longrightarrow> j \<in> set is \<Longrightarrow> i \<noteq> j \<Longrightarrow> set (f i) \<inter> set (f j) = {}) \<Longrightarrow> distinct (concat (map f is))"
  by (induction "is") fastforce+

text \<open>
  C23. The stripes of the workers cover the data set: every worker's loop ends, and over all workers
  every key from zero to the number of keys is claimed, by exactly one worker and once.
\<close>
theorem load_claims_every_key_once:
  assumes "0 < lc_batch cfg" "0 < lc_workers cfg" "0 < lc_keys cfg"
    and "lc_keys cfg * lc_batch cfg + load_workers cfg * lc_batch cfg + lc_batch cfg \<le> max_int64"
  shows "\<exists>claims. map Some claims = map (load_windows (lc_keys cfg) (lc_batch cfg) (load_workers cfg)) [0..load_workers cfg - 1] \<and>
    distinct (concat (map window_keys claims)) \<and> set (concat (map window_keys claims)) = {0..<lc_keys cfg}"
proof -
  let ?w = "load_workers cfg" and ?n = "lc_keys cfg" and ?b = "lc_batch cfg"
  have w: "0 < ?w" using assms(2,3) by (simp add: load_workers_def)
  define ws where "ws i = the (load_windows ?n ?b ?w i)" for i
  have one: "load_windows ?n ?b ?w i = Some (ws i) \<and> set (window_keys (ws i)) = claimed ?n ?b ?w i \<and> distinct (window_keys (ws i))"
    if "0 \<le> i" "i < ?w" for i
  proof -
    have "i < ?n + ?w" using that assms(3) by linarith
    from load_windows_claim [OF assms(1) w that(1) this assms(4)] show ?thesis unfolding ws_def by fastforce
  qed
  have cl: "k \<in> claimed ?n ?b ?w i \<longleftrightarrow> 0 \<le> k \<and> k < ?n \<and> i = k div ?b mod ?w" if "0 \<le> i" "i < ?w" for i k
  proof -
    have "i \<le> q \<and> ?w dvd q - i \<longleftrightarrow> i = q mod ?w" if "0 \<le> q" for q
    proof -
      have "q mod ?w \<le> q" using that w by (simp add: zmod_le_nonneg_dividend)
      moreover have "?w dvd q - i \<longleftrightarrow> q mod ?w = i" using \<open>0 \<le> i\<close> \<open>i < ?w\<close> by (simp flip: mod_eq_dvd_iff)
      ultimately show ?thesis by auto
    qed
    moreover have "0 \<le> k \<Longrightarrow> 0 \<le> k div ?b" using assms(1) by (simp add: pos_imp_zdiv_nonneg_iff)
    ultimately show ?thesis by (auto simp: claimed_def)
  qed
  let ?cs = "map ws [0..?w - 1]"
  have "map Some ?cs = map (load_windows ?n ?b ?w) [0..?w - 1]" using one by auto
  moreover have "set (concat (map window_keys ?cs)) = {0..<?n}" using one cl w by auto
  moreover have "distinct (concat (map (\<lambda>i. window_keys (ws i)) [0..?w - 1]))"
    using one cl by (intro distinct_concat_map) auto
  ultimately show ?thesis by (intro exI [of _ ?cs]) (simp add: comp_def)
qed

text \<open>A server that takes every command.\<close>

definition accepts :: "bytes list list \<Rightarrow> bool list option" where
  "accepts cmds = Some (map (\<lambda>c. False) cmds)"

lemma load_worker_writes: "load_worker cfg accepts (\<lambda>w. False) ws = (window_keys ws, False)"
  by (induction ws) (auto simp: accepts_def window_keys_def)

text \<open>
  Uninterrupted, a worker writes the commands of exactly the keys it claimed. Cancelled, it stops
  after the window at hand without an error, and the command reports the whole data set as loaded.
\<close>
theorem load_cancelled_reports_success:
  "load_worker cfg accepts (\<lambda>w. False) ws = (window_keys ws, False) \<and>
   load_worker cfg accepts (\<lambda>w. True) ((lo, hi) # ws) = ([lo..hi - 1], False) \<and>
   load_success (map (load_worker cfg accepts (\<lambda>w. True)) wss)"
proof -
  have "snd (load_worker cfg accepts (\<lambda>w. True) c) = False" for c
    by (cases c) (auto simp: accepts_def)
  then show ?thesis using load_worker_writes [of cfg ws] by (auto simp: load_success_def accepts_def)
qed

definition demo_load :: load_cfg where
  "demo_load = \<lparr>lc_keys = 5, lc_workers = 2, lc_batch = 2, lc_prefix = ''b:'', lc_vsize = 4, lc_hashEvery = 0, lc_listEvery = 0,
     lc_setEvery = 0, lc_zsetEvery = 0\<rparr>"

theorem load_claims_every_key_once_witness:
  "\<exists>claims. map Some claims = map (load_windows 5 2 2) [0..1] \<and>
     distinct (concat (map window_keys claims)) \<and> set (concat (map window_keys claims)) = {0..<5}"
  using load_claims_every_key_once [of demo_load] by (simp add: demo_load_def load_workers_def max_int64_def)

lemma load_val_length: "length (load_val vsize k) = vsize"
  by (simp add: load_val_def Let_def)

text \<open>
  A value is as long as asked for; with room for its digits it starts with the key's number, without
  it is all zero bytes, the same for every such key.
\<close>
theorem load_val_cases:
  assumes "0 \<le> k" "k < 2 ^ 63"
  shows "length (load_val vsize k) = vsize \<and>
    (if length (format_int k) \<le> vsize then take (length (format_int k)) (load_val vsize k) = format_int k
     else load_val vsize k = replicate vsize CHR 0x00)"
proof -
  have "nat (k mod 2 ^ 64) = nat k" using assms by simp
  then show ?thesis using assms load_val_length [of vsize k] by (simp add: load_val_def format_int_def Let_def)
qed

theorem load_val_cases_witness: "load_val 1 42 = [CHR 0x00] \<and> load_val 1 43 = [CHR 0x00]"
proof -
  have "length (format_int 42) = 2" "length (format_int 43) = 2" by code_simp+
  then show ?thesis using load_val_cases [of 42 1] load_val_cases [of 43 1] by simp
qed

end
