(* ===== verification/Mutate.thy ===== *)
theory Mutate
  imports Load
begin

text \<open>
  The write storm \<^verbatim>\<open>cmd/pikatool/mutate.go\<close>: the update workers and the burst of deletes and typed
  operations in the middle of it. The values drawn from the shared counter are arguments, as are
  the answers of the server on an open connection; the clock and the pacing are left out. The theorems show that a
  burst sends all its commands and that it removes only what the loader wrote.
\<close>

section \<open>Pipelines\<close>

record mut_cfg =
  mc_prefix :: bytes
  mc_keys :: int
  mc_del :: int
  mc_hashEvery :: int
  mc_listEvery :: int
  mc_setEvery :: int
  mc_zsetEvery :: int
  mc_newTyped :: int

definition uniq :: "int \<Rightarrow> bytes" where
  "uniq n = (let d = format_int n in ''m'' @ replicate (12 - length d) CHR ''0'' @ d)"

text \<open>Whether to go on, and whether an error was reported: an empty pipeline stops without one.\<close>

definition mut_pipeline :: "(bytes list list \<Rightarrow> bool list option) \<Rightarrow> bytes list list \<Rightarrow> bool \<times> bool" where
  "mut_pipeline answer cmds =
     (if cmds = [] then (False, False)
      else case answer cmds of
             None \<Rightarrow> (False, True)
           | Some es \<Rightarrow> if True \<in> set es then (False, True) else (True, False))"

section \<open>Updates\<close>

definition mut_key :: "mut_cfg \<Rightarrow> int \<Rightarrow> bytes" where
  "mut_key cfg k = mc_prefix cfg @ format_int k"

text \<open>A round of an update worker, with the numbers it drew from the two counters.\<close>

definition upd_cmds :: "mut_cfg \<Rightarrow> (int \<times> int) list \<Rightarrow> bytes list list" where
  "upd_cmds cfg draws =
     concat (map (\<lambda>(s, u). let k = (s - 1) mod mc_keys cfg
                           in if due (mc_hashEvery cfg) k then [] else [[''SET'', mut_key cfg k, uniq u]]) draws)"

text \<open>The rounds a worker completed before the storm ends, and whether it reported an error.\<close>

fun updater :: "mut_cfg \<Rightarrow> (bytes list list \<Rightarrow> bool list option) \<Rightarrow> (int \<times> int) list list \<Rightarrow> nat \<times> bool" where
  "updater cfg answer [] = (0, False)"
| "updater cfg answer (draws # rounds) =
     (case mut_pipeline answer (upd_cmds cfg draws) of
        (True, e) \<Rightarrow> (case updater cfg answer rounds of (n, e') \<Rightarrow> (Suc n, e'))
      | (False, e) \<Rightarrow> (0, e))"

section \<open>The burst\<close>

definition del_groups :: "mut_cfg \<Rightarrow> bytes list list list" where
  "del_groups cfg = map (\<lambda>i. [[''DEL'', mut_key cfg i]]) [mc_keys cfg..mc_keys cfg + mc_del cfg - 1]"

function strided :: "int \<Rightarrow> int \<Rightarrow> int \<Rightarrow> int list" where
  "strided keys step k = (if k \<ge> keys \<or> step \<le> 0 then [] else k # strided keys step (k + step))"
  by pat_completeness auto
termination
  by (relation "measure (\<lambda>(keys, step, k). nat (keys - k))") auto

declare strided.simps [simp del]

definition hash_ops :: "mut_cfg \<Rightarrow> (int \<Rightarrow> bytes) \<Rightarrow> int \<Rightarrow> bytes list list" where
  "hash_ops cfg v k =
     (let hkey = ''h'' @ mut_key cfg k
      in [''HSET'', hkey, ''f3'', v k] # (if (k div mc_hashEvery cfg) mod 2 = 0 then [[''HDEL'', hkey, ''f2'']] else []))"

definition list_ops :: "mut_cfg \<Rightarrow> int \<Rightarrow> bytes list list" where
  "list_ops cfg k =
     (let lkey = ''l'' @ mut_key cfg k
      in [''RPUSH'', lkey, ''L'' @ format_int k @ ''3''] # (if (k div mc_listEvery cfg) mod 2 = 1 then [[''LPOP'', lkey]] else []))"

definition set_ops :: "mut_cfg \<Rightarrow> int \<Rightarrow> bytes list list" where
  "set_ops cfg k =
     (let skey = ''s'' @ mut_key cfg k
      in [''SADD'', skey, ''S'' @ format_int k @ ''9''] #
         (if (k div mc_setEvery cfg) mod 2 = 0 then [[''SREM'', skey, ''S'' @ format_int k @ ''0'']] else []))"

definition zset_ops :: "mut_cfg \<Rightarrow> int \<Rightarrow> bytes list list" where
  "zset_ops cfg k =
     (let zkey = ''z'' @ mut_key cfg k
      in [''ZADD'', zkey, ''9'', ''Z'' @ format_int k @ ''9''] #
         (if (k div mc_zsetEvery cfg) mod 2 = 0 then [[''ZREM'', zkey, ''Z'' @ format_int k @ ''1'']] else []))"

definition typed_groups :: "mut_cfg \<Rightarrow> int \<Rightarrow> (int \<Rightarrow> bytes list list) \<Rightarrow> bytes list list list" where
  "typed_groups cfg step ops = (if step > 0 then map ops (strided (mc_keys cfg) step 0) else [])"

definition newBase :: int where
  "newBase = 2000000000"

definition new_cmd :: "mut_cfg \<Rightarrow> bytes \<Rightarrow> int \<Rightarrow> bytes \<Rightarrow> bytes list" where
  "new_cmd cfg tag i v =
     (let key = tag @ mut_key cfg (newBase + i);
          d = format_int (newBase + i)
      in if tag = ''h'' then [''HSET'', key, ''nf1'', v]
         else if tag = ''l'' then [''RPUSH'', key, ''nL'' @ d @ ''0'', v]
         else if tag = ''s'' then [''SADD'', key, ''nS'' @ d @ ''0'', v]
         else [''ZADD'', key, ''1'', ''nZ'' @ d @ ''0'', ''2'', v])"

definition new_tags :: "mut_cfg \<Rightarrow> bytes list" where
  "new_tags cfg =
     (if mc_hashEvery cfg > 0 then [''h''] else []) @ (if mc_listEvery cfg > 0 then [''l''] else []) @
     (if mc_setEvery cfg > 0 then [''s''] else []) @ (if mc_zsetEvery cfg > 0 then [''z''] else [])"

definition new_groups :: "mut_cfg \<Rightarrow> (bytes \<Rightarrow> int \<Rightarrow> bytes) \<Rightarrow> bytes list list list" where
  "new_groups cfg nv = concat (map (\<lambda>tag. map (\<lambda>i. [new_cmd cfg tag i (nv tag i)]) [0..mc_newTyped cfg - 1]) (new_tags cfg))"

text \<open>The commands waiting, the pipelines sent, and whether an error was reported.\<close>

record bstate =
  bu_cmds :: "bytes list list"
  bu_pipes :: "bytes list list list"
  bu_err :: bool

definition bu_flush :: "(bytes list list \<Rightarrow> bool list option) \<Rightarrow> bstate \<Rightarrow> bool \<times> bstate" where
  "bu_flush answer b =
     (case mut_pipeline answer (bu_cmds b) of
        (ok, e) \<Rightarrow> (ok, b\<lparr>bu_cmds := [], bu_pipes := bu_pipes b @ [bu_cmds b], bu_err := bu_err b \<or> e\<rparr>))"

text \<open>Groups of commands are queued until 1024 wait; a failed pipeline ends the loop.\<close>

fun bu_loop :: "(bytes list list \<Rightarrow> bool list option) \<Rightarrow> bytes list list list \<Rightarrow> bstate \<Rightarrow> bool \<times> bstate" where
  "bu_loop answer [] b = (True, b)"
| "bu_loop answer (g # gs) b =
     (let b1 = b\<lparr>bu_cmds := bu_cmds b @ g\<rparr>
      in if length (bu_cmds b1) \<ge> 1024
         then (case bu_flush answer b1 of (True, b2) \<Rightarrow> bu_loop answer gs b2 | (False, b2) \<Rightarrow> (False, b2))
         else bu_loop answer gs b1)"

text \<open>
  A failure among the deletes or the new keys ends the burst, one among the typed operations only
  those of that type.
\<close>

definition typed_loops :: "mut_cfg \<Rightarrow> (bytes list list \<Rightarrow> bool list option) \<Rightarrow> (int \<Rightarrow> bytes) \<Rightarrow> bstate \<Rightarrow> bstate" where
  "typed_loops cfg answer v b =
     (let b1 = snd (bu_loop answer (typed_groups cfg (mc_hashEvery cfg) (hash_ops cfg v)) b);
          b2 = snd (bu_loop answer (typed_groups cfg (mc_listEvery cfg) (list_ops cfg)) b1);
          b3 = snd (bu_loop answer (typed_groups cfg (mc_setEvery cfg) (set_ops cfg)) b2)
      in snd (bu_loop answer (typed_groups cfg (mc_zsetEvery cfg) (zset_ops cfg)) b3))"

definition burst :: "mut_cfg \<Rightarrow> (bytes list list \<Rightarrow> bool list option) \<Rightarrow> (int \<Rightarrow> bytes) \<Rightarrow> (bytes \<Rightarrow> int \<Rightarrow> bytes) \<Rightarrow> bstate" where
  "burst cfg answer v nv =
     (case bu_loop answer (del_groups cfg) \<lparr>bu_cmds = [], bu_pipes = [], bu_err = False\<rparr> of
        (False, b1) \<Rightarrow> b1
      | (True, b1) \<Rightarrow>
          (case bu_loop answer (new_groups cfg nv) (typed_loops cfg answer v b1) of
             (False, b2) \<Rightarrow> b2
           | (True, b2) \<Rightarrow> if bu_cmds b2 = [] then b2 else snd (bu_flush answer b2)))"

section \<open>A burst is complete\<close>

definition burst_cmds :: "mut_cfg \<Rightarrow> (int \<Rightarrow> bytes) \<Rightarrow> (bytes \<Rightarrow> int \<Rightarrow> bytes) \<Rightarrow> bytes list list" where
  "burst_cmds cfg v nv = concat
     (del_groups cfg @ typed_groups cfg (mc_hashEvery cfg) (hash_ops cfg v) @ typed_groups cfg (mc_listEvery cfg) (list_ops cfg) @
      typed_groups cfg (mc_setEvery cfg) (set_ops cfg) @ typed_groups cfg (mc_zsetEvery cfg) (zset_ops cfg) @ new_groups cfg nv)"

definition bu_queued :: "bstate \<Rightarrow> bytes list list" where
  "bu_queued b = concat (bu_pipes b) @ bu_cmds b"

lemma bu_flush_accepts:
  "bu_cmds b \<noteq> [] \<Longrightarrow> bu_flush accepts b = (True, b\<lparr>bu_cmds := [], bu_pipes := bu_pipes b @ [bu_cmds b]\<rparr>)"
  by (auto simp: bu_flush_def mut_pipeline_def accepts_def)

lemma bu_loop_accepts:
  "\<exists>b'. bu_loop accepts gs b = (True, b') \<and> bu_queued b' = bu_queued b @ concat gs \<and> bu_err b' = bu_err b"
proof (induction gs arbitrary: b)
  case (Cons g gs)
  let ?b1 = "b\<lparr>bu_cmds := bu_cmds b @ g\<rparr>"
  let ?b2 = "b\<lparr>bu_cmds := [], bu_pipes := bu_pipes b @ [bu_cmds b @ g]\<rparr>"
  have e: "bu_loop accepts (g # gs) b = bu_loop accepts gs (if length (bu_cmds b @ g) \<ge> 1024 then ?b2 else ?b1)"
  proof (cases "length (bu_cmds b @ g) \<ge> 1024")
    case True
    then have "bu_cmds ?b1 \<noteq> []" by auto
    from bu_flush_accepts [OF this] True show ?thesis by (simp add: Let_def)
  qed (simp add: Let_def)
  show ?case using Cons.IH [of "if length (bu_cmds b @ g) \<ge> 1024 then ?b2 else ?b1"] unfolding e
    by (auto simp: bu_queued_def)
qed (simp add: bu_queued_def)

text \<open>
  A burst is complete: against a server that takes every command, the pipelines carry exactly the
  deletes, the typed operations and the new keys, in this order, none lost at the boundaries of
  the 1024-command pipelines, and no error is reported.
\<close>
theorem burst_sends_all:
  "concat (bu_pipes (burst cfg accepts v nv)) = burst_cmds cfg v nv \<and> \<not> bu_err (burst cfg accepts v nv)"
proof -
  let ?b0 = "\<lparr>bu_cmds = [], bu_pipes = [], bu_err = False\<rparr>"
  obtain b1 where b1: "bu_loop accepts (del_groups cfg) ?b0 = (True, b1)" "bu_queued b1 = concat (del_groups cfg)" "\<not> bu_err b1"
    using bu_loop_accepts [of "del_groups cfg" ?b0] by (auto simp: bu_queued_def)
  have l: "bu_queued (snd (bu_loop accepts gs b)) = bu_queued b @ concat gs" "bu_err (snd (bu_loop accepts gs b)) = bu_err b" for gs b
    using bu_loop_accepts [of gs b] by auto
  have t: "bu_queued (typed_loops cfg accepts v b1) @ concat (new_groups cfg nv) = burst_cmds cfg v nv" "\<not> bu_err (typed_loops cfg accepts v b1)"
    using b1 by (simp_all add: typed_loops_def Let_def l burst_cmds_def)
  obtain b2 where b2: "bu_loop accepts (new_groups cfg nv) (typed_loops cfg accepts v b1) = (True, b2)"
    "bu_queued b2 = burst_cmds cfg v nv" "\<not> bu_err b2"
    using bu_loop_accepts [of "new_groups cfg nv" "typed_loops cfg accepts v b1"] t by auto
  show ?thesis using b1 b2 bu_flush_accepts [of b2] by (auto simp: burst_def bu_queued_def)
qed

section \<open>What a burst removes\<close>

lemma strided_mem: "k \<in> set (strided keys step k0) \<Longrightarrow> k0 \<le> k \<and> k < keys \<and> step dvd k - k0"
proof (induction keys step k0 rule: strided.induct)
  case (1 keys step k0)
  show ?case
  proof (cases "k0 \<ge> keys \<or> step \<le> 0")
    case False
    then consider "k = k0" | "k \<in> set (strided keys step (k0 + step))" using "1.prems" by (auto simp: strided.simps [of keys step k0])
    then show ?thesis
    proof cases
      case 2
      have i: "k0 + step \<le> k" "k < keys" "step dvd k - (k0 + step)" using "1.IH" [OF False 2] by auto
      have "k - k0 = k - (k0 + step) + step" by simp
      then have "step dvd k - k0" using i(3) by (metis dvd_add dvd_refl)
      then show ?thesis using i False by simp
    qed (use False in simp)
  qed (use "1.prems" in \<open>simp add: strided.simps\<close>)
qed

lemma typed_mem:
  assumes "c \<in> set (concat (typed_groups cfg step ops))"
  obtains k where "0 \<le> k" "k < mc_keys cfg" "due step k" "c \<in> set (ops k)"
proof -
  from assms obtain k where k: "step > 0" "k \<in> set (strided (mc_keys cfg) step 0)" "c \<in> set (ops k)"
    by (auto simp: typed_groups_def split: if_splits)
  then have "0 \<le> k" "k < mc_keys cfg" "due step k" using strided_mem [OF k(2)] by (auto simp: due_def)
  then show ?thesis using that k(3) by blast
qed

text \<open>The loader wrote the member \<open>m\<close> of the collection at \<open>key\<close>.\<close>

definition seeded :: "load_cfg \<Rightarrow> bytes \<Rightarrow> bytes \<Rightarrow> bool" where
  "seeded lc key m \<longleftrightarrow> (\<exists>k c. 0 \<le> k \<and> k < lc_keys lc \<and> c \<in> set (key_cmds lc k) \<and> c ! 1 = key \<and> m \<in> set (drop 2 c))"

definition same_plan :: "load_cfg \<Rightarrow> mut_cfg \<Rightarrow> bool" where
  "same_plan lc cfg \<longleftrightarrow> lc_prefix lc = mc_prefix cfg \<and> mc_keys cfg \<le> lc_keys lc \<and> lc_hashEvery lc = mc_hashEvery cfg \<and>
     lc_listEvery lc = mc_listEvery cfg \<and> lc_setEvery lc = mc_setEvery cfg \<and> lc_zsetEvery lc = mc_zsetEvery cfg"

lemma plan_key: "same_plan lc cfg \<Longrightarrow> load_key lc k = mut_key cfg k"
  by (simp add: same_plan_def load_key_def mut_key_def)

lemma burst_cmd_cases:
  assumes "c \<in> set (burst_cmds cfg v nv)"
  obtains "c ! 0 \<notin> {''HDEL'', ''SREM'', ''ZREM''}"
  | k where "0 \<le> k" "k < mc_keys cfg" "due (mc_hashEvery cfg) k" "c = [''HDEL'', ''h'' @ mut_key cfg k, ''f2'']"
  | k where "0 \<le> k" "k < mc_keys cfg" "due (mc_setEvery cfg) k" "c = [''SREM'', ''s'' @ mut_key cfg k, ''S'' @ format_int k @ ''0'']"
  | k where "0 \<le> k" "k < mc_keys cfg" "due (mc_zsetEvery cfg) k" "c = [''ZREM'', ''z'' @ mut_key cfg k, ''Z'' @ format_int k @ ''1'']"
proof -
  consider "c \<in> set (concat (del_groups cfg))" | "c \<in> set (concat (typed_groups cfg (mc_hashEvery cfg) (hash_ops cfg v)))"
    | "c \<in> set (concat (typed_groups cfg (mc_listEvery cfg) (list_ops cfg)))"
    | "c \<in> set (concat (typed_groups cfg (mc_setEvery cfg) (set_ops cfg)))"
    | "c \<in> set (concat (typed_groups cfg (mc_zsetEvery cfg) (zset_ops cfg)))" | "c \<in> set (concat (new_groups cfg nv))"
    using assms unfolding burst_cmds_def concat_append set_append by blast
  then show thesis
  proof cases
    case 1
    then show ?thesis using that(1) by (auto simp: del_groups_def)
  next
    case 2
    then obtain k where "0 \<le> k" "k < mc_keys cfg" "due (mc_hashEvery cfg) k" "c \<in> set (hash_ops cfg v k)" by (rule typed_mem)
    then show ?thesis using that(1,2) by (auto simp: hash_ops_def Let_def split: if_splits)
  next
    case 3
    then obtain k where "c \<in> set (list_ops cfg k)" by (rule typed_mem)
    then show ?thesis using that(1) by (auto simp: list_ops_def Let_def split: if_splits)
  next
    case 4
    then obtain k where "0 \<le> k" "k < mc_keys cfg" "due (mc_setEvery cfg) k" "c \<in> set (set_ops cfg k)" by (rule typed_mem)
    then show ?thesis using that(1,3) by (auto simp: set_ops_def Let_def split: if_splits)
  next
    case 5
    then obtain k where "0 \<le> k" "k < mc_keys cfg" "due (mc_zsetEvery cfg) k" "c \<in> set (zset_ops cfg k)" by (rule typed_mem)
    then show ?thesis using that(1,4) by (auto simp: zset_ops_def Let_def split: if_splits)
  next
    case 6
    then show ?thesis using that(1) by (auto simp: new_groups_def new_cmd_def Let_def split: if_splits)
  qed
qed

text \<open>
  Loader and storm fit together: with the same prefix and strides, every field, member or score the
  burst removes was written by the loader, so that no removal is a command without effect.
\<close>
theorem burst_removes_seeded:
  assumes "same_plan lc cfg" "c \<in> set (burst_cmds cfg v nv)" "c ! 0 \<in> {''HDEL'', ''SREM'', ''ZREM''}"
  shows "seeded lc (c ! 1) (c ! 2)"
proof -
  have lk: "k < mc_keys cfg \<Longrightarrow> k < lc_keys lc" for k using assms(1) by (simp add: same_plan_def)
  have ev: "lc_hashEvery lc = mc_hashEvery cfg" "lc_setEvery lc = mc_setEvery cfg" "lc_zsetEvery lc = mc_zsetEvery cfg"
    using assms(1) by (simp_all add: same_plan_def)
  from assms(2) show ?thesis
  proof (cases rule: burst_cmd_cases)
    case 1
    then show ?thesis using assms(3) by blast
  next
    case (2 k)
    then have "[''HSET'', ''h'' @ mut_key cfg k, ''f2'', valSuffix k CHR ''f''] \<in> set (key_cmds lc k)"
      by (simp add: key_cmds_def Let_def plan_key [OF assms(1)] ev)
    then show ?thesis unfolding seeded_def using 2 lk by (intro exI [of _ k] exI conjI) (assumption | simp)+
  next
    case (3 k)
    then have "[''SADD'', ''s'' @ mut_key cfg k, ''S'' @ format_int k @ ''0'', ''S'' @ format_int k @ ''1'', ''S'' @ format_int k @ ''2''] \<in> set (key_cmds lc k)"
      by (simp add: key_cmds_def Let_def plan_key [OF assms(1)] ev)
    then show ?thesis unfolding seeded_def using 3 lk by (intro exI [of _ k] exI conjI) (assumption | simp)+
  next
    case (4 k)
    let ?d = "format_int k"
    from 4 have "[''ZADD'', ''z'' @ mut_key cfg k, ''1'', ''Z'' @ ?d @ ''1'', ''2'', ''Z'' @ ?d @ ''2'', ''3'', ''Z'' @ ?d @ ''3''] \<in> set (key_cmds lc k)"
      by (simp add: key_cmds_def Let_def plan_key [OF assms(1)] ev)
    then show ?thesis unfolding seeded_def using 4 lk by (intro exI [of _ k] exI conjI) (assumption | simp)+
  qed
qed

section \<open>A silent end\<close>

text \<open>
  A worker whose round meets only the slots of hashes stops: its empty pipeline counts as failed,
  no error is reported, and the rounds left are not written.
\<close>
theorem updater_stops_silently:
  assumes "list_all (\<lambda>(s, u). due (mc_hashEvery cfg) ((s - 1) mod mc_keys cfg)) draws"
  shows "updater cfg answer (draws # rounds) = (0, False)"
proof -
  have "upd_cmds cfg draws = []" using assms by (auto simp: upd_cmds_def list_all_iff Let_def)
  then show ?thesis by (simp add: mut_pipeline_def)
qed

definition demo_mut :: mut_cfg where
  "demo_mut = \<lparr>mc_prefix = ''b:'', mc_keys = 4, mc_del = 1, mc_hashEvery = 2, mc_listEvery = 0, mc_setEvery = 0, mc_zsetEvery = 0, mc_newTyped = 0\<rparr>"

theorem updater_stops_silently_witness: "updater demo_mut accepts [[(1, 1)], [(2, 2)]] = (0, False)"
  using updater_stops_silently [of demo_mut "[(1, 1)]" accepts "[[(2, 2)]]"] by (simp add: demo_mut_def due_def)

theorem burst_removes_seeded_witness:
  "seeded \<lparr>lc_keys = 4, lc_workers = 1, lc_batch = 1, lc_prefix = ''b:'', lc_vsize = 1, lc_hashEvery = 2, lc_listEvery = 0, lc_setEvery = 0, lc_zsetEvery = 0\<rparr>
     (''h'' @ mut_key demo_mut 0) ''f2''"
proof -
  let ?lc = "\<lparr>lc_keys = 4, lc_workers = 1, lc_batch = 1, lc_prefix = ''b:'', lc_vsize = 1, lc_hashEvery = 2, lc_listEvery = 0, lc_setEvery = 0, lc_zsetEvery = 0\<rparr>"
  have "same_plan ?lc demo_mut" by (simp add: same_plan_def demo_mut_def)
  moreover have "[''HDEL'', ''h'' @ mut_key demo_mut 0, ''f2''] \<in> set (burst_cmds demo_mut uniq (\<lambda>t. uniq))"
    by (simp add: burst_cmds_def typed_groups_def strided.simps [of 4 2 0] hash_ops_def demo_mut_def Let_def)
  ultimately show ?thesis using burst_removes_seeded [of ?lc demo_mut "[''HDEL'', ''h'' @ mut_key demo_mut 0, ''f2'']"] by simp
qed

end
