(* ===== verification/Spec2Isabelle.thy ===== *)
theory Spec2Isabelle
  imports Resp Binlog Envelope Store Gate DiskBuffer Handoff Session Ring KafkaSink
    KafkaClose FileSink Metrics SqlMapping SqlSink DorisSink Wire Client Info Dbsync DbsyncFetch DumpReader App KeyModel VerifyKafka
    ExpCodec AuditJoin BinlogCat Replay Compare Load Mutate
begin

text \<open>
  Verification development of pikawire, a change-data-capture pipeline that replicates a PikiwiDB
  master into Kafka, a file, an SQL database or Doris: a dump of the database becomes snapshot
  events, and from the dump's binlog position on every binlog entry becomes an incremental event.

  \<^bold>\<open>The program and its models.\<close> Paths are below \<^verbatim>\<open>src/internal/\<close>.

  \<^item> \<open>Prelude\<close>, \<open>GoStd\<close>, \<open>GoEnc\<close>: bytes and strings, outcomes with panics, machine integers, and the
    functions of Go's standard library that the sources call (decimal numbers, case mapping,
    trimming, search, UTF-8, base64).
  \<^item> \<open>Resp\<close> (\<^verbatim>\<open>resp/\<close>), \<open>Binlog\<close> (\<^verbatim>\<open>binlog/\<close>, \<^verbatim>\<open>event/\<close>), \<open>Envelope\<close> (\<^verbatim>\<open>envelope/\<close>), \<open>Position\<close>: the codecs of
    commands, binlog entries and events, and binlog positions with their linear order.
  \<^item> \<open>Wire\<close> (\<^verbatim>\<open>pbnet/\<close>, \<^verbatim>\<open>redisclient/\<close>), \<open>Client\<close> and \<open>Info\<close> (\<^verbatim>\<open>info/\<close>): framing, replies of the command client,
    the client on a connection with the conversation that forces a save, and the probe that reads the
    master's tip.
  \<^item> \<open>Store\<close> (\<^verbatim>\<open>store/\<close>): the checkpoint and its atomic flush.
  \<^item> \<open>Gate\<close>, \<open>DiskBuffer\<close>, \<open>Backlog\<close>, \<open>Runner\<close>, \<open>Handoff\<close>, \<open>Session\<close> (\<^verbatim>\<open>replica/\<close>): the gate between
    snapshot and stream, the segmented backlog on disk and the queue it implements, the regions the
    runner executes under its lock, the interleaving of its goroutines as a step relation, and the
    session with its handshake, acknowledgements and stall test.
  \<^item> \<open>Ring\<close>, \<open>KafkaSink\<close>, \<open>KafkaClose\<close>, \<open>FileSink\<close> (\<^verbatim>\<open>sink/\<close>): the completion ring, the Kafka sink with its
    queues, workers and notifier as a step relation, the same with its stop channel and \<^verbatim>\<open>Close\<close>, and
    the file sink with torn writes.
  \<^item> \<open>SqlMapping\<close>, \<open>SqlSink\<close> (\<^verbatim>\<open>sqlsink/\<close>) and \<open>DorisSink\<close> (\<^verbatim>\<open>dorissink/\<close>): rules that map events to rows,
    statement texts, coalescing and transactions, stream loads with backpressure.
  \<^item> \<open>Dbsync\<close>, \<open>DbsyncFetch\<close> (\<^verbatim>\<open>dbsync/\<close>): forced save, transfer of the dump by a pool of workers, the anchor,
    the events of a dump, and \<^verbatim>\<open>Fetch\<close>, which composes them. \<open>DumpReader\<close> (\<^verbatim>\<open>dbsync/cgoadapter/\<close>): the
    protocol with the process that reads a dump, both ends, and the prefetching iterator.
  \<^item> \<open>Metrics\<close> (\<^verbatim>\<open>metrics/\<close>): the registry with its shared handles over a store of cells, and the text of
    the endpoint.
  \<^item> \<open>App\<close> (\<^verbatim>\<open>app/\<close>): configuration, the choice of the sink, the snapshot with its durable progress, the
    retry loops, the resume path, and how a session ends.
  \<^item> \<open>KeyModel\<close>, \<open>VerifyKafka\<close> (\<^verbatim>\<open>src/cmd/pikatool/verifykafka.go\<close>): the model of a key that the topic
    verifier replays, its accounting of events and its page-wise comparison with the server.
  \<^item> \<open>Load\<close>, \<open>Mutate\<close> (\<^verbatim>\<open>src/cmd/pikatool/load.go\<close>, \<^verbatim>\<open>mutate.go\<close>): the data set loader and the write storm.
  \<^item> The experiment kit (\<^verbatim>\<open>src/tools/expkit/\<close>), which judges the product from outside: \<open>ExpCodec\<close> (\<^verbatim>\<open>exp/\<close>), its
    own decoder and client; \<open>BinlogCat\<close>, the capture of the binlog; \<open>AuditJoin\<close>, which joins capture and
    event stream; \<open>Replay\<close>, the order check and the replay into another server; \<open>Compare\<close>, the comparison
    of two servers.

  Structs are records, enumerations and tagged results datatypes, \<^verbatim>\<open>uint32\<close> and \<^verbatim>\<open>uint64\<close> values words;
  lengths, ordinals and counters that cannot wrap in a run are naturals or integers. Errors are
  values; a panic is an outcome of its own. System calls, the network, the clock, the database, the
  broker and the JSON, YAML and protobuf codecs are arguments of the definitions that use them.

  \<^bold>\<open>Interfaces.\<close> The locale \<open>position_test\<close> is what gate, sinks and checkpoint need of a comparison of
  positions, \<open>checkpoint\<close> what they need of the store, \<open>backlog\<close> the queue the handoff needs of the disk
  buffer, and \<open>row_store\<close> what the two row sinks need of a table; each is interpreted on the program's
  own operations. The locale \<open>tally\<close> is the contract of the metrics registry: every update adds its
  amount to its own key.

  \<^bold>\<open>What the theorems show.\<close>

  \<^item> The handoff: under every interleaving, cancellation and fault, the sink gets the events of the
    received entries beyond the anchor once and in order, after the snapshot, and the checkpoint never
    passes an entry the sink did not take. It rests on the backlog being an exact queue under rotation,
    deletion and failing system calls, with bounded growth, and a blocked producer is
    accepted again once the reader has drained it.
  \<^item> The session: establishment ends and streams from the requested position, every batch is
    acknowledged exactly once, a stall is declared only after twenty idle seconds.
  \<^item> The store: a flush is atomic whatever call fails, a restart reads what was flushed, the
    position never moves back.
  \<^item> The sinks: the Kafka checkpoint covers only what the broker accepted, one worker per partition
    keeps the order of a key, a clean \<^verbatim>\<open>Close\<close> has written all that was accepted before it; the file is
    the list of its acknowledged events, one line each; a coalesced SQL batch has the effect of its rows one by one; the Doris
    sink delivers its accepted rows in order and keeps its queue bounded; rows identify their keys,
    patterns round trip, statements get the arguments they name.
  \<^item> The dump: a fetch that succeeds has copied all files of the master exactly and its anchor is the
    position that snapshot recorded, the worker pool always returns, the iterator
    returns the records of the dump once and in order and never takes a truncated dump for a complete
    one, every record becomes one event, the snapshot is recorded as done exactly when it completed.
  \<^item> The codecs: parsing inverts printing for commands, replies, frames, JSON strings and the tip of
    the binlog, and accepts nothing else where the format is strict; readers terminate.
  \<^item> The topic verifier: replaying never panics, does not depend on the order in which partitions
    deliver, and a run that passes shows the state of every watched key on the server.
  \<^item> The tools: the independent decoder agrees with the product on every entry; a capture, over any
    sequence of sessions, is an ordered truth for the audit; an audit that passes shows that the
    delivered events are the captured entries beyond the anchor, once and in order; the order check
    is exact, the replay keeps the order of every key, the comparison is exact on answering servers
    up to the text of the values; the loader claims every key once, and the storm removes only
    members the loader wrote.
  \<^item> Behaviour that departs from the documentation or the evident intent is proved as such, among
    them: a stalled session whose sink is healthy never returns, a resumed snapshot can skip its
    backlog, recovering a backlog of several segments drops all but the last, the default two workers
    per partition can reorder a key, the audit never checks the capture for gaps, the replay and the
    comparison pass when their servers cannot be reached.

  \<^bold>\<open>Bounds.\<close> Loops that end by their data are structurally recursive or have a measure. The depth bound
  of the reply readers is the input length, which is shown to suffice for every input. The file
  transfer is bounded by the number of responses a connection delivers, one per chunk being enough.
  Loops that wait for the environment take its answers as a list.

  \<^bold>\<open>Not modelled.\<close> Generated protobuf code; the HTTP routing of the metrics endpoint; flag parsing and
  process set-up of the command line programs; the C++ drivers behind the pipe protocol; the random
  workloads and probes of the experiment kit; the clock and the pacing of the write storm; logging.
\<close>

end
